(* ===== verification/Sharak_Prelude.thy ===== *)
theory Sharak_Prelude
  imports Main "HOL-Library.Word" "HOL-Library.Monad_Syntax" "HOL-Library.Signed_Division"
begin

text \<open>
  What every component of the development shares: the machine types of the C sources, the
  memory model (bounded buffers of possibly uninitialised bytes behind possibly null
  pointers), C's checked signed arithmetic, and the generic lemmas on them.

  A C function that touches memory is a HOL function into \<open>option\<close>. \<open>None\<close> is undefined
  behaviour of the C program: an access outside the buffer, a read of a byte that was never
  written, a signed overflow. \<open>Some r\<close> is a normal return. A theorem whose conclusion is
  \<open>f x = Some r\<close> therefore also says that the call has no undefined behaviour.
\<close>

unbundle bit_operations_syntax

section \<open>Machine types\<close>

text \<open>
  \<open>int16_t\<close> and \<open>int32_t\<close> are the two's-complement bit patterns of their width, read by
  \<^const>\<open>sint\<close>; the conversions between a signed type and the unsigned type of its width
  (modulo \<open>2 ^ w\<close>, as C and GCC define them) then leave the pattern as it is.
\<close>

type_synonym u8 = "8 word"
type_synonym u16 = "16 word"
type_synonym u32 = "32 word"
type_synonym i16 = "16 word"
type_synonym i32 = "32 word"

section \<open>Memory\<close>

text \<open>
  A buffer is a list of cells; an indeterminate cell (a local array before it is written) is
  \<open>None\<close>. A pointer to a buffer is \<open>mem option\<close>, with \<open>None\<close> for \<open>NULL\<close>. A pointer to one
  output object is \<open>'a option\<close> in the same way.
\<close>

type_synonym mem = "u8 option list"

definition rd :: "mem \<Rightarrow> nat \<Rightarrow> u8 option" where
  "rd m i = (if i < length m then m ! i else None)"

definition wr :: "mem \<Rightarrow> nat \<Rightarrow> u8 \<Rightarrow> mem option" where
  "wr m i v = (if i < length m then Some (m[i := Some v]) else None)"

text \<open>\<open>if (p != NULL) { *p = e; }\<close>: the expression is evaluated only behind the check.\<close>

definition put_out :: "'a option \<Rightarrow> 'a option \<Rightarrow> 'a option option" where
  "put_out p e = (case p of None \<Rightarrow> Some None | Some _ \<Rightarrow> map_option Some e)"

text \<open>The byte-copy loop \<open>for (i = 0; i < n; i++) dst[i] = src[i]\<close>.\<close>

function copy_loop :: "mem \<Rightarrow> mem \<Rightarrow> nat \<Rightarrow> nat \<Rightarrow> mem option" where
  "copy_loop src dst i n =
     (if i < n
      then do { b \<leftarrow> rd src i; dst \<leftarrow> wr dst i b; copy_loop src dst (Suc i) n }
      else Some dst)"
  by pat_completeness auto
termination
  by (relation "measure (\<lambda>(src, dst, i, n). n - i)") auto

declare copy_loop.simps [simp del]

named_theorems cmem "evaluation of memory accesses that stay in bounds"

lemma rd_map_Some [cmem]: "i < length p \<Longrightarrow> rd (map Some p @ r) i = Some (p ! i)"
  by (simp add: rd_def nth_append)

lemma rd_map_Some_last [cmem]: "rd (map Some p @ Some b # r) (length p) = Some b"
  by (simp add: rd_def nth_append)

lemma rd_Some_iff: "rd m i = Some b \<longleftrightarrow> i < length m \<and> m ! i = Some b"
  by (auto simp: rd_def)

lemma wr_Some_iff: "wr m i v = Some m' \<longleftrightarrow> i < length m \<and> m' = m[i := Some v]"
  by (auto simp: wr_def)

lemma wr_length: "wr m i v = Some m' \<Longrightarrow> length m' = length m"
  by (auto simp: wr_def split: if_splits)

text \<open>
  A buffer whose first cells hold the bytes \<open>p\<close> and whose other cells are those of \<open>m\<close>:
  what is left behind by code that writes a buffer from the front. Writing just behind the
  prefix extends it by one byte.
\<close>

definition filled :: "u8 list \<Rightarrow> mem \<Rightarrow> mem" where
  "filled p m = map Some p @ drop (length p) m"

lemma filled_Nil [simp]: "filled [] m = m"
  by (simp add: filled_def)

lemma length_filled [simp]: "length p \<le> length m \<Longrightarrow> length (filled p m) = length m"
  by (simp add: filled_def)

lemma rd_filled [cmem]: "i < length p \<Longrightarrow> rd (filled p m) i = Some (p ! i)"
  by (simp add: filled_def rd_map_Some)

lemma wr_filled [cmem]:
  assumes "i = length p" and "i < length m"
  shows "wr (filled p m) i v = Some (filled (p @ [v]) m)"
proof -
  obtain a r where "drop i m = a # r" "drop (Suc i) m = r"
    using assms(2) by (metis Cons_nth_drop_Suc)
  then show ?thesis
    using assms by (simp add: wr_def filled_def list_update_append)
qed

lemma wr_first [cmem]: "m \<noteq> [] \<Longrightarrow> wr m 0 v = Some (filled [v] m)"
  using wr_filled [of 0 "[]" m v] by simp

lemma room_nonempty: "n \<le> length m \<Longrightarrow> 0 < n \<Longrightarrow> m \<noteq> []"
  by auto

lemma filled_nth_other: "length p \<le> i \<Longrightarrow> i < length m \<Longrightarrow> filled p m ! i = m ! i"
  by (simp add: filled_def nth_append)

lemma filled_filled: "length p \<le> length q \<Longrightarrow> filled q (filled p m) = filled q m"
  by (simp add: filled_def)

lemma copy_loop_prefix:
  assumes "i \<le> n" and "n \<le> length p" and "n \<le> length dst"
  shows "copy_loop (map Some p @ r) (filled (take i p) dst) i n = Some (filled (take n p) dst)"
  using assms
proof (induction "n - i" arbitrary: i)
  case 0
  then show ?case by (simp add: copy_loop.simps)
next
  case (Suc k)
  have i: "i < n" "i < length p" using Suc by auto
  have w: "wr (filled (take i p) dst) i (p ! i) = Some (filled (take (Suc i) p) dst)"
    using wr_filled [of i "take i p" dst "p ! i"] i Suc.prems
    by (simp add: take_Suc_conv_app_nth)
  have "copy_loop (map Some p @ r) (filled (take i p) dst) i n =
        copy_loop (map Some p @ r) (filled (take (Suc i) p) dst) (Suc i) n"
    using i w by (subst copy_loop.simps) (simp add: rd_map_Some)
  also have "\<dots> = Some (filled (take n p) dst)"
    by (rule Suc.hyps(1)) (use Suc.hyps(2) Suc.prems i in auto)
  finally show ?case .
qed

lemma copy_loop_all:
  assumes "n \<le> length p" and "n \<le> length dst"
  shows "copy_loop (map Some p @ r) dst 0 n = Some (filled (take n p) dst)"
  using copy_loop_prefix [of 0 n p dst r] assms by simp

section \<open>Bytes of a word\<close>

text \<open>\<open>(uint8_t)((w >> k) & 0xFFu)\<close>, and a word put together from its bytes, low byte first.\<close>

definition byte_at :: "'a::len word \<Rightarrow> nat \<Rightarrow> u8" where
  "byte_at w k = ucast (drop_bit k w AND 0xFF)"

definition join16 :: "u8 \<Rightarrow> u8 \<Rightarrow> u16" where
  "join16 b0 b1 = ucast b0 OR push_bit 8 (ucast b1)"

definition join32 :: "u8 \<Rightarrow> u8 \<Rightarrow> u8 \<Rightarrow> u8 \<Rightarrow> u32" where
  "join32 b0 b1 b2 b3 =
     ucast b0 OR push_bit 8 (ucast b1) OR push_bit 16 (ucast b2) OR push_bit 24 (ucast b3)"

lemma bit_FF: "bit (0xFF :: 'a::len word) n \<longleftrightarrow> n < LENGTH('a) \<and> n < 8"
proof -
  have "(0xFF :: 'a word) = mask 8" by (simp add: mask_numeral)
  then show ?thesis by (simp only: bit_mask_iff) auto
qed

lemma bit_byte_at: "bit (byte_at w k) n \<longleftrightarrow> n < 8 \<and> bit w (k + n)"
  by (auto simp: byte_at_def bit_ucast_iff bit_and_iff bit_drop_bit_eq bit_FF
      simp del: bit_numeral_word_iff dest: bit_imp_le_length)

lemma bit_join16: "bit (join16 a b) n \<longleftrightarrow> (if n < 8 then bit a n else n < 16 \<and> bit b (n - 8))"
  by (auto simp: join16_def bit_or_iff bit_push_bit_iff bit_ucast_iff dest: bit_imp_le_length)

lemma bit_join32:
  "bit (join32 a b c d) n \<longleftrightarrow>
     (if n < 8 then bit a n else if n < 16 then bit b (n - 8)
      else if n < 24 then bit c (n - 16) else n < 32 \<and> bit d (n - 24))"
  by (auto simp: join32_def bit_or_iff bit_push_bit_iff bit_ucast_iff dest: bit_imp_le_length)

named_theorems le_bytes "taking words apart into bytes and putting them together"

lemma join16_byte_at [le_bytes]: "join16 (byte_at w 0) (byte_at w 8) = w"
  by (rule bit_word_eqI) (auto simp: bit_join16 bit_byte_at)

lemma join32_byte_at [le_bytes]:
  "join32 (byte_at w 0) (byte_at w 8) (byte_at w 16) (byte_at w 24) = w"
  by (rule bit_word_eqI) (auto simp: bit_join32 bit_byte_at)

lemma byte_at_join16 [le_bytes]:
  "byte_at (join16 a b) 0 = a" "byte_at (join16 a b) 8 = b"
  by (rule bit_word_eqI; simp add: bit_join16 bit_byte_at)+

lemma byte_at_join32 [le_bytes]:
  "byte_at (join32 a b c d) 0 = a" "byte_at (join32 a b c d) 8 = b"
  "byte_at (join32 a b c d) 16 = c" "byte_at (join32 a b c d) 24 = d"
  by (rule bit_word_eqI; simp add: bit_join32 bit_byte_at)+

text \<open>A byte that travels through a wider register.\<close>

lemma ucast_through [simp]: "(ucast (ucast b :: u32) :: u8) = b"
  by (rule bit_word_eqI) (simp add: bit_ucast_iff)

text \<open>The two assignments that lay out a 16-bit field at an offset, low byte first.\<close>

definition put_le16 :: "mem \<Rightarrow> nat \<Rightarrow> u16 \<Rightarrow> mem option" where
  "put_le16 b off u = do {
     b \<leftarrow> wr b off (byte_at u 0);
     wr b (off + 1) (byte_at u 8)
   }"

definition le16 :: "u16 \<Rightarrow> u8 list" where
  "le16 w = [byte_at w 0, byte_at w 8]"

lemma length_le16 [simp]: "length (le16 w) = 2"
  by (simp add: le16_def)

lemma put_le16_filled:
  "i = length p \<Longrightarrow> i + 2 \<le> length m \<Longrightarrow>
   put_le16 (filled p m) i w = Some (filled (p @ le16 w) m)"
  by (simp add: put_le16_def wr_filled le16_def)

section \<open>Signed arithmetic\<close>

text \<open>
  \<open>int32_t\<close> multiplication and division: overflow and division by zero are undefined, the
  quotient is truncated towards zero (\<^const>\<open>signed_divide\<close> on \<^typ>\<open>int\<close>).
\<close>

definition in_i32 :: "int \<Rightarrow> bool" where
  "in_i32 r \<longleftrightarrow> - 2147483648 \<le> r \<and> r \<le> 2147483647"

definition c_mul32 :: "i32 \<Rightarrow> i32 \<Rightarrow> i32 option" where
  "c_mul32 a b =
     (if in_i32 (sint a * sint b) then Some (word_of_int (sint a * sint b)) else None)"

definition c_div32 :: "i32 \<Rightarrow> i32 \<Rightarrow> i32 option" where
  "c_div32 a b =
     (if sint b \<noteq> 0 \<and> in_i32 (sint a sdiv sint b)
      then Some (word_of_int (sint a sdiv sint b)) else None)"

lemma sint_word_of_int_i32: "in_i32 r \<Longrightarrow> sint (word_of_int r :: i32) = r"
  by (simp add: in_i32_def sint_sbintrunc' signed_take_bit_int_eq_self_iff)

lemma c_mul32_Some:
  assumes "in_i32 (sint a * sint b)"
  shows "\<exists>c. c_mul32 a b = Some c \<and> sint c = sint a * sint b"
  using assms sint_word_of_int_i32 unfolding c_mul32_def by metis

lemma c_div32_Some:
  assumes "sint b \<noteq> 0" and "in_i32 (sint a sdiv sint b)"
  shows "\<exists>c. c_div32 a b = Some c \<and> sint c = sint a sdiv sint b"
  using assms sint_word_of_int_i32 unfolding c_div32_def by metis

end
