(* ===== verification/Mmio.thy ===== *)
theory Mmio
  imports Sharak_Prelude
begin

text \<open>
  Memory-mapped devices. The hardware behind \<open>volatile uint32_t *\<close> is a parameter of the
  model: a state and what a load and a store of a 32-bit register do to it. Every load may
  change the device (time passes, a FIFO drains), so none is left out.
\<close>

text \<open>The block of the system control registers, which both drivers use.\<close>

definition SYSCTL_BASE :: u32 where [simp]: "SYSCTL_BASE = 0x400FE000"

record 'd mmio =
  load_reg :: "'d \<Rightarrow> u32 \<Rightarrow> u32 \<times> 'd"
  store_reg :: "'d \<Rightarrow> u32 \<Rightarrow> u32 \<Rightarrow> 'd"

text \<open>\<open>reg |= bits\<close> is a load and a store.\<close>

definition or_reg :: "'d mmio \<Rightarrow> u32 \<Rightarrow> u32 \<Rightarrow> 'd \<Rightarrow> 'd" where
  "or_reg dev a bits d = (let (v, d) = load_reg dev d a in store_reg dev d a (v OR bits))"

text \<open>
  \<open>while (reg & msk) { }\<close>. The loop has no bound in the code: on a device that never clears
  the bits it does not return, which is \<open>None\<close> here.
\<close>

partial_function (option) spin :: "'d mmio \<Rightarrow> u32 \<Rightarrow> u32 \<Rightarrow> 'd \<Rightarrow> 'd option" where
  "spin dev a msk d =
     (let (v, d) = load_reg dev d a in
      if v AND msk \<noteq> 0 then spin dev a msk d else Some d)"

text \<open>
  What the busy-waits rely on: while the bits read as set, every poll brings the device
  nearer to clearing them. \<open>ok\<close> delimits the device states the claim is about.
\<close>

definition settles :: "'d mmio \<Rightarrow> u32 \<Rightarrow> u32 \<Rightarrow> ('d \<Rightarrow> bool) \<Rightarrow> ('d \<Rightarrow> nat) \<Rightarrow> bool" where
  "settles dev a msk ok level \<longleftrightarrow>
     (\<forall>d. ok d \<longrightarrow>
        ok (snd (load_reg dev d a)) \<and>
        (fst (load_reg dev d a) AND msk \<noteq> 0 \<longrightarrow> level (snd (load_reg dev d a)) < level d))"

lemma spin_returns:
  assumes "settles dev a msk ok level" and "ok d"
  shows "\<exists>d0. ok d0 \<and> fst (load_reg dev d0 a) AND msk = 0 \<and>
           spin dev a msk d = Some (snd (load_reg dev d0 a))"
  using assms(2)
proof (induction "level d" arbitrary: d rule: less_induct)
  case less
  let ?v = "fst (load_reg dev d a)" and ?d = "snd (load_reg dev d a)"
  show ?case
  proof (cases "?v AND msk = 0")
    case True
    then show ?thesis using less.prems by (intro exI [of _ d]) (simp add: spin.simps case_prod_unfold)
  next
    case False
    then have "ok ?d" "level ?d < level d"
      using assms(1) less.prems by (auto simp: settles_def)
    then obtain d0 where "ok d0" "fst (load_reg dev d0 a) AND msk = 0"
      "spin dev a msk ?d = Some (snd (load_reg dev d0 a))"
      using less.hyps by blast
    then show ?thesis using False by (subst spin.simps) (auto simp: case_prod_unfold)
  qed
qed

text \<open>A device that never clears the bits keeps the loop for ever.\<close>

lemma spin_return_not_stuck:
  assumes "spin dev a msk d = Some r"
  shows "(\<forall>d. ok d \<longrightarrow> ok (snd (load_reg dev d a)) \<and> fst (load_reg dev d a) AND msk \<noteq> 0) \<longrightarrow>
    \<not> ok d"
proof (rule spin.raw_induct [where P = "\<lambda>dev a msk d r.
      (\<forall>d. ok d \<longrightarrow> ok (snd (load_reg dev d a)) \<and> fst (load_reg dev d a) AND msk \<noteq> 0) \<longrightarrow>
      \<not> ok d", OF _ assms], intro impI)
  fix self dev a msk d r
  assume step: "\<And>dev a msk d r. self dev a msk d = Some r \<Longrightarrow>
      (\<forall>d. ok d \<longrightarrow> ok (snd (load_reg dev d a)) \<and> fst (load_reg dev d a) AND msk \<noteq> 0) \<longrightarrow> \<not> ok d"
    and run: "(let (v, d) = load_reg dev d a in
               if v AND msk \<noteq> 0 then self dev a msk d else Some d) = Some r"
    and busy: "\<forall>d. ok d \<longrightarrow> ok (snd (load_reg dev d a)) \<and> fst (load_reg dev d a) AND msk \<noteq> 0"
  show "\<not> ok d"
  proof
    assume "ok d"
    then have "self dev a msk (snd (load_reg dev d a)) = Some r" "ok (snd (load_reg dev d a))"
      using run busy by (auto simp: case_prod_unfold)
    then show False using step busy by blast
  qed
qed

lemma spin_stuck:
  assumes "\<forall>d. ok d \<longrightarrow> ok (snd (load_reg dev d a)) \<and> fst (load_reg dev d a) AND msk \<noteq> 0"
    and "ok d"
  shows "spin dev a msk d = None"
  using spin_return_not_stuck [of dev a msk d _ ok] assms by (cases "spin dev a msk d") auto

section \<open>The register accesses of a run\<close>

text \<open>
  Any device with a record of the stores made to it and of what was loaded from the
  registers in \<open>watch\<close>, oldest first: what the code did to the hardware, whatever the
  hardware answers.
\<close>

datatype access = Wr u32 u32 | Rd u32 u32

definition logged :: "u32 set \<Rightarrow> 'd mmio \<Rightarrow> ('d \<times> access list) mmio" where
  "logged watch dev =
     \<lparr>load_reg = \<lambda>(d, l) a.
        (let (v, d) = load_reg dev d a in (v, d, if a \<in> watch then l @ [Rd a v] else l)),
      store_reg = \<lambda>(d, l) a v. (store_reg dev d a v, l @ [Wr a v])\<rparr>"

lemma logged_simps [simp]:
  "load_reg (logged watch dev) (d, l) a =
     (fst (load_reg dev d a), snd (load_reg dev d a),
      if a \<in> watch then l @ [Rd a (fst (load_reg dev d a))] else l)"
  "store_reg (logged watch dev) (d, l) a v = (store_reg dev d a v, l @ [Wr a v])"
  by (simp_all add: logged_def case_prod_unfold Let_def)

text \<open>A busy wait on a watched register loads it until the bits read as clear.\<close>

lemma spin_logged:
  assumes "settles dev a msk ok level" and "a \<in> watch" and "ok d"
  shows "\<exists>d' vs v. spin (logged watch dev) a msk (d, l) = Some (d', l @ map (Rd a) (vs @ [v])) \<and> ok d' \<and>
           (\<forall>u\<in>set vs. u AND msk \<noteq> 0) \<and> v AND msk = 0"
  using assms(3)
proof (induction "level d" arbitrary: d l rule: less_induct)
  case less
  let ?v = "fst (load_reg dev d a)" and ?d = "snd (load_reg dev d a)"
  have next_ok: "ok ?d" using assms(1) less.prems by (simp add: settles_def)
  show ?case
  proof (cases "?v AND msk = 0")
    case True
    then show ?thesis using assms(2) next_ok
      by (intro exI [of _ ?d] exI [of _ "[]"] exI [of _ ?v]) (simp add: spin.simps)
  next
    case False
    then have "level ?d < level d" using assms(1) less.prems by (simp add: settles_def)
    from less.hyps [OF this next_ok, of "l @ [Rd a ?v]"] obtain d' vs v where
      rest: "spin (logged watch dev) a msk (?d, l @ [Rd a ?v]) = Some (d', (l @ [Rd a ?v]) @ map (Rd a) (vs @ [v]))"
      "ok d'" "\<forall>u\<in>set vs. u AND msk \<noteq> 0" "v AND msk = 0"
      by blast
    have "spin (logged watch dev) a msk (d, l) = spin (logged watch dev) a msk (?d, l @ [Rd a ?v])"
      using False assms(2) by (subst spin.simps) simp
    then show ?thesis using rest False
      by (intro exI [of _ d'] exI [of _ "?v # vs"] exI [of _ v]) simp
  qed
qed

lemma or_reg_logged:
  "\<exists>v d'. or_reg (logged {} dev) a bits (d, l) = (d', l @ [Wr a (v OR bits)])"
  by (auto simp: or_reg_def)

end
