(* ===== verification/I2c_Bus.thy ===== *)
theory I2c_Bus
  imports Sharak_Prelude
begin

text \<open>
  The bus seam of \<open>firmware/i2c.h\<close>: the status codes, the struct of two methods and a
  context, and the contract of a register chip behind it, which is what the accelerometer
  driver relies on.
\<close>

definition I2C_OK :: int where "I2C_OK = 0"
definition I2C_ERR_NACK :: int where "I2C_ERR_NACK = -1"
definition I2C_ERR_BUS :: int where "I2C_ERR_BUS = -2"
definition I2C_ERR_PARAM :: int where "I2C_ERR_PARAM = -3"

lemmas i2c_codes = I2C_OK_def I2C_ERR_NACK_def I2C_ERR_BUS_def I2C_ERR_PARAM_def

text \<open>
  A method takes what \<open>ctx\<close> points to and returns it updated; a read method also returns
  the caller's receive buffer. The methods are pointers: \<open>None\<close> is \<open>NULL\<close>. The struct
  carries the object behind \<open>ctx\<close> itself, since nothing else in the program reaches it.
\<close>

type_synonym 'c write_fn = "'c \<Rightarrow> u8 \<Rightarrow> mem option \<Rightarrow> nat \<Rightarrow> (int \<times> 'c) option"

type_synonym 'c write_read_fn =
  "'c \<Rightarrow> u8 \<Rightarrow> mem option \<Rightarrow> nat \<Rightarrow> mem option \<Rightarrow> nat \<Rightarrow> (int \<times> 'c \<times> mem option) option"

record 'c i2c_bus =
  bus_write :: "'c write_fn option"
  bus_write_read :: "'c write_read_fn option"
  ctx :: 'c

text \<open>
  The contract of a chip with byte registers at one address. \<open>inv\<close> is the backend's
  invariant, \<open>reg\<close> its register file, \<open>clock\<close> what its samples depend on; a six-byte read at
  \<open>0x32\<close> while bit 3 of register \<open>0x2D\<close> is set returns the sample of the moment and
  advances the clock once. Registers \<open>0x32\<close> to \<open>0x37\<close> hold samples, all others below
  \<open>0x3A\<close> change by a write only, and the control registers take what is written.
\<close>

definition plain_reg :: "u8 \<Rightarrow> bool" where
  "plain_reg r \<longleftrightarrow> r < 0x32 \<or> 0x37 < r \<and> r < 0x3A"

text \<open>The control registers the driver sets; others may be read-only.\<close>

definition control_reg :: "u8 \<Rightarrow> bool" where
  "control_reg r \<longleftrightarrow> r \<in> {0x2C, 0x2D, 0x31}"

lemma control_plain: "control_reg r \<Longrightarrow> plain_reg r"
  by (auto simp: control_reg_def plain_reg_def)

locale register_chip =
  fixes bw :: "'c write_fn"
    and bwr :: "'c write_read_fn"
    and inv :: "'c \<Rightarrow> bool"
    and reg :: "'c \<Rightarrow> u8 \<Rightarrow> u8"
    and clock :: "'c \<Rightarrow> 't"
    and tick :: "'t \<Rightarrow> 't"
    and signal :: "'t \<Rightarrow> u8 list"
  assumes read_reg: "inv c \<Longrightarrow> plain_reg r \<Longrightarrow>
      \<exists>c'. bwr c 0x53 (Some [Some r]) 1 (Some [x]) 1 = Some (I2C_OK, c', Some [Some (reg c r)]) \<and>
           inv c' \<and> reg c' = reg c \<and> clock c' = clock c"
    and write_reg: "inv c \<Longrightarrow> control_reg r \<Longrightarrow>
      \<exists>c'. bw c 0x53 (Some [Some r, Some v]) 2 = Some (I2C_OK, c') \<and>
           inv c' \<and> reg c' = (reg c)(r := v) \<and> clock c' = clock c"
    and read_burst: "inv c \<Longrightarrow> bit (reg c 0x2D) 3 \<Longrightarrow> length raw = 6 \<Longrightarrow>
      \<exists>c'. bwr c 0x53 (Some [Some 0x32]) 1 (Some raw) 6 =
             Some (I2C_OK, c', Some (map Some (signal (clock c)))) \<and>
           inv c' \<and> (\<forall>r. plain_reg r \<longrightarrow> reg c' r = reg c r) \<and> clock c' = tick (clock c)"
    and signal_length: "length (signal t) = 6"

end
