(* ===== verification/I2c_Stellaris.thy ===== *)
theory I2c_Stellaris
  imports Mmio I2c_Bus
begin

text \<open>
  The hardware I2C backend of \<open>firmware/i2c_stellaris.c\<close> over a memory-mapped device: the
  two bus methods, their initialisation, and the scripts of register stores by which they
  drive the master (start, bytes, stop), on success and on every error.
\<close>

section \<open>Registers\<close>

definition RCGC1 :: u32 where "RCGC1 = SYSCTL_BASE + 0x104"
definition RCGC2 :: u32 where "RCGC2 = SYSCTL_BASE + 0x108"
definition GPIOB_BASE :: u32 where [simp]: "GPIOB_BASE = 0x40005000"
definition GPIOB_AFSEL :: u32 where "GPIOB_AFSEL = GPIOB_BASE + 0x420"
definition GPIOB_ODR :: u32 where "GPIOB_ODR = GPIOB_BASE + 0x50C"
definition GPIOB_DEN :: u32 where "GPIOB_DEN = GPIOB_BASE + 0x51C"
definition I2C0_BASE :: u32 where [simp]: "I2C0_BASE = 0x40020000"
definition I2C_MSA :: u32 where "I2C_MSA = I2C0_BASE + 0x000"
definition I2C_MCS :: u32 where "I2C_MCS = I2C0_BASE + 0x004"
definition I2C_MDR :: u32 where "I2C_MDR = I2C0_BASE + 0x008"
definition I2C_MTPR :: u32 where "I2C_MTPR = I2C0_BASE + 0x00C"
definition I2C_MCR :: u32 where "I2C_MCR = I2C0_BASE + 0x020"

definition RCGC1_I2C0 :: u32 where "RCGC1_I2C0 = push_bit 12 1"
definition RCGC2_GPIOB :: u32 where "RCGC2_GPIOB = push_bit 1 1"
definition PB2 :: u32 where "PB2 = push_bit 2 1"
definition PB3 :: u32 where "PB3 = push_bit 3 1"

definition MCS_RUN :: u32 where "MCS_RUN = push_bit 0 1"
definition MCS_START :: u32 where "MCS_START = push_bit 1 1"
definition MCS_STOP :: u32 where "MCS_STOP = push_bit 2 1"
definition MCS_ACK :: u32 where "MCS_ACK = push_bit 3 1"
definition MCS_BUSY :: u32 where "MCS_BUSY = push_bit 0 1"
definition MCS_ERROR :: u32 where "MCS_ERROR = push_bit 1 1"
definition MCS_ADRACK :: u32 where "MCS_ADRACK = push_bit 2 1"
definition MCS_DATACK :: u32 where "MCS_DATACK = push_bit 3 1"
definition MCS_ARBLST :: u32 where "MCS_ARBLST = push_bit 4 1"
definition MSA_RECEIVE :: u32 where "MSA_RECEIVE = push_bit 0 1"
definition I2C_MCR_MFE :: u32 where "I2C_MCR_MFE = push_bit 4 1"

definition I2C_SYSCLK_HZ :: u32 where "I2C_SYSCLK_HZ = 12000000"
definition I2C_SCL_HZ :: u32 where "I2C_SCL_HZ = 100000"
definition I2C_TPR :: u32 where "I2C_TPR = I2C_SYSCLK_HZ div (20 * I2C_SCL_HZ) - 1"

section \<open>The backend\<close>

definition mcs_to_status :: "u32 \<Rightarrow> int" where
  "mcs_to_status status =
     (if status AND MCS_ARBLST \<noteq> 0 then I2C_ERR_BUS
      else if status AND (MCS_ERROR OR MCS_ADRACK OR MCS_DATACK) \<noteq> 0 then I2C_ERR_NACK
      else I2C_OK)"

definition i2c_wait :: "'d mmio \<Rightarrow> 'd \<Rightarrow> (int \<times> 'd) option" where
  "i2c_wait dev d = do {
     d \<leftarrow> spin dev I2C_MCS MCS_BUSY d;
     let (status, d) = load_reg dev d I2C_MCS;
     Some (mcs_to_status status, d)
   }"

text \<open>
  The methods act on the hardware and ignore \<open>ctx\<close>, which stays \<open>NULL\<close>; the model threads
  the state of the device through that place. The address is shifted as an \<open>int\<close>.
\<close>

definition bus_addr :: "u8 \<Rightarrow> u32" where
  "bus_addr addr = push_bit 1 (ucast addr) AND 0xFE"

function stellaris_write_loop ::
  "'d mmio \<Rightarrow> mem \<Rightarrow> nat \<Rightarrow> nat \<Rightarrow> 'd \<Rightarrow> (int \<times> 'd) option" where
  "stellaris_write_loop dev data i len d =
     (if i < len
      then do {
        let cmd = MCS_RUN;
        let cmd = (if i = 0 then cmd OR MCS_START else cmd);
        let cmd = (if i = len - 1 then cmd OR MCS_STOP else cmd);
        b \<leftarrow> rd data i;
        let d = store_reg dev d I2C_MDR (ucast b);
        let d = store_reg dev d I2C_MCS cmd;
        (st, d) \<leftarrow> i2c_wait dev d;
        if st \<noteq> I2C_OK then Some (st, store_reg dev d I2C_MCS MCS_STOP)
        else stellaris_write_loop dev data (Suc i) len d
      }
      else Some (I2C_OK, d))"
  by pat_completeness auto
termination
  by (relation "measure (\<lambda>(dev, data, i, len, d). len - i)") auto

definition stellaris_write :: "'d mmio \<Rightarrow> 'd write_fn" where
  "stellaris_write dev d addr data len =
     (case data of
        None \<Rightarrow> Some (I2C_ERR_PARAM, d)
      | Some p \<Rightarrow>
          if len = 0 then Some (I2C_ERR_PARAM, d)
          else stellaris_write_loop dev p 0 len (store_reg dev d I2C_MSA (bus_addr addr)))"

text \<open>The write phase of a combined transfer: as above, but no byte carries a stop.\<close>

function stellaris_point_loop ::
  "'d mmio \<Rightarrow> mem \<Rightarrow> nat \<Rightarrow> nat \<Rightarrow> 'd \<Rightarrow> (int \<times> 'd) option" where
  "stellaris_point_loop dev wdata i wlen d =
     (if i < wlen
      then do {
        let cmd = MCS_RUN;
        let cmd = (if i = 0 then cmd OR MCS_START else cmd);
        b \<leftarrow> rd wdata i;
        let d = store_reg dev d I2C_MDR (ucast b);
        let d = store_reg dev d I2C_MCS cmd;
        (st, d) \<leftarrow> i2c_wait dev d;
        if st \<noteq> I2C_OK then Some (st, store_reg dev d I2C_MCS MCS_STOP)
        else stellaris_point_loop dev wdata (Suc i) wlen d
      }
      else Some (I2C_OK, d))"
  by pat_completeness auto
termination
  by (relation "measure (\<lambda>(dev, wdata, i, wlen, d). wlen - i)") auto

function stellaris_read_loop ::
  "'d mmio \<Rightarrow> mem \<Rightarrow> nat \<Rightarrow> nat \<Rightarrow> 'd \<Rightarrow> (int \<times> 'd \<times> mem) option" where
  "stellaris_read_loop dev rdata i rlen d =
     (if i < rlen
      then do {
        let cmd = MCS_RUN;
        let cmd = (if i = 0 then cmd OR MCS_START else cmd);
        let cmd = (if i = rlen - 1 then cmd OR MCS_STOP else cmd OR MCS_ACK);
        let d = store_reg dev d I2C_MCS cmd;
        (st, d) \<leftarrow> i2c_wait dev d;
        if st \<noteq> I2C_OK then Some (st, store_reg dev d I2C_MCS MCS_STOP, rdata)
        else do {
          let (v, d) = load_reg dev d I2C_MDR;
          rdata \<leftarrow> wr rdata i (ucast (v AND 0xFF));
          stellaris_read_loop dev rdata (Suc i) rlen d
        }
      }
      else Some (I2C_OK, d, rdata))"
  by pat_completeness auto
termination
  by (relation "measure (\<lambda>(dev, rdata, i, rlen, d). rlen - i)") auto

declare stellaris_write_loop.simps [simp del] stellaris_point_loop.simps [simp del]
  stellaris_read_loop.simps [simp del]

definition stellaris_write_read :: "'d mmio \<Rightarrow> 'd write_read_fn" where
  "stellaris_write_read dev d addr wdata wlen rdata rlen =
     (if wdata = None \<or> wlen = 0 \<or> rdata = None \<or> rlen = 0
      then Some (I2C_ERR_PARAM, d, rdata)
      else do {
        w \<leftarrow> wdata;
        m \<leftarrow> rdata;
        let d = store_reg dev d I2C_MSA (bus_addr addr);
        (st, d) \<leftarrow> stellaris_point_loop dev w 0 wlen d;
        if st \<noteq> I2C_OK then Some (st, d, rdata)
        else do {
          let d = store_reg dev d I2C_MSA (bus_addr addr OR MSA_RECEIVE);
          (st, d, m) \<leftarrow> stellaris_read_loop dev m 0 rlen d;
          Some (st, d, Some m)
        }
      })"

definition i2c_stellaris_init ::
  "'d mmio \<Rightarrow> 'd \<Rightarrow> 'd i2c_bus option \<Rightarrow> 'd \<times> 'd i2c_bus option" where
  "i2c_stellaris_init dev d bus =
     (case bus of
        None \<Rightarrow> (d, None)
      | Some b \<Rightarrow>
          let d = or_reg dev RCGC1 RCGC1_I2C0 d;
              d = or_reg dev RCGC2 RCGC2_GPIOB d;
              d = snd (load_reg dev d RCGC2);
              d = or_reg dev GPIOB_AFSEL (PB2 OR PB3) d;
              d = or_reg dev GPIOB_ODR PB3 d;
              d = or_reg dev GPIOB_DEN (PB2 OR PB3) d;
              d = store_reg dev d I2C_MCR I2C_MCR_MFE;
              d = store_reg dev d I2C_MTPR I2C_TPR
          in (d, Some (b\<lparr>bus_write := Some (stellaris_write dev),
                         bus_write_read := Some (stellaris_write_read dev), ctx := d\<rparr>)))"

section \<open>The scripts\<close>

text \<open>
  What the data sheet asks for, in its own numbers. The address word: seven bits of address,
  and bit 0 set to receive. The command that goes with byte \<open>i\<close> of \<open>n\<close>: every byte runs
  (\<open>0x1\<close>), the first one starts (\<open>0x2\<close>); the last byte of a write stops (\<open>0x4\<close>), and a
  received byte is acknowledged (\<open>0x8\<close>) unless it is the last one, which stops.
\<close>

definition target :: "u8 \<Rightarrow> bool \<Rightarrow> u32" where
  "target addr receive = push_bit 1 (ucast (take_bit 7 addr)) OR (if receive then 1 else 0)"

definition start_cmd :: "nat \<Rightarrow> u32" where
  "start_cmd i = (if i = 0 then 0x3 else 0x1)"

definition write_cmd :: "nat \<Rightarrow> nat \<Rightarrow> u32" where
  "write_cmd n i = start_cmd i OR (if i = n - 1 then 0x4 else 0)"

definition read_cmd :: "nat \<Rightarrow> nat \<Rightarrow> u32" where
  "read_cmd n i = start_cmd i OR (if i = n - 1 then 0x4 else 0x8)"

text \<open>
  Waiting for a command: the status is loaded while its busy bit (bit 0) is set, and once more
  after it was seen clear; that last word \<open>s\<close> says how the command ended. Bit 4 is a lost
  arbitration, bits 1 to 3 are an error, an address and a data byte not acknowledged.
\<close>

definition polled :: "u32 \<Rightarrow> access list \<Rightarrow> bool" where
  "polled s w \<longleftrightarrow>
     (\<exists>vs v. w = map (Rd I2C_MCS) (vs @ [v, s]) \<and> (\<forall>u\<in>set vs. bit u 0) \<and> \<not> bit v 0)"

definition reported :: "u32 \<Rightarrow> int" where
  "reported s = (if bit s 4 then I2C_ERR_BUS else if bit s 1 \<or> bit s 2 \<or> bit s 3 then I2C_ERR_NACK else I2C_OK)"

text \<open>
  All accesses of a transmission from byte \<open>i\<close> on, and its status. A byte whose status word
  reports a failure is the last one; a stop follows it and the failure is the result.
\<close>

inductive tx_run :: "(nat \<Rightarrow> u32) \<Rightarrow> nat \<Rightarrow> u8 list \<Rightarrow> int \<Rightarrow> access list \<Rightarrow> bool" for cmd where
  tx_done: "tx_run cmd i [] I2C_OK []"
| tx_byte: "polled s w \<Longrightarrow> reported s = I2C_OK \<Longrightarrow> tx_run cmd (Suc i) bs st acc \<Longrightarrow>
    tx_run cmd i (b # bs) st ([Wr I2C_MDR (ucast b), Wr I2C_MCS (cmd i)] @ w @ acc)"
| tx_fail: "polled s w \<Longrightarrow> reported s = st \<Longrightarrow> st \<noteq> I2C_OK \<Longrightarrow>
    tx_run cmd i (b # bs) st ([Wr I2C_MDR (ucast b), Wr I2C_MCS (cmd i)] @ w @ [Wr I2C_MCS 0x4])"

text \<open>Of a reception, with the values loaded from the data register.\<close>

inductive rx_run :: "nat \<Rightarrow> nat \<Rightarrow> u32 list \<Rightarrow> int \<Rightarrow> access list \<Rightarrow> bool" for n where
  rx_done: "rx_run n n [] I2C_OK []"
| rx_byte: "i < n \<Longrightarrow> polled s w \<Longrightarrow> reported s = I2C_OK \<Longrightarrow> rx_run n (Suc i) vs st acc \<Longrightarrow>
    rx_run n i (v # vs) st ([Wr I2C_MCS (read_cmd n i)] @ w @ [Rd I2C_MDR v] @ acc)"
| rx_fail: "i < n \<Longrightarrow> polled s w \<Longrightarrow> reported s = st \<Longrightarrow> st \<noteq> I2C_OK \<Longrightarrow>
    rx_run n i [] st ([Wr I2C_MCS (read_cmd n i)] @ w @ [Wr I2C_MCS 0x4])"

definition low_byte :: "u32 \<Rightarrow> u8" where
  "low_byte v = ucast (v AND 0xFF)"

section \<open>The code's words are the data sheet's\<close>

lemma status_bits:
  "s AND 0x1 = 0 \<longleftrightarrow> \<not> bit s 0" "s AND 0x2 = 0 \<longleftrightarrow> \<not> bit s 1" "s AND 0x4 = 0 \<longleftrightarrow> \<not> bit s 2"
  "s AND 0x8 = 0 \<longleftrightarrow> \<not> bit s 3" "s AND 0x10 = 0 \<longleftrightarrow> \<not> bit s 4" for s :: u32
  using and_exp_eq_0_iff_not_bit [of s 0] and_exp_eq_0_iff_not_bit [of s 1]
    and_exp_eq_0_iff_not_bit [of s 2] and_exp_eq_0_iff_not_bit [of s 3]
    and_exp_eq_0_iff_not_bit [of s 4] by simp_all

lemma busy_bit: "s AND MCS_BUSY = 0 \<longleftrightarrow> \<not> bit s 0" for s :: u32
  using status_bits(1) [of s] by (simp add: MCS_BUSY_def)

lemma mcs_to_status_reported: "mcs_to_status s = reported s"
proof -
  have masks: "MCS_ARBLST = 0x10" "MCS_ERROR = 0x2" "MCS_ADRACK = 0x4" "MCS_DATACK = 0x8"
    by (simp_all add: MCS_ARBLST_def MCS_ERROR_def MCS_ADRACK_def MCS_DATACK_def)
  show ?thesis
    unfolding mcs_to_status_def reported_def masks bit.conj_disj_distrib or_eq_0_iff status_bits by simp
qed

lemma code_commands:
  "start_cmd i = (if i = 0 then MCS_RUN OR MCS_START else MCS_RUN)"
  "write_cmd n i = (if i = n - 1 then start_cmd i OR MCS_STOP else start_cmd i)"
  "read_cmd n i = (if i = n - 1 then start_cmd i OR MCS_STOP else start_cmd i OR MCS_ACK)"
  "MCS_STOP = 0x4"
  by (simp_all add: start_cmd_def write_cmd_def read_cmd_def MCS_RUN_def MCS_START_def MCS_STOP_def
      MCS_ACK_def)

lemma bus_addr_target:
  "bus_addr addr = target addr False" "target addr False OR MSA_RECEIVE = target addr True"
proof -
  have "(0xFE :: u32) = push_bit 1 (mask 7)" by (simp add: mask_numeral)
  then have "bus_addr addr = push_bit 1 (take_bit 7 (ucast addr))"
    by (simp only: bus_addr_def push_bit_and [symmetric] take_bit_eq_mask)
  then have "bus_addr addr = push_bit 1 (ucast (take_bit 7 addr))"
    by (simp only: unsigned_take_bit_eq)
  then show "bus_addr addr = target addr False" "target addr False OR MSA_RECEIVE = target addr True"
    by (simp_all add: target_def MSA_RECEIVE_def)
qed

text \<open>A master whose busy bit clears in the end, whatever is stored or loaded.\<close>

definition i2c_responsive :: "'d mmio \<Rightarrow> ('d \<Rightarrow> bool) \<Rightarrow> ('d \<Rightarrow> nat) \<Rightarrow> bool" where
  "i2c_responsive dev ok level \<longleftrightarrow>
     settles dev I2C_MCS MCS_BUSY ok level \<and>
     (\<forall>d a. ok d \<longrightarrow> ok (snd (load_reg dev d a))) \<and>
     (\<forall>d a v. ok d \<longrightarrow> ok (store_reg dev d a v))"

lemma wait_logged:
  assumes dev: "i2c_responsive dev ok level" and d: "ok d"
  shows "\<exists>d' s w. i2c_wait (logged UNIV dev) (d, l) = Some (reported s, d', l @ w) \<and> ok d' \<and> polled s w"
proof -
  have settle: "settles dev I2C_MCS MCS_BUSY ok level" using dev by (simp add: i2c_responsive_def)
  obtain d1 vs v where spin: "spin (logged UNIV dev) I2C_MCS MCS_BUSY (d, l) =
      Some (d1, l @ map (Rd I2C_MCS) (vs @ [v]))" "ok d1"
    "\<forall>u\<in>set vs. u AND MCS_BUSY \<noteq> 0" "v AND MCS_BUSY = 0"
    using spin_logged [OF settle UNIV_I d] by blast
  let ?s = "fst (load_reg dev d1 I2C_MCS)"
  have "polled ?s (map (Rd I2C_MCS) (vs @ [v, ?s]))"
    unfolding polled_def
    by (rule exI [of _ vs], rule exI [of _ v])
      (use spin(3,4) in \<open>simp add: busy_bit\<close>)
  moreover have "i2c_wait (logged UNIV dev) (d, l) = Some (reported ?s, snd (load_reg dev d1 I2C_MCS),
      l @ map (Rd I2C_MCS) (vs @ [v, ?s]))"
    using spin(1) by (simp add: i2c_wait_def mcs_to_status_reported)
  ultimately show ?thesis using dev spin(2) unfolding i2c_responsive_def by blast
qed

section \<open>The loops run the scripts\<close>

lemma write_loop_script:
  assumes "i2c_responsive dev ok level" and "ok d" and "i \<le> length ds"
  shows "\<exists>st d' acc.
    stellaris_write_loop (logged UNIV dev) (map Some ds @ r) i (length ds) (d, l) =
      Some (st, d', l @ acc) \<and> ok d' \<and> tx_run (write_cmd (length ds)) i (drop i ds) st acc"
  using assms(2,3)
proof (induction "length ds - i" arbitrary: i d l)
  case 0
  then show ?case
    by (intro exI [of _ I2C_OK] exI [of _ d] exI [of _ "[]"])
      (simp add: stellaris_write_loop.simps tx_done)
next
  case (Suc n)
  then have i: "i < length ds" by simp
  let ?b = "ds ! i" and ?cmd = "write_cmd (length ds) i"
  let ?d = "store_reg dev (store_reg dev d I2C_MDR (ucast ?b)) I2C_MCS ?cmd"
  let ?l = "l @ [Wr I2C_MDR (ucast ?b), Wr I2C_MCS ?cmd]"
  have "ok ?d" using assms(1) Suc.prems(1) by (simp add: i2c_responsive_def)
  then obtain d1 s w where w: "i2c_wait (logged UNIV dev) (?d, ?l) = Some (reported s, d1, ?l @ w)"
    and d1: "ok d1" and polled: "polled s w"
    using wait_logged [OF assms(1)] by blast
  have unfold: "stellaris_write_loop (logged UNIV dev) (map Some ds @ r) i (length ds) (d, l) =
      (if reported s \<noteq> I2C_OK
       then Some (reported s, store_reg dev d1 I2C_MCS 0x4, (?l @ w) @ [Wr I2C_MCS 0x4])
       else stellaris_write_loop (logged UNIV dev) (map Some ds @ r) (Suc i) (length ds) (d1, ?l @ w))"
    using i w by (subst stellaris_write_loop.simps)
      (auto simp: rd_map_Some Let_def code_commands)
  have split: "drop i ds = ?b # drop (Suc i) ds" using i by (simp add: Cons_nth_drop_Suc)
  show ?case
  proof (cases "reported s = I2C_OK")
    case True
    obtain st' d' acc where rest:
      "stellaris_write_loop (logged UNIV dev) (map Some ds @ r) (Suc i) (length ds) (d1, ?l @ w) =
        Some (st', d', (?l @ w) @ acc)" "ok d'"
      "tx_run (write_cmd (length ds)) (Suc i) (drop (Suc i) ds) st' acc"
      using Suc.hyps(1) [of "Suc i" d1 "?l @ w"] Suc.hyps(2) i d1 by force
    from tx_byte [OF polled True rest(3), of ?b] show ?thesis
      unfolding unfold split using True rest(1,2) by fastforce
  next
    case False
    from tx_fail [OF polled refl False, of "write_cmd (length ds)" i ?b "drop (Suc i) ds"] show ?thesis
      unfolding unfold split using False d1 assms(1) by (fastforce simp: i2c_responsive_def)
  qed
qed

lemma point_loop_script:
  assumes "i2c_responsive dev ok level" and "ok d" and "i \<le> length ds"
  shows "\<exists>st d' acc.
    stellaris_point_loop (logged UNIV dev) (map Some ds @ r) i (length ds) (d, l) =
      Some (st, d', l @ acc) \<and> ok d' \<and> tx_run start_cmd i (drop i ds) st acc"
  using assms(2,3)
proof (induction "length ds - i" arbitrary: i d l)
  case 0
  then show ?case
    by (intro exI [of _ I2C_OK] exI [of _ d] exI [of _ "[]"])
      (simp add: stellaris_point_loop.simps tx_done)
next
  case (Suc n)
  then have i: "i < length ds" by simp
  let ?b = "ds ! i" and ?cmd = "start_cmd i"
  let ?d = "store_reg dev (store_reg dev d I2C_MDR (ucast ?b)) I2C_MCS ?cmd"
  let ?l = "l @ [Wr I2C_MDR (ucast ?b), Wr I2C_MCS ?cmd]"
  have "ok ?d" using assms(1) Suc.prems(1) by (simp add: i2c_responsive_def)
  then obtain d1 s w where w: "i2c_wait (logged UNIV dev) (?d, ?l) = Some (reported s, d1, ?l @ w)"
    and d1: "ok d1" and polled: "polled s w"
    using wait_logged [OF assms(1)] by blast
  have unfold: "stellaris_point_loop (logged UNIV dev) (map Some ds @ r) i (length ds) (d, l) =
      (if reported s \<noteq> I2C_OK
       then Some (reported s, store_reg dev d1 I2C_MCS 0x4, (?l @ w) @ [Wr I2C_MCS 0x4])
       else stellaris_point_loop (logged UNIV dev) (map Some ds @ r) (Suc i) (length ds) (d1, ?l @ w))"
    using i w by (subst stellaris_point_loop.simps)
      (auto simp: rd_map_Some Let_def code_commands)
  have split: "drop i ds = ?b # drop (Suc i) ds" using i by (simp add: Cons_nth_drop_Suc)
  show ?case
  proof (cases "reported s = I2C_OK")
    case True
    obtain st' d' acc where rest:
      "stellaris_point_loop (logged UNIV dev) (map Some ds @ r) (Suc i) (length ds) (d1, ?l @ w) =
        Some (st', d', (?l @ w) @ acc)" "ok d'" "tx_run start_cmd (Suc i) (drop (Suc i) ds) st' acc"
      using Suc.hyps(1) [of "Suc i" d1 "?l @ w"] Suc.hyps(2) i d1 by force
    from tx_byte [OF polled True rest(3), of ?b] show ?thesis
      unfolding unfold split using True rest(1,2) by fastforce
  next
    case False
    from tx_fail [OF polled refl False, of start_cmd i ?b "drop (Suc i) ds"] show ?thesis
      unfolding unfold split using False d1 assms(1) by (fastforce simp: i2c_responsive_def)
  qed
qed

lemma read_loop_script:
  assumes "i2c_responsive dev ok level" and "ok d" and "length w + n \<le> length m"
  shows "\<exists>st d' acc vs.
    stellaris_read_loop (logged UNIV dev) (filled w m) (length w) (length w + n) (d, l) =
      Some (st, (d', l @ acc), filled (w @ map low_byte vs) m) \<and> ok d' \<and>
    rx_run (length w + n) (length w) vs st acc"
  using assms(2,3)
proof (induction n arbitrary: w d l)
  case 0
  then show ?case using rx_done [of "length w"]
    by (intro exI [of _ I2C_OK] exI [of _ d] exI [of _ "[]"]) (simp add: stellaris_read_loop.simps)
next
  case (Suc n)
  let ?i = "length w" and ?n = "length w + Suc n"
  let ?cmd = "read_cmd ?n ?i"
  let ?d = "store_reg dev d I2C_MCS ?cmd" and ?l = "l @ [Wr I2C_MCS ?cmd]"
  have "ok ?d" using assms(1) Suc.prems(1) by (simp add: i2c_responsive_def)
  then obtain d1 s p where wait: "i2c_wait (logged UNIV dev) (?d, ?l) = Some (reported s, d1, ?l @ p)"
    and d1: "ok d1" and polled: "polled s p"
    using wait_logged [OF assms(1)] by blast
  let ?v = "fst (load_reg dev d1 I2C_MDR)" and ?d2 = "snd (load_reg dev d1 I2C_MDR)"
  let ?l2 = "(?l @ p) @ [Rd I2C_MDR ?v]" and ?w = "w @ [low_byte ?v]"
  have put: "wr (filled w m) ?i (low_byte ?v) = Some (filled ?w m)"
    using Suc.prems(2) by (simp add: wr_filled)
  have unfold: "stellaris_read_loop (logged UNIV dev) (filled w m) ?i ?n (d, l) =
      (if reported s \<noteq> I2C_OK
       then Some (reported s, (store_reg dev d1 I2C_MCS 0x4, (?l @ p) @ [Wr I2C_MCS 0x4]), filled w m)
       else stellaris_read_loop (logged UNIV dev) (filled ?w m) (length ?w) (length ?w + n) (?d2, ?l2))"
    using wait put by (subst stellaris_read_loop.simps)
      (auto simp: Let_def code_commands low_byte_def)
  have i: "?i < ?n" by simp
  show ?case
  proof (cases "reported s = I2C_OK")
    case True
    have "ok ?d2" using assms(1) d1 by (simp add: i2c_responsive_def)
    then obtain st' d' acc vs where rest:
      "stellaris_read_loop (logged UNIV dev) (filled ?w m) (length ?w) (length ?w + n) (?d2, ?l2) =
        Some (st', (d', ?l2 @ acc), filled (?w @ map low_byte vs) m)"
      "ok d'" "rx_run (length ?w + n) (length ?w) vs st' acc"
      using Suc.IH [of ?d2 ?w ?l2] Suc.prems(2) by force
    have "rx_run ?n ?i (?v # vs) st' ([Wr I2C_MCS ?cmd] @ p @ [Rd I2C_MDR ?v] @ acc)"
      by (rule rx_byte [OF i polled True]) (use rest(3) in simp)
    then show ?thesis unfolding unfold using True rest(1,2)
      by (intro exI [of _ st'] exI [of _ d'] exI [of _ "[Wr I2C_MCS ?cmd] @ p @ [Rd I2C_MDR ?v] @ acc"]
          exI [of _ "?v # vs"]) simp
  next
    case False
    have "ok (store_reg dev d1 I2C_MCS 0x4)" using assms(1) d1 by (simp add: i2c_responsive_def)
    with rx_fail [OF i polled refl False] show ?thesis unfolding unfold using False
      by (intro exI [of _ "reported s"] exI [of _ "store_reg dev d1 I2C_MCS 0x4"]
          exI [of _ "[Wr I2C_MCS ?cmd] @ p @ [Wr I2C_MCS 0x4]"] exI [of _ "[]"]) simp
  qed
qed

section \<open>A device that behaves so\<close>

text \<open>A master that is busy for three polls after every command and acknowledges everything.\<close>

definition busy_dev :: "nat mmio" where
  "busy_dev =
     \<lparr>load_reg = \<lambda>n a. if a = I2C_MCS \<and> 0 < n then (MCS_BUSY, n - 1) else (0, n),
      store_reg = \<lambda>n a v. if a = I2C_MCS then 3 else n\<rparr>"

lemma busy_dev_responsive: "i2c_responsive busy_dev (\<lambda>_. True) id"
  by (simp add: i2c_responsive_def settles_def busy_dev_def)

text \<open>
  The same, but from some command on nothing is acknowledged; the second component counts
  down to it.
\<close>

definition refusing_dev :: "(nat \<times> nat) mmio" where
  "refusing_dev =
     \<lparr>load_reg = \<lambda>(n, k) a.
        if a = I2C_MCS \<and> 0 < n then (MCS_BUSY, (n - 1, k))
        else (if k = 0 then MCS_ERROR OR MCS_DATACK else 0, (n, k)),
      store_reg = \<lambda>(n, k) a v. if a = I2C_MCS then (3, k - 1) else (n, k)\<rparr>"

lemma refusing_dev_responsive: "i2c_responsive refusing_dev (\<lambda>_. True) fst"
  by (auto simp: i2c_responsive_def settles_def refusing_dev_def MCS_BUSY_def MCS_ERROR_def MCS_DATACK_def)

section \<open>Properties\<close>

text \<open>
  C33: a write transfer. On every master whose busy bit clears in the end, a write returns, and
  its register accesses, all of them, are these: the address word for a transmission; per
  byte the data, its command (start with the first byte, stop with the last), status loads
  until the busy bit is clear and one more. The transfer ends at the first byte whose last
  status word reports a lost arbitration, an error or a missing acknowledgement: a stop
  follows, and \<open>I2C_ERR_BUS\<close> or \<open>I2C_ERR_NACK\<close>, whichever that word reports, is returned;
  \<open>I2C_OK\<close> is returned when no byte's does.
\<close>

theorem stellaris_write_script:
  assumes "i2c_responsive dev ok level" and "ok d" and "ds \<noteq> []"
  shows "\<exists>st d' acc.
           stellaris_write (logged UNIV dev) (d, []) addr (Some (map Some ds @ r)) (length ds) =
             Some (st, d', Wr I2C_MSA (target addr False) # acc) \<and>
           tx_run (write_cmd (length ds)) 0 ds st acc"
proof -
  have "ok (store_reg dev d I2C_MSA (bus_addr addr))"
    using assms(1,2) by (simp add: i2c_responsive_def)
  from write_loop_script [OF assms(1) this, of 0 ds r "[Wr I2C_MSA (bus_addr addr)]"] show ?thesis
    using assms(3) by (auto simp: stellaris_write_def bus_addr_target)
qed

text \<open>On a master that refuses the second command of a transfer.\<close>

theorem stellaris_write_script_witness:
  "\<exists>st d' acc.
     stellaris_write (logged UNIV refusing_dev) ((0, 2), []) 0x53 (Some (map Some [0x2D, 0x08] @ []))
       (length [0x2D, 0x08 :: u8]) = Some (st, d', Wr I2C_MSA (target 0x53 False) # acc) \<and>
     tx_run (write_cmd (length [0x2D, 0x08 :: u8])) 0 [0x2D, 0x08] st acc"
  by (rule stellaris_write_script [OF refusing_dev_responsive]) simp_all

text \<open>
  C34: a combined transfer. On every such master it returns. Its accesses are the address word
  for a transmission and the pointer bytes, none with a stop; if one of them fails, a stop
  ends the transfer, the failure its last status word reports is returned and nothing was
  received. Otherwise the address word for a reception follows, and per byte one command (a
  repeated start with the first, an acknowledgement with all but the last, a stop with the
  last), the status loads and a load of the data register. Again the first byte whose status
  reports a failure ends the transfer with a stop and that failure; \<open>I2C_OK\<close> is returned when
  none does. The buffer holds the low bytes of the values loaded, and is otherwise unchanged.
\<close>

theorem stellaris_write_read_script:
  assumes "i2c_responsive dev ok level" and "ok d" and "ws \<noteq> []" and "0 < n" and "n \<le> length m"
  shows "\<exists>st d' acc vs.
           stellaris_write_read (logged UNIV dev) (d, []) addr (Some (map Some ws @ r)) (length ws)
             (Some m) n =
             Some (st, (d', Wr I2C_MSA (target addr False) # acc), Some (filled (map low_byte vs) m)) \<and>
           (st \<noteq> I2C_OK \<and> tx_run start_cmd 0 ws st acc \<and> vs = [] \<or>
            (\<exists>tx rx. acc = tx @ Wr I2C_MSA (target addr True) # rx \<and>
               tx_run start_cmd 0 ws I2C_OK tx \<and> rx_run n 0 vs st rx))"
proof -
  let ?log = "[Wr I2C_MSA (bus_addr addr)]"
  have "ok (store_reg dev d I2C_MSA (bus_addr addr))"
    using assms(1,2) by (simp add: i2c_responsive_def)
  from point_loop_script [OF assms(1) this, of 0 ws r ?log]
  obtain st1 d1 tx where p:
    "stellaris_point_loop (logged UNIV dev) (map Some ws @ r) 0 (length ws)
       (store_reg dev d I2C_MSA (bus_addr addr), ?log) = Some (st1, d1, ?log @ tx)"
    "ok d1" "tx_run start_cmd 0 ws st1 tx"
    by auto
  show ?thesis
  proof (cases "st1 = I2C_OK")
    case False
    then have "stellaris_write_read (logged UNIV dev) (d, []) addr (Some (map Some ws @ r))
        (length ws) (Some m) n = Some (st1, (d1, ?log @ tx), Some m)"
      using p(1) assms(3,4) by (simp add: stellaris_write_read_def)
    then show ?thesis using False p(3)
      by (intro exI [of _ st1] exI [of _ d1] exI [of _ tx] exI [of _ "[]"]) (simp add: bus_addr_target)
  next
    case True
    let ?recv = "Wr I2C_MSA (bus_addr addr OR MSA_RECEIVE)"
    have "ok (store_reg dev d1 I2C_MSA (bus_addr addr OR MSA_RECEIVE))"
      using assms(1) p(2) by (simp add: i2c_responsive_def)
    from read_loop_script [OF assms(1) this, of "[]" n m "(?log @ tx) @ [?recv]"] assms(5)
    obtain st2 d2 rx vs where q:
      "stellaris_read_loop (logged UNIV dev) m 0 n
         (store_reg dev d1 I2C_MSA (bus_addr addr OR MSA_RECEIVE), (?log @ tx) @ [?recv]) =
       Some (st2, (d2, ((?log @ tx) @ [?recv]) @ rx), filled (map low_byte vs) m)"
      "rx_run n 0 vs st2 rx"
      by auto
    have "stellaris_write_read (logged UNIV dev) (d, []) addr (Some (map Some ws @ r))
        (length ws) (Some m) n =
        Some (st2, (d2, ?log @ tx @ ?recv # rx), Some (filled (map low_byte vs) m))"
      using p(1) q(1) True assms(3,4) by (simp add: stellaris_write_read_def)
    then show ?thesis using q(2) p(3) True unfolding bus_addr_target
      by (intro exI [of _ st2] exI [of _ d2] exI [of _ "tx @ Wr I2C_MSA (target addr True) # rx"]
          exI [of _ vs]) (simp, blast)
  qed
qed

theorem stellaris_write_read_script_witness:
  "\<exists>st d' acc vs.
     stellaris_write_read (logged UNIV busy_dev) (0, []) 0x53 (Some (map Some [0x32] @ []))
       (length [0x32 :: u8]) (Some (replicate 6 None)) 6 =
       Some (st, (d', Wr I2C_MSA (target 0x53 False) # acc),
             Some (filled (map low_byte vs) (replicate 6 None))) \<and>
     (st \<noteq> I2C_OK \<and> tx_run start_cmd 0 [0x32] st acc \<and> vs = [] \<or>
      (\<exists>tx rx. acc = tx @ Wr I2C_MSA (target 0x53 True) # rx \<and>
         tx_run start_cmd 0 [0x32] I2C_OK tx \<and> rx_run 6 0 vs st rx))"
  by (rule stellaris_write_read_script [OF busy_dev_responsive]) simp_all

text \<open>
  Refused calls. A null pointer or a length of zero is answered with \<open>I2C_ERR_PARAM\<close>
  before the hardware is touched.
\<close>

lemma stellaris_refuses:
  "(data = None \<or> len = 0 \<longrightarrow> stellaris_write dev d addr data len = Some (I2C_ERR_PARAM, d)) \<and>
   (data = None \<or> len = 0 \<or> rdata = None \<or> rlen = 0 \<longrightarrow>
      stellaris_write_read dev d addr data len rdata rlen = Some (I2C_ERR_PARAM, d, rdata))"
  by (auto simp: stellaris_write_def stellaris_write_read_def split: option.split)

text \<open>
  C39: no timeout. On a master that stays busy, whatever is stored or loaded, neither kind of
  transfer ever returns: the wait for the first byte spins for ever, and no error status is
  reported.
\<close>

theorem stellaris_no_timeout:
  assumes "\<forall>d a. stuck d \<longrightarrow> stuck (snd (load_reg dev d a))"
    and "\<forall>d a v. stuck d \<longrightarrow> stuck (store_reg dev d a v)"
    and "\<forall>d. stuck d \<longrightarrow> fst (load_reg dev d I2C_MCS) AND MCS_BUSY \<noteq> 0"
    and "stuck d"
  shows "stellaris_write dev d addr (Some (Some b # p)) (Suc n) = None \<and>
         stellaris_write_read dev d addr (Some (Some b # p)) (Suc n) (Some m) (Suc k) = None"
proof -
  have spin: "spin dev I2C_MCS MCS_BUSY d = None" if "stuck d" for d
    by (rule spin_stuck [of stuck]) (use assms(1,3) that in blast)+
  have "stuck (store_reg dev (store_reg dev (store_reg dev d a1 v1) a2 v2) a3 v3)" for a1 v1 a2 v2 a3 v3
    using assms(2,4) by blast
  from spin [OF this] show ?thesis
    by (simp add: stellaris_write_def stellaris_write_read_def i2c_wait_def rd_def Let_def
        stellaris_write_loop.simps [of _ _ 0] stellaris_point_loop.simps [of _ _ 0])
qed

theorem stellaris_no_timeout_witness:
  "stellaris_write \<lparr>load_reg = \<lambda>d a. (1, d), store_reg = \<lambda>d a v. d\<rparr> () 0x53 (Some (Some 0 # [])) (Suc 0) =
     None \<and>
   stellaris_write_read \<lparr>load_reg = \<lambda>d a. (1, d), store_reg = \<lambda>d a v. d\<rparr> () 0x53
     (Some (Some 0 # [])) (Suc 0) (Some [None]) (Suc 0) = None"
  by (rule stellaris_no_timeout [where stuck = "\<lambda>_. True"]) (simp_all add: MCS_BUSY_def)

text \<open>
  Bringing up the master. On any device \<open>i2c_stellaris_init\<close> makes these stores in this
  order and no other: both clock gates, alternate function and digital enable of pins 2 and
  3, open drain on pin 3 only, the master enable \<open>0x10\<close>, the period for 100 kHz; and it
  binds both methods.
\<close>

lemma stellaris_configuration:
  "\<exists>c1 c2 af od de d' log.
     i2c_stellaris_init (logged {} dev) (d, []) (Some bus) =
       ((d', log),
        Some \<lparr>bus_write = Some (stellaris_write (logged {} dev)),
              bus_write_read = Some (stellaris_write_read (logged {} dev)), ctx = (d', log)\<rparr>) \<and>
     log = [Wr RCGC1 (c1 OR 0x1000), Wr RCGC2 (c2 OR 0x2), Wr GPIOB_AFSEL (af OR 0xC),
            Wr GPIOB_ODR (od OR 0x8), Wr GPIOB_DEN (de OR 0xC), Wr I2C_MCR 0x10, Wr I2C_MTPR 5]"
proof -
  obtain c1 d1 where r1: "or_reg (logged {} dev) RCGC1 RCGC1_I2C0 (d, []) = (d1, [Wr RCGC1 (c1 OR RCGC1_I2C0)])"
    using or_reg_logged [of dev RCGC1 RCGC1_I2C0 d "[]"] by auto
  obtain c2 d2 where r2: "or_reg (logged {} dev) RCGC2 RCGC2_GPIOB (d1, [Wr RCGC1 (c1 OR RCGC1_I2C0)]) =
      (d2, [Wr RCGC1 (c1 OR RCGC1_I2C0), Wr RCGC2 (c2 OR RCGC2_GPIOB)])" (is "_ = (_, ?l2)")
    using or_reg_logged [of dev RCGC2 RCGC2_GPIOB d1 "[Wr RCGC1 (c1 OR RCGC1_I2C0)]"] by auto
  let ?d2 = "snd (load_reg dev d2 RCGC2)"
  obtain af d3 where r3: "or_reg (logged {} dev) GPIOB_AFSEL (PB2 OR PB3) (?d2, ?l2) =
      (d3, ?l2 @ [Wr GPIOB_AFSEL (af OR (PB2 OR PB3))])" (is "_ = (_, ?l3)")
    using or_reg_logged [of dev GPIOB_AFSEL "PB2 OR PB3" ?d2 ?l2] by auto
  obtain od d4 where r4: "or_reg (logged {} dev) GPIOB_ODR PB3 (d3, ?l3) =
      (d4, ?l3 @ [Wr GPIOB_ODR (od OR PB3)])" (is "_ = (_, ?l4)")
    using or_reg_logged [of dev GPIOB_ODR PB3 d3 ?l3] by auto
  obtain de d5 where r5: "or_reg (logged {} dev) GPIOB_DEN (PB2 OR PB3) (d4, ?l4) =
      (d5, ?l4 @ [Wr GPIOB_DEN (de OR (PB2 OR PB3))])"
    using or_reg_logged [of dev GPIOB_DEN "PB2 OR PB3" d4 ?l4] by auto
  have vals: "RCGC1_I2C0 = 0x1000" "RCGC2_GPIOB = 0x2" "PB2 = 0x4" "PB3 = 0x8" "(0x4 :: u32) OR 0x8 = 0xC"
    "I2C_MCR_MFE = 0x10" "I2C_TPR = 5"
    by (simp_all add: RCGC1_I2C0_def RCGC2_GPIOB_def PB2_def PB3_def I2C_MCR_MFE_def I2C_TPR_def
        I2C_SYSCLK_HZ_def I2C_SCL_HZ_def)
  show ?thesis
    using r1 r2 r3 r4 r5 by (simp add: i2c_stellaris_init_def Let_def) (auto simp: vals)
qed

end
