(* ===== verification/I2c_Sim.thy ===== *)
theory I2c_Sim
  imports I2c_Bus
begin

text \<open>
  The simulated accelerometer of \<open>firmware/i2c_sim.c\<close>: a register file behind the bus
  methods, a pointer that advances on every access, and a sample generator.
\<close>

definition I2C_SIM_NREGS :: nat where [simp]: "I2C_SIM_NREGS = 0x3A"
definition SIM_ADDR :: u8 where "SIM_ADDR = 0x53"
definition SIM_REG_DEVID :: nat where [simp]: "SIM_REG_DEVID = 0x00"
definition SIM_REG_POWER_CTL :: nat where [simp]: "SIM_REG_POWER_CTL = 0x2D"
definition SIM_REG_DATAX0 :: nat where [simp]: "SIM_REG_DATAX0 = 0x32"
definition SIM_REG_DATAZ1 :: nat where [simp]: "SIM_REG_DATAZ1 = 0x37"
definition SIM_DEVID_VALUE :: u8 where "SIM_DEVID_VALUE = 0xE5"
definition SIM_POWER_CTL_MEASURE :: u8 where "SIM_POWER_CTL_MEASURE = 0x08"

record i2c_sim =
  sim_regs :: mem
  sim_ptr :: u8
  sim_phase :: u32

definition sim_next_ptr :: "u8 \<Rightarrow> u8" where
  "sim_next_ptr ptr = (let p = ptr + 1 in if unat p \<ge> I2C_SIM_NREGS then 0 else p)"

text \<open>The wobble table, a triangle wave of 16 entries.\<close>

definition wobble :: "i16 list" where
  "wobble = [0, 4, 8, 12, 16, 12, 8, 4, 0, -4, -8, -12, -16, -12, -8, -4]"

definition sim_refresh_sample :: "i2c_sim \<Rightarrow> i2c_sim option" where
  "sim_refresh_sample s = do {
     let x = wobble ! unat (sim_phase s AND 15);
     let y = wobble ! unat ((sim_phase s + 4) AND 15);
     let z = 256;
     m \<leftarrow> put_le16 (sim_regs s) (SIM_REG_DATAX0 + 0) x;
     m \<leftarrow> put_le16 m (SIM_REG_DATAX0 + 2) y;
     m \<leftarrow> put_le16 m (SIM_REG_DATAX0 + 4) z;
     Some (s\<lparr>sim_regs := m, sim_phase := sim_phase s + 1\<rparr>)
   }"

text \<open>The sum is taken in \<open>uint32_t\<close>, as in the code.\<close>

definition sim_touches_data :: "u8 \<Rightarrow> nat \<Rightarrow> bool" where
  "sim_touches_data ptr rlen \<longleftrightarrow>
     unat ptr \<le> SIM_REG_DATAZ1 \<and> (ucast ptr :: u32) + of_nat rlen > of_nat SIM_REG_DATAX0"

text \<open>The register writes behind the pointer byte, from index \<open>i\<close> on.\<close>

function sim_write_loop :: "mem \<Rightarrow> nat \<Rightarrow> nat \<Rightarrow> i2c_sim \<Rightarrow> i2c_sim option" where
  "sim_write_loop data i len s =
     (if i < len
      then do {
        b \<leftarrow> rd data i;
        m \<leftarrow> wr (sim_regs s) (unat (sim_ptr s)) b;
        sim_write_loop data (Suc i) len (s\<lparr>sim_regs := m, sim_ptr := sim_next_ptr (sim_ptr s)\<rparr>)
      }
      else Some s)"
  by pat_completeness auto
termination
  by (relation "measure (\<lambda>(data, i, len, s). len - i)") auto

declare sim_write_loop.simps [simp del]

definition sim_write :: "i2c_sim option write_fn" where
  "sim_write c addr data len =
     (case c of
        None \<Rightarrow> Some (I2C_ERR_PARAM, c)
      | Some s \<Rightarrow>
          if addr \<noteq> SIM_ADDR then Some (I2C_ERR_NACK, c)
          else if len = 0 then Some (I2C_OK, c)
          else (case data of
                  None \<Rightarrow> Some (I2C_ERR_PARAM, c)
                | Some d \<Rightarrow> do {
                    b \<leftarrow> rd d 0;
                    s \<leftarrow> sim_write_loop d 1 len (s\<lparr>sim_ptr := b\<rparr>);
                    Some (I2C_OK, Some s)
                  }))"

text \<open>The read phase: the receive buffer and the pointer afterwards.\<close>

function sim_read_loop :: "mem \<Rightarrow> nat \<Rightarrow> nat \<Rightarrow> i2c_sim \<Rightarrow> (mem \<times> i2c_sim) option" where
  "sim_read_loop rdata i rlen s =
     (if i < rlen
      then do {
        b \<leftarrow> rd (sim_regs s) (unat (sim_ptr s));
        rdata \<leftarrow> wr rdata i b;
        sim_read_loop rdata (Suc i) rlen (s\<lparr>sim_ptr := sim_next_ptr (sim_ptr s)\<rparr>)
      }
      else Some (rdata, s))"
  by pat_completeness auto
termination
  by (relation "measure (\<lambda>(rdata, i, rlen, s). rlen - i)") auto

declare sim_read_loop.simps [simp del]

definition sim_write_read :: "i2c_sim option write_read_fn" where
  "sim_write_read c addr wdata wlen rdata rlen =
     (case c of
        None \<Rightarrow> Some (I2C_ERR_PARAM, c, rdata)
      | Some s \<Rightarrow>
          if addr \<noteq> SIM_ADDR then Some (I2C_ERR_NACK, c, rdata)
          else if wlen > 0 \<and> wdata = None \<or> rlen > 0 \<and> rdata = None
          then Some (I2C_ERR_PARAM, c, rdata)
          else do {
            s \<leftarrow> (if wlen > 0
                  then do {
                    d \<leftarrow> wdata;
                    b \<leftarrow> rd d 0;
                    sim_write_loop d 1 wlen (s\<lparr>sim_ptr := b\<rparr>)
                  }
                  else Some s);
            s \<leftarrow> (if rlen > 0 \<and> sim_touches_data (sim_ptr s) rlen
                  then do {
                    p \<leftarrow> rd (sim_regs s) SIM_REG_POWER_CTL;
                    if p AND SIM_POWER_CTL_MEASURE \<noteq> 0 then sim_refresh_sample s else Some s
                  }
                  else Some s);
            if rlen > 0
            then do {
              m \<leftarrow> rdata;
              (m, s) \<leftarrow> sim_read_loop m 0 rlen s;
              Some (I2C_OK, Some s, Some m)
            }
            else Some (I2C_OK, Some s, rdata)
          })"

text \<open>The initialisation loop stores a zero in every register.\<close>

function sim_zero_loop :: "mem \<Rightarrow> nat \<Rightarrow> mem option" where
  "sim_zero_loop m i =
     (if i < I2C_SIM_NREGS then do { m \<leftarrow> wr m i 0; sim_zero_loop m (Suc i) } else Some m)"
  by pat_completeness auto
termination
  by (relation "measure (\<lambda>(m, i). 0x3A - i)") auto

declare sim_zero_loop.simps [simp del]

definition i2c_sim_init :: "i2c_sim option \<Rightarrow> i2c_sim option option" where
  "i2c_sim_init sim =
     (case sim of
        None \<Rightarrow> Some None
      | Some s \<Rightarrow> do {
          m \<leftarrow> sim_zero_loop (sim_regs s) 0;
          m \<leftarrow> wr m SIM_REG_DEVID SIM_DEVID_VALUE;
          Some (Some (s\<lparr>sim_regs := m, sim_ptr := 0, sim_phase := 0\<rparr>))
        })"

definition i2c_sim_bind ::
  "i2c_sim option i2c_bus option \<Rightarrow> i2c_sim option \<Rightarrow> i2c_sim option i2c_bus option" where
  "i2c_sim_bind bus sim =
     map_option (\<lambda>b. b\<lparr>bus_write := Some sim_write, bus_write_read := Some sim_write_read,
                        ctx := sim\<rparr>) bus"

section \<open>A simulator in good order\<close>

definition sim_ok :: "i2c_sim \<Rightarrow> bool" where
  "sim_ok s \<longleftrightarrow> length (sim_regs s) = 58 \<and> list_all (\<lambda>c. c \<noteq> None) (sim_regs s)"

definition regs_of :: "i2c_sim \<Rightarrow> u8 list" where
  "regs_of s = map the (sim_regs s)"

lemma sim_ok_regs: "sim_ok s \<Longrightarrow> sim_regs s = map Some (regs_of s)"
  by (auto simp: sim_ok_def regs_of_def list_all_iff intro!: nth_equalityI)

lemma length_regs_of [simp]: "sim_ok s \<Longrightarrow> length (regs_of s) = 58"
  by (simp add: sim_ok_def regs_of_def)

lemma sim_okI: "sim_regs s = map Some R \<Longrightarrow> length R = 58 \<Longrightarrow> sim_ok s"
  by (simp add: sim_ok_def list_all_iff)

lemma regs_ofI: "sim_regs s = map Some R \<Longrightarrow> regs_of s = R"
  by (simp add: regs_of_def comp_def)

lemma next_ptr: "unat p < 58 \<Longrightarrow> unat (sim_next_ptr p) = (unat p + 1) mod 58"
proof -
  assume p: "unat p < 58"
  then have "unat (p + 1) = Suc (unat p)" by (simp add: unat_word_ariths)
  with p show ?thesis by (cases "unat p = 57") (simp_all add: sim_next_ptr_def Let_def)
qed

text \<open>What a read starting at register \<open>p\<close> streams, wrapping after the last register.\<close>

primrec reg_stream :: "u8 list \<Rightarrow> nat \<Rightarrow> nat \<Rightarrow> u8 list" where
  "reg_stream R p 0 = []"
| "reg_stream R p (Suc n) = R ! p # reg_stream R ((p + 1) mod 58) n"

lemma length_reg_stream [simp]: "length (reg_stream R p n) = n"
  by (induction n arbitrary: p) auto

lemma nth_reg_stream: "p < 58 \<Longrightarrow> k < n \<Longrightarrow> reg_stream R p n ! k = R ! ((p + k) mod 58)"
  by (induction n arbitrary: p k) (auto simp: nth_Cons mod_add_left_eq split: nat.split)

lemma sim_read_loop_run:
  assumes "sim_regs s = map Some R" and "length R = 58" and "unat (sim_ptr s) < 58"
    and "length w + n \<le> length m"
  shows "\<exists>q. sim_read_loop (filled w m) (length w) (length w + n) s =
               Some (filled (w @ reg_stream R (unat (sim_ptr s)) n) m, s\<lparr>sim_ptr := q\<rparr>) \<and>
             unat q < 58"
  using assms
proof (induction n arbitrary: w s)
  case 0
  then show ?case by (intro exI [of _ "sim_ptr s"]) (simp add: sim_read_loop.simps)
next
  case (Suc n)
  let ?p = "unat (sim_ptr s)"
  let ?s = "s\<lparr>sim_ptr := sim_next_ptr (sim_ptr s)\<rparr>"
  have r: "rd (sim_regs s) ?p = Some (R ! ?p)"
    using Suc.prems by (simp add: rd_def)
  have w: "wr (filled w m) (length w) (R ! ?p) = Some (filled (w @ [R ! ?p]) m)"
    using Suc.prems by (simp add: wr_filled)
  have "sim_read_loop (filled w m) (length w) (length w + Suc n) s =
        sim_read_loop (filled (w @ [R ! ?p]) m) (length (w @ [R ! ?p])) (length (w @ [R ! ?p]) + n) ?s"
    by (subst sim_read_loop.simps) (simp add: r w)
  moreover have "\<exists>q. sim_read_loop (filled (w @ [R ! ?p]) m) (length (w @ [R ! ?p]))
      (length (w @ [R ! ?p]) + n) ?s =
      Some (filled ((w @ [R ! ?p]) @ reg_stream R (unat (sim_ptr ?s)) n) m, ?s\<lparr>sim_ptr := q\<rparr>) \<and>
      unat q < 58"
    by (rule Suc.IH) (use Suc.prems in \<open>auto simp: next_ptr\<close>)
  ultimately show ?case using Suc.prems by (simp add: next_ptr)
qed

text \<open>The read phase as a whole.\<close>

lemma sim_read_loop_all:
  assumes "sim_ok s" and "unat (sim_ptr s) < 58" and "n \<le> length m"
  shows "\<exists>q. sim_read_loop m 0 n s =
               Some (filled (reg_stream (regs_of s) (unat (sim_ptr s)) n) m, s\<lparr>sim_ptr := q\<rparr>) \<and>
             unat q < 58"
  using sim_read_loop_run [OF sim_ok_regs [OF assms(1)] _ assms(2), of "[]" n m] assms(1,3)
  by simp

subsection \<open>Writes\<close>

primrec reg_writes :: "u8 list \<Rightarrow> nat \<Rightarrow> u8 list \<Rightarrow> u8 list" where
  "reg_writes R p [] = R"
| "reg_writes R p (d # ds) = reg_writes (R[p := d]) ((p + 1) mod 58) ds"

lemma length_reg_writes [simp]: "length (reg_writes R p ds) = length R"
  by (induction ds arbitrary: R p) auto

lemma sim_write_loop_run:
  assumes "sim_regs s = map Some R" and "length R = 58" and "unat (sim_ptr s) < 58"
    and "i \<le> length ds"
  shows "\<exists>q. sim_write_loop (map Some ds @ r) i (length ds) s =
               Some (s\<lparr>sim_regs := map Some (reg_writes R (unat (sim_ptr s)) (drop i ds)),
                       sim_ptr := q\<rparr>) \<and>
             unat q = (unat (sim_ptr s) + (length ds - i)) mod 58"
  using assms
proof (induction "length ds - i" arbitrary: i s R)
  case 0
  then show ?case
    by (intro exI [of _ "sim_ptr s"]) (simp add: sim_write_loop.simps)
next
  case (Suc k)
  then have i: "i < length ds" by simp
  let ?p = "unat (sim_ptr s)"
  let ?s = "s\<lparr>sim_regs := map Some (R[?p := ds ! i]), sim_ptr := sim_next_ptr (sim_ptr s)\<rparr>"
  have "wr (sim_regs s) ?p (ds ! i) = Some (map Some (R[?p := ds ! i]))"
    using Suc.prems by (simp add: wr_def map_update)
  then have "sim_write_loop (map Some ds @ r) i (length ds) s =
        sim_write_loop (map Some ds @ r) (Suc i) (length ds) ?s"
    using i by (subst sim_write_loop.simps) (simp add: rd_map_Some)
  moreover have "\<exists>q. sim_write_loop (map Some ds @ r) (Suc i) (length ds) ?s =
      Some (?s\<lparr>sim_regs := map Some (reg_writes (R[?p := ds ! i]) (unat (sim_ptr ?s)) (drop (Suc i) ds)),
               sim_ptr := q\<rparr>) \<and>
      unat q = (unat (sim_ptr ?s) + (length ds - Suc i)) mod 58"
    by (rule Suc.hyps(1)) (use Suc.hyps(2) Suc.prems i in \<open>auto simp: next_ptr\<close>)
  moreover have "drop i ds = ds ! i # drop (Suc i) ds" using i by (simp add: Cons_nth_drop_Suc)
  moreover have "(unat (sim_ptr ?s) + (length ds - Suc i)) mod 58 = (?p + (length ds - i)) mod 58"
  proof -
    have "(Suc ?p mod 58 + (length ds - Suc i)) mod 58 = (Suc ?p + (length ds - Suc i)) mod 58"
      by (rule mod_add_left_eq)
    also have "Suc ?p + (length ds - Suc i) = ?p + (length ds - i)" using i by simp
    finally show ?thesis using Suc.prems(3) by (simp add: next_ptr)
  qed
  ultimately show ?case using Suc.prems by (simp add: next_ptr)
qed

section \<open>Samples\<close>

text \<open>The six bytes a sample puts into the data registers.\<close>

definition sample_bytes :: "u32 \<Rightarrow> u8 list" where
  "sample_bytes ph =
     le16 (wobble ! unat (ph AND 15)) @ le16 (wobble ! unat ((ph + 4) AND 15)) @ le16 256"

definition with_sample :: "u8 list \<Rightarrow> u32 \<Rightarrow> u8 list" where
  "with_sample R ph = take 50 R @ sample_bytes ph @ drop 56 R"

lemma length_sample_bytes [simp]: "length (sample_bytes ph) = 6"
  by (simp add: sample_bytes_def)

lemma length_with_sample [simp]: "length R = 58 \<Longrightarrow> length (with_sample R ph) = 58"
  by (simp add: with_sample_def)

lemma put_le16_update:
  "off + 1 < length m \<Longrightarrow>
   put_le16 m off w = Some (m[off := Some (byte_at w 0), off + 1 := Some (byte_at w 8)])"
  by (simp add: put_le16_def wr_def)

lemma six_updates:
  assumes "length R = 58"
  shows "R[50 := a, 51 := b, 52 := c, 53 := d, 54 := e, 55 := f] =
         take 50 R @ [a, b, c, d, e, f] @ drop 56 R"
proof -
  have "drop 50 R = [R!50, R!51, R!52, R!53, R!54, R!55] @ drop 56 R"
    using assms by (simp add: Cons_nth_drop_Suc [symmetric])
  then have R: "R = take 50 R @ [R!50, R!51, R!52, R!53, R!54, R!55] @ drop 56 R"
    by (metis append_take_drop_id)
  show ?thesis by (subst R) (simp add: list_update_append assms)
qed

lemma refresh_run:
  assumes "sim_ok s"
  shows "sim_refresh_sample s =
         Some (s\<lparr>sim_regs := map Some (with_sample (regs_of s) (sim_phase s)),
                 sim_phase := sim_phase s + 1\<rparr>)"
proof -
  have len: "length (map Some (regs_of s)) = 58" using assms by simp
  show ?thesis
    unfolding sim_refresh_sample_def sim_ok_regs [OF assms]
    using len six_updates [of "regs_of s"] assms
    by (simp add: put_le16_update with_sample_def sample_bytes_def le16_def Let_def
        flip: map_update)
qed

lemma refresh_ok:
  assumes "sim_ok s" and "sim_refresh_sample s = Some s'"
  shows "sim_ok s'" "regs_of s' = with_sample (regs_of s) (sim_phase s)" "sim_ptr s' = sim_ptr s"
    "sim_phase s' = sim_phase s + 1"
  using assms by (auto simp: refresh_run intro: sim_okI regs_ofI)

lemma with_sample_other: "length R = 58 \<Longrightarrow> i < 50 \<or> 56 \<le> i \<Longrightarrow> i < 58 \<Longrightarrow> with_sample R ph ! i = R ! i"
  by (auto simp: with_sample_def nth_append)

lemma and_15_period: "(a + 16) AND 15 = a AND 15" for a :: u32
proof -
  have m: "(15 :: u32) = mask 4" by (simp add: mask_numeral)
  have "unat (a + 16) mod 16 = (unat a + 16) mod 4294967296 mod 16"
    by (simp add: unat_word_ariths)
  also have "\<dots> = unat a mod 16" by (simp add: mod_mod_cancel)
  finally have "unat (take_bit 4 (a + 16)) = unat (take_bit 4 a)"
    by (simp only: unsigned_take_bit_eq) (simp add: take_bit_eq_mod)
  then show ?thesis by (simp only: m word_unat_eq_iff flip: take_bit_eq_mask)
qed

lemma sample_period: "sample_bytes (ph + 16) = sample_bytes ph"
proof -
  have "ph + 16 + 4 = (ph + 4) + 16" by simp
  then show ?thesis unfolding sample_bytes_def by (simp only: and_15_period)
qed

lemma burst_stream: "length R = 58 \<Longrightarrow> reg_stream (with_sample R ph) 50 6 = sample_bytes ph"
  by (rule nth_equalityI) (auto simp: nth_reg_stream with_sample_def nth_append)

section \<open>The methods\<close>

lemma and_8: "p AND 0x08 \<noteq> 0 \<longleftrightarrow> bit p 3" for p :: u8
proof -
  have "(0x08 :: u8) = 2 ^ 3" by simp
  then show ?thesis by (simp only: and_exp_eq_0_iff_not_bit not_not)
qed

text \<open>
  The simulator after the write phase of a transfer, and after the sample that a read of
  \<open>n\<close> bytes may trigger.
\<close>

definition after_writes :: "i2c_sim \<Rightarrow> u8 \<Rightarrow> u8 list \<Rightarrow> i2c_sim" where
  "after_writes s b ds =
     s\<lparr>sim_regs := map Some (reg_writes (regs_of s) (unat b) ds),
       sim_ptr := of_nat ((unat b + length ds) mod 58)\<rparr>"

definition after_sample :: "i2c_sim \<Rightarrow> nat \<Rightarrow> i2c_sim" where
  "after_sample s n =
     (if n > 0 \<and> sim_touches_data (sim_ptr s) n \<and> bit (regs_of s ! 0x2D) 3
      then s\<lparr>sim_regs := map Some (with_sample (regs_of s) (sim_phase s)),
             sim_phase := sim_phase s + 1\<rparr>
      else s)"

lemma rd_Cons_0 [simp]: "rd (Some b # m) 0 = Some b"
  by (simp add: rd_def)

lemma write_phase:
  assumes "sim_ok s" and "unat b < 58"
  shows "sim_write_loop (Some b # map Some ds @ r) (Suc 0) (Suc (length ds)) (s\<lparr>sim_ptr := b\<rparr>) =
         Some (after_writes s b ds)"
proof -
  obtain q where q: "sim_write_loop (map Some (b # ds) @ r) 1 (length (b # ds)) (s\<lparr>sim_ptr := b\<rparr>) =
      Some (s\<lparr>sim_regs := map Some (reg_writes (regs_of s) (unat b) ds), sim_ptr := q\<rparr>)"
    "unat q = (unat b + length ds) mod 58"
    using sim_write_loop_run [of "s\<lparr>sim_ptr := b\<rparr>" "regs_of s" 1 "b # ds" r] assms
    by (auto simp: sim_ok_regs)
  have "q = of_nat ((unat b + length ds) mod 58)" 
    by (subst q(2) [symmetric]) simp
  then show ?thesis using q(1) by (simp add: after_writes_def)
qed

lemma after_writes_ok:
  assumes "sim_ok s"
  shows "sim_ok (after_writes s b ds)"
    "regs_of (after_writes s b ds) = reg_writes (regs_of s) (unat b) ds"
    "unat (sim_ptr (after_writes s b ds)) = (unat b + length ds) mod 58"
    "sim_phase (after_writes s b ds) = sim_phase s"
proof -
  have "(unat b + length ds) mod 58 < 256" by (rule less_trans [of _ 58]) simp_all
  then show "unat (sim_ptr (after_writes s b ds)) = (unat b + length ds) mod 58"
    by (simp add: after_writes_def unat_of_nat)
qed (use assms in \<open>auto simp: after_writes_def intro!: sim_okI regs_ofI\<close>)

lemma after_sample_ok:
  assumes "sim_ok s"
  shows "sim_ok (after_sample s n)" "sim_ptr (after_sample s n) = sim_ptr s"
  using assms by (auto simp: after_sample_def intro: sim_okI)

lemma sim_write_run:
  assumes "sim_ok s" and "unat b < 58"
  shows "sim_write (Some s) SIM_ADDR (Some (map Some (b # ds) @ r)) (Suc (length ds)) =
         Some (I2C_OK, Some (after_writes s b ds))"
  using write_phase [OF assms, of ds r] by (simp add: sim_write_def)

lemma sim_write_read_run:
  fixes ds :: "u8 list"
  assumes s: "sim_ok s" and b: "unat b < 58" and n: "n \<le> length m"
  defines "s2 \<equiv> after_sample (after_writes s b ds) n"
  shows "\<exists>q. sim_write_read (Some s) SIM_ADDR (Some (map Some (b # ds) @ r)) (Suc (length ds))
               (Some m) n =
             Some (I2C_OK, Some (s2\<lparr>sim_ptr := q\<rparr>),
                   Some (filled (reg_stream (regs_of s2) ((unat b + length ds) mod 58) n) m))"
proof -
  let ?s1 = "after_writes s b ds"
  have ok1: "sim_ok ?s1" and ok2: "sim_ok s2"
    using after_writes_ok [OF s] after_sample_ok by (simp_all add: s2_def)
  note wp = write_phase [OF s b, of ds r]
  show ?thesis
  proof (cases "n = 0")
    case True
    then have "s2 = ?s1" by (simp add: s2_def after_sample_def)
    then show ?thesis using wp True
      by (intro exI [of _ "sim_ptr ?s1"]) (simp add: sim_write_read_def)
  next
    case False
    then have n0: "n > 0" by simp
    have ptr2: "unat (sim_ptr s2) = (unat b + length ds) mod 58"
      using after_writes_ok [OF s, of b ds] after_sample_ok [OF ok1, of n] by (simp add: s2_def)
    obtain q where "sim_read_loop m 0 n s2 =
        Some (filled (reg_stream (regs_of s2) (unat (sim_ptr s2)) n) m, s2\<lparr>sim_ptr := q\<rparr>)"
      using sim_read_loop_all [OF ok2 _ n] ptr2 by auto
    moreover have "rd (sim_regs ?s1) 0x2D = Some (regs_of ?s1 ! 0x2D)"
      using ok1 by (simp add: rd_def sim_ok_regs)
    ultimately show ?thesis using wp n0 ptr2 refresh_run [OF ok1]
      by (intro exI [of _ q], cases "sim_touches_data (sim_ptr ?s1) n";
          cases "bit (regs_of ?s1 ! 0x2D) 3")
        (simp_all add: sim_write_read_def s2_def after_sample_def SIM_POWER_CTL_MEASURE_def and_8)
  qed
qed

lemma touches_data_iff:
  assumes "n < 2147483648"
  shows "sim_touches_data p n \<longleftrightarrow> unat p \<le> 55 \<and> 50 < unat p + n"
proof -
  have "unat p < 2 ^ LENGTH(8)" by (rule unsigned_less)
  then have p: "unat p < 256" by simp
  have "unat ((ucast p :: u32) + of_nat n) = unat p + n"
    using assms p by (simp add: unat_word_ariths unat_of_nat unsigned_ucast_eq take_bit_nat_eq_self)
  then show ?thesis by (simp add: sim_touches_data_def word_less_nat_alt)
qed

lemma zero_loop_run:
  "i \<le> 58 \<Longrightarrow> 58 \<le> length m \<Longrightarrow>
   sim_zero_loop (filled (replicate i 0) m) i = Some (filled (replicate 58 0) m)"
proof (induction "58 - i" arbitrary: i)
  case 0
  then show ?case by (simp add: sim_zero_loop.simps)
next
  case (Suc k)
  have i: "i < 58" using Suc.hyps(2) by simp
  have "sim_zero_loop (filled (replicate i 0) m) i = sim_zero_loop (filled (replicate (Suc i) 0) m) (Suc i)"
    using Suc.prems i
    by (subst sim_zero_loop.simps) (simp add: wr_filled flip: replicate_append_same)
  also have "\<dots> = Some (filled (replicate 58 0) m)"
    by (rule Suc.hyps(1)) (use Suc.prems Suc.hyps(2) in auto)
  finally show ?case .
qed

text \<open>The power-on register file: zero everywhere, but for the identity.\<close>

definition power_on :: i2c_sim where
  "power_on = \<lparr>sim_regs = map Some (0xE5 # replicate 57 0), sim_ptr = 0, sim_phase = 0\<rparr>"

lemma i2c_sim_init_run:
  assumes "length (sim_regs s) = 58"
  shows "i2c_sim_init (Some s) = Some (Some power_on)"
proof -
  have "sim_zero_loop (sim_regs s) 0 = Some (filled (replicate 58 0) (sim_regs s))"
    using zero_loop_run [of 0 "sim_regs s"] assms by simp
  moreover have "filled (replicate 58 0) (sim_regs s) = Some 0 # map Some (replicate 57 0)"
    using assms by (simp add: filled_def numeral_eq_Suc)
  ultimately show ?thesis
    by (simp add: i2c_sim_init_def power_on_def wr_def SIM_DEVID_VALUE_def)
qed

lemma power_on_ok: "sim_ok power_on" "regs_of power_on = 0xE5 # replicate 57 0"
proof -
  have r: "sim_regs power_on = map Some (0xE5 # replicate 57 0)" by (simp add: power_on_def)
  show "sim_ok power_on" by (rule sim_okI [OF r]) simp
  show "regs_of power_on = 0xE5 # replicate 57 0" by (rule regs_ofI [OF r])
qed

text \<open>
  The pointer byte is not clamped: a transfer that starts at a register behind the last one
  and touches it leaves the register file.
\<close>

lemma bad_pointer_faults:
  assumes "length (sim_regs s) = 58" and "58 \<le> unat b" and "n > 0"
  shows "sim_write (Some s) SIM_ADDR (Some (map Some (b # d # ds) @ r)) (Suc (Suc (length ds))) = None"
    and "sim_write_read (Some s) SIM_ADDR (Some [Some b]) 1 (Some m) n = None"
proof -
  have out: "\<not> unat b < length (sim_regs s)" using assms by simp
  have "sim_write_loop (Some b # Some d # map Some ds @ r) (Suc 0) (Suc (Suc (length ds)))
      (s\<lparr>sim_ptr := b\<rparr>) = None"
    using out by (subst sim_write_loop.simps) (simp add: rd_def wr_def)
  then show "sim_write (Some s) SIM_ADDR (Some (map Some (b # d # ds) @ r)) (Suc (Suc (length ds))) = None"
    by (simp add: sim_write_def)
  have "sim_write_loop [Some b] (Suc 0) (Suc 0) (s\<lparr>sim_ptr := b\<rparr>) = Some (s\<lparr>sim_ptr := b\<rparr>)"
    by (subst sim_write_loop.simps) simp
  moreover have "sim_read_loop m 0 n (s\<lparr>sim_ptr := b\<rparr>) = None"
    using out assms(3) by (subst sim_read_loop.simps) (simp add: rd_def)
  moreover have "\<not> sim_touches_data b n" using assms(2) by (simp add: sim_touches_data_def)
  ultimately show "sim_write_read (Some s) SIM_ADDR (Some [Some b]) 1 (Some m) n = None"
    using assms(3) by (simp add: sim_write_read_def)
qed

section \<open>The simulator is a register chip\<close>

definition chip_inv :: "i2c_sim option \<Rightarrow> bool" where
  "chip_inv c = (case c of None \<Rightarrow> False | Some s \<Rightarrow> sim_ok s)"

definition chip_reg :: "i2c_sim option \<Rightarrow> u8 \<Rightarrow> u8" where
  "chip_reg c r =
     (case c of None \<Rightarrow> 0 | Some s \<Rightarrow> if unat r < 58 then regs_of s ! unat r else 0)"

definition chip_clock :: "i2c_sim option \<Rightarrow> u32" where
  "chip_clock c = (case c of None \<Rightarrow> 0 | Some s \<Rightarrow> sim_phase s)"

lemmas chip_defs = chip_inv_def chip_reg_def chip_clock_def

lemma plain_reg_unat: "plain_reg r \<longleftrightarrow> unat r < 50 \<or> 55 < unat r \<and> unat r < 58"
  by (simp add: plain_reg_def word_less_nat_alt)

lemma after_sample_plain:
  "unat (sim_ptr s) < 50 \<or> 55 < unat (sim_ptr s) \<Longrightarrow> after_sample s 1 = s"
  by (auto simp: after_sample_def touches_data_iff)

lemma sim_refill [simp]: "sim_ok s \<Longrightarrow> s\<lparr>sim_regs := map Some (regs_of s)\<rparr> = s"
  using sim_ok_regs [of s] by (cases s) simp

lemma sim_read_plain:
  assumes s: "sim_ok s" and r: "plain_reg r"
  shows "\<exists>q. sim_write_read (Some s) 0x53 (Some [Some r]) 1 (Some [x]) 1 =
           Some (I2C_OK, Some (s\<lparr>sim_ptr := q\<rparr>), Some [Some (regs_of s ! unat r)])"
proof -
  have u: "unat r < 58" using r by (auto simp: plain_reg_unat)
  note ok = after_writes_ok [OF s, of r "[]"]
  have "after_sample (after_writes s r []) 1 = after_writes s r []"
    using ok u r by (intro after_sample_plain) (auto simp: plain_reg_unat)
  then show ?thesis
    using sim_write_read_run [OF s u, of 1 "[x]" "[]" "[]"] u ok(2) s
    by (auto simp: SIM_ADDR_def filled_def after_writes_def)
qed

lemma sim_write_plain:
  assumes s: "sim_ok s" and r: "plain_reg r"
  shows "sim_write (Some s) 0x53 (Some [Some r, Some v]) 2 =
           Some (I2C_OK, Some (after_writes s r [v]))"
  using sim_write_run [OF s, of r "[v]" "[]"] r
  by (auto simp: SIM_ADDR_def plain_reg_unat numeral_2_eq_2)

lemma sim_read_burst:
  assumes s: "sim_ok s" and m: "bit (regs_of s ! 0x2D) 3" and raw: "length raw = 6"
  shows "\<exists>q. sim_write_read (Some s) 0x53 (Some [Some 0x32]) 1 (Some raw) 6 =
           Some (I2C_OK,
                 Some (s\<lparr>sim_regs := map Some (with_sample (regs_of s) (sim_phase s)),
                         sim_phase := sim_phase s + 1, sim_ptr := q\<rparr>),
                 Some (map Some (sample_bytes (sim_phase s))))"
proof -
  let ?s1 = "after_writes s 0x32 []"
  note ok = after_writes_ok [OF s, of "0x32" "[]"]
  have "sim_touches_data (sim_ptr ?s1) 6" using ok(3) by (simp add: touches_data_iff)
  then have s2: "after_sample ?s1 6 = ?s1\<lparr>sim_regs := map Some (with_sample (regs_of s) (sim_phase s)),
      sim_phase := sim_phase s + 1\<rparr>"
    using m ok by (simp add: after_sample_def)
  then have "regs_of (after_sample ?s1 6) = with_sample (regs_of s) (sim_phase s)"
    by (simp add: regs_of_def comp_def)
  then have "filled (reg_stream (regs_of (after_sample ?s1 6)) 50 6) raw =
      map Some (sample_bytes (sim_phase s))"
    using s raw by (simp add: burst_stream filled_def)
  then show ?thesis
    using sim_write_read_run [OF s, of "0x32" 6 raw "[]" "[]"] raw s2
    by (auto simp: SIM_ADDR_def after_writes_def)
qed

interpretation simchip: register_chip sim_write sim_write_read chip_inv chip_reg chip_clock
  "\<lambda>t. t + 1" sample_bytes
proof unfold_locales
  show "\<exists>c'. sim_write_read c 0x53 (Some [Some r]) 1 (Some [x]) 1 =
          Some (I2C_OK, c', Some [Some (chip_reg c r)]) \<and>
        chip_inv c' \<and> chip_reg c' = chip_reg c \<and> chip_clock c' = chip_clock c"
    if c: "chip_inv c" and r: "plain_reg r" for c r x
  proof -
    obtain s where s: "c = Some s" "sim_ok s" using c by (auto simp: chip_defs split: option.splits)
    then show ?thesis using sim_read_plain [OF s(2) r, of x] r
      by (auto simp: chip_defs plain_reg_unat sim_ok_def regs_of_def fun_eq_iff)
  qed
  show "\<exists>c'. sim_write c 0x53 (Some [Some r, Some v]) 2 = Some (I2C_OK, c') \<and>
        chip_inv c' \<and> chip_reg c' = (chip_reg c)(r := v) \<and> chip_clock c' = chip_clock c"
    if c: "chip_inv c" and control: "control_reg r" for c r v
  proof -
    note r = control_plain [OF control]
    obtain s where s: "c = Some s" "sim_ok s" using c by (auto simp: chip_defs split: option.splits)
    have "chip_reg (Some (after_writes s r [v])) = (chip_reg (Some s))(r := v)"
      using r s(2) after_writes_ok [OF s(2), of r "[v]"]
      by (auto simp: chip_defs plain_reg_unat fun_eq_iff nth_list_update dest: word_unat_eq_iff [THEN iffD2])
    then show ?thesis using sim_write_plain [OF s(2) r, of v] after_writes_ok [OF s(2), of r "[v]"]
      by (auto simp: s chip_inv_def chip_clock_def)
  qed
  show "\<exists>c'. sim_write_read c 0x53 (Some [Some 0x32]) 1 (Some raw) 6 =
          Some (I2C_OK, c', Some (map Some (sample_bytes (chip_clock c)))) \<and>
        chip_inv c' \<and> (\<forall>r. plain_reg r \<longrightarrow> chip_reg c' r = chip_reg c r) \<and>
        chip_clock c' = chip_clock c + 1"
    if c: "chip_inv c" and m: "bit (chip_reg c 0x2D) 3" and raw: "length raw = 6" for c raw
  proof -
    obtain s where s: "c = Some s" "sim_ok s" using c by (auto simp: chip_defs split: option.splits)
    let ?R = "with_sample (regs_of s) (sim_phase s)"
    have "bit (regs_of s ! 0x2D) 3" using m by (simp add: s chip_reg_def)
    then obtain q where run: "sim_write_read (Some s) 0x53 (Some [Some 0x32]) 1 (Some raw) 6 =
        Some (I2C_OK, Some (s\<lparr>sim_regs := map Some ?R, sim_phase := sim_phase s + 1, sim_ptr := q\<rparr>),
              Some (map Some (sample_bytes (sim_phase s))))"
      using sim_read_burst [OF s(2) _ raw] by blast
    let ?s' = "s\<lparr>sim_regs := map Some ?R, sim_phase := sim_phase s + 1, sim_ptr := q\<rparr>"
    have "sim_ok ?s'" "regs_of ?s' = ?R" using s(2) by (auto intro!: sim_okI regs_ofI)
    then show ?thesis using run s(2)
      by (auto simp: s chip_defs plain_reg_unat with_sample_other)
  qed
  show "length (sample_bytes t) = 6" for t by simp
qed

section \<open>Reading back\<close>

lemma reg_writes_append:
  "length R = 58 \<Longrightarrow> p + length ds \<le> 58 \<Longrightarrow>
   reg_writes R p ds = take p R @ ds @ drop (p + length ds) R"
proof (induction ds arbitrary: R p)
  case Nil
  then show ?case by simp
next
  case (Cons d ds)
  have p: "p < 58" using Cons.prems by simp
  have "reg_writes R p (d # ds) = reg_writes (R[p := d]) ((p + 1) mod 58) ds" by simp
  also have "\<dots> = take (p + 1) (R[p := d]) @ ds @ drop (p + 1 + length ds) (R[p := d])"
  proof (cases "p = 57")
    case True
    then have "ds = []" using Cons.prems(2) by simp
    then show ?thesis using True Cons.prems(1) by simp
  next
    case False
    then have "(p + 1) mod 58 = p + 1" using p by simp
    then show ?thesis using Cons.IH [of "R[p := d]" "p + 1"] Cons.prems by simp
  qed
  also have "\<dots> = take p R @ (d # ds) @ drop (p + length (d # ds)) R"
    using p Cons.prems(1) by (simp add: take_Suc_conv_app_nth)
  finally show ?case .
qed

lemma reg_stream_take:
  "length R = 58 \<Longrightarrow> p + n \<le> 58 \<Longrightarrow> reg_stream R p n = take n (drop p R)"
  by (rule nth_equalityI) (auto simp: nth_reg_stream)

section \<open>Any sequence of transfers\<close>

text \<open>
  The states a client can bring the simulator into from power-on: by any calls of the two
  methods that return, under any address, with any buffers and lengths, pointer bytes outside
  the register file included.
\<close>

inductive sim_reach :: "i2c_sim \<Rightarrow> bool" where
  power: "sim_reach power_on"
| writing: "sim_reach s \<Longrightarrow> sim_write (Some s) a d n = Some (rc, Some s') \<Longrightarrow> sim_reach s'"
| reading: "sim_reach s \<Longrightarrow> sim_write_read (Some s) a w k m n = Some (rc, Some s', out) \<Longrightarrow> sim_reach s'"

text \<open>In all of them the registers are all there and hold values.\<close>

lemma wr_reg_ok:
  "sim_ok s \<Longrightarrow> wr (sim_regs s) i b = Some m \<Longrightarrow> sim_ok (s\<lparr>sim_regs := m, sim_ptr := p\<rparr>)"
  by (auto simp: sim_ok_def wr_def list_all_iff split: if_splits dest: set_update_subset_insert [THEN subsetD])

lemma sim_write_loop_ok: "sim_write_loop d i n s = Some s' \<Longrightarrow> sim_ok s \<Longrightarrow> sim_ok s'"
proof (induction d i n s rule: sim_write_loop.induct)
  case (1 d i n s)
  show ?case
  proof (cases "i < n")
    case True
    then obtain b m where b: "rd d i = Some b" "wr (sim_regs s) (unat (sim_ptr s)) b = Some m"
      "sim_write_loop d (Suc i) n (s\<lparr>sim_regs := m, sim_ptr := sim_next_ptr (sim_ptr s)\<rparr>) = Some s'"
      using "1.prems"(1) by (subst (asm) sim_write_loop.simps) (auto split: bind_splits)
    then show ?thesis using "1.IH" [OF True b] wr_reg_ok [OF "1.prems"(2) b(2)] by blast
  next
    case False
    then show ?thesis using "1.prems" by (simp add: sim_write_loop.simps)
  qed
qed

lemma sim_read_loop_ok: "sim_read_loop m i n s = Some (m', s') \<Longrightarrow> sim_ok s \<Longrightarrow> sim_ok s'"
proof (induction m i n s rule: sim_read_loop.induct)
  case (1 m i n s)
  show ?case
  proof (cases "i < n")
    case True
    then obtain b m1 where b: "rd (sim_regs s) (unat (sim_ptr s)) = Some b" "wr m i b = Some m1"
      "sim_read_loop m1 (Suc i) n (s\<lparr>sim_ptr := sim_next_ptr (sim_ptr s)\<rparr>) = Some (m', s')"
      using "1.prems"(1) by (subst (asm) sim_read_loop.simps) (auto split: bind_splits)
    have "sim_ok (s\<lparr>sim_ptr := sim_next_ptr (sim_ptr s)\<rparr>)" using "1.prems"(2) by (simp add: sim_ok_def)
    then show ?thesis using "1.IH" [OF True b] by blast
  next
    case False
    then show ?thesis using "1.prems" by (simp add: sim_read_loop.simps)
  qed
qed

lemma sim_ok_ptr [simp]: "sim_ok (s\<lparr>sim_ptr := p\<rparr>) \<longleftrightarrow> sim_ok s"
  by (simp add: sim_ok_def)

lemma sim_write_ok:
  "sim_write (Some s) a d n = Some (rc, Some s') \<Longrightarrow> sim_ok s \<Longrightarrow> sim_ok s'"
  by (auto simp: sim_write_def dest: sim_write_loop_ok split: if_splits option.splits bind_splits)

lemma sim_write_read_ok:
  assumes "sim_write_read (Some s) a w k m n = Some (rc, Some s', out)" and "sim_ok s"
  shows "sim_ok s'"
proof (cases "a \<noteq> SIM_ADDR \<or> k > 0 \<and> w = None \<or> n > 0 \<and> m = None")
  case True
  then show ?thesis using assms by (auto simp: sim_write_read_def split: if_splits)
next
  case False
  then have a: "\<not> a \<noteq> SIM_ADDR" and b: "\<not> (k > 0 \<and> w = None \<or> n > 0 \<and> m = None)" by blast+
  let ?A = "if k > 0 then do { d \<leftarrow> w; b \<leftarrow> rd d 0; sim_write_loop d 1 k (s\<lparr>sim_ptr := b\<rparr>) } else Some s"
  let ?B = "\<lambda>s1. if n > 0 \<and> sim_touches_data (sim_ptr s1) n then do {
      p \<leftarrow> rd (sim_regs s1) SIM_REG_POWER_CTL;
      if p AND SIM_POWER_CTL_MEASURE \<noteq> 0 then sim_refresh_sample s1 else Some s1 } else Some s1"
  let ?C = "\<lambda>s2. if n > 0 then do { m \<leftarrow> m; (m, s) \<leftarrow> sim_read_loop m 0 n s2; Some (I2C_OK, Some s, Some m) }
      else Some (I2C_OK, Some s2, m)"
  have "do { s1 \<leftarrow> ?A; s2 \<leftarrow> ?B s1; ?C s2 } = Some (rc, Some s', out)"
    using assms(1) unfolding sim_write_read_def option.case if_not_P [OF a] if_not_P [OF b] .
  then obtain s1 s2 where s1: "?A = Some s1" and s2: "?B s1 = Some s2"
    and fin: "?C s2 = Some (rc, Some s', out)"
    unfolding Option.bind_eq_Some_conv by blast
  have "sim_ok s1" using s1 assms(2) by (auto dest: sim_write_loop_ok split: if_splits bind_splits)
  then have "sim_ok s2" using s2 refresh_ok(1) by (auto split: if_splits bind_splits)
  then show ?thesis using fin by (auto dest: sim_read_loop_ok split: if_splits bind_splits)
qed

lemma sim_reach_ok: "sim_reach s \<Longrightarrow> sim_ok s"
  by (induction rule: sim_reach.induct) (use power_on_ok(1) sim_write_ok sim_write_read_ok in blast)+

definition sim_inv :: "i2c_sim \<Rightarrow> bool" where
  "sim_inv s \<longleftrightarrow> sim_ok s \<and> unat (sim_ptr s) < I2C_SIM_NREGS"

lemma sim_continue:
  assumes "sim_inv s" and "n \<le> length m"
  shows "\<exists>s' p. sim_write_read (Some s) SIM_ADDR w 0 (Some m) n =
           Some (I2C_OK, Some s', Some (filled p m)) \<and> sim_inv s' \<and> length p = n"
proof (cases "n = 0")
  case True
  then show ?thesis using assms(1)
    by (intro exI [of _ s] exI [of _ "[]"]) (simp add: sim_write_read_def)
next
  case False
  let ?s2 = "after_sample s n"
  have s: "sim_ok s" "unat (sim_ptr s) < 58" using assms(1) by (simp_all add: sim_inv_def)
  note ok2 = after_sample_ok [OF s(1), of n]
  obtain q where q: "sim_read_loop m 0 n ?s2 =
      Some (filled (reg_stream (regs_of ?s2) (unat (sim_ptr ?s2)) n) m, ?s2\<lparr>sim_ptr := q\<rparr>)"
    "unat q < 58"
    using sim_read_loop_all [OF ok2(1) _ assms(2)] s(2) ok2(2) by auto
  have "rd (sim_regs s) 0x2D = Some (regs_of s ! 0x2D)"
    using s(1) by (simp add: rd_def sim_ok_regs)
  then have "sim_write_read (Some s) SIM_ADDR w 0 (Some m) n =
      Some (I2C_OK, Some (?s2\<lparr>sim_ptr := q\<rparr>),
            Some (filled (reg_stream (regs_of ?s2) (unat (sim_ptr ?s2)) n) m))"
    using False q(1) refresh_run [OF s(1)]
    by (cases "sim_touches_data (sim_ptr s) n"; cases "bit (regs_of s ! 0x2D) 3")
      (simp_all add: sim_write_read_def after_sample_def SIM_POWER_CTL_MEASURE_def and_8)
  moreover have "sim_inv (?s2\<lparr>sim_ptr := q\<rparr>)"
    using ok2(1) q(2) by (simp add: sim_inv_def sim_ok_def)
  ultimately show ?thesis
    by (intro exI [of _ "?s2\<lparr>sim_ptr := q\<rparr>"]
        exI [of _ "reg_stream (regs_of ?s2) (unat (sim_ptr ?s2)) n"]) simp
qed

lemma sim_two_phases:
  assumes "sim_ok s" and "unat b < 58"
  shows "sim_write_read (Some s) SIM_ADDR (Some (map Some (b # ds) @ r)) (Suc (length ds)) (Some m) n =
         sim_write_read (Some (after_writes s b ds)) SIM_ADDR None 0 (Some m) n"
  using write_phase [OF assms, of ds r] by (simp add: sim_write_read_def)

lemma after_writes_inv: "sim_ok s \<Longrightarrow> sim_inv (after_writes s b ds)"
  using after_writes_ok [of s b ds] by (simp add: sim_inv_def)

lemma sim_nack:
  "a \<noteq> SIM_ADDR \<Longrightarrow> sim_write (Some s) a d n = Some (I2C_ERR_NACK, Some s)"
  "a \<noteq> SIM_ADDR \<Longrightarrow> sim_write_read (Some s) a d k m n = Some (I2C_ERR_NACK, Some s, m)"
  by (simp_all add: sim_write_def sim_write_read_def)

text \<open>A pointer outside the register file faults at the first register that is touched.\<close>

lemma loops_fault:
  assumes "sim_ok s" and "\<not> unat (sim_ptr s) < 58" and "i < n"
  shows "sim_write_loop d i n s = None" "sim_read_loop m i n s = None"
  using assms
  by (subst sim_write_loop.simps, cases "rd d i", simp_all add: wr_def sim_ok_def)
    (subst sim_read_loop.simps, simp add: rd_def sim_ok_def)

lemma write_returns:
  assumes "sim_ok s"
  shows "(\<exists>rc s'. sim_write (Some s) a (Some (map Some (b # ds) @ r)) (Suc (length ds)) = Some (rc, Some s')) \<longleftrightarrow>
         a \<noteq> SIM_ADDR \<or> ds = [] \<or> unat b < 58"
proof (cases "a = SIM_ADDR \<and> ds \<noteq> [] \<and> \<not> unat b < 58")
  case True
  then have "sim_write_loop (Some b # map Some ds @ r) 1 (Suc (length ds)) (s\<lparr>sim_ptr := b\<rparr>) = None"
    using assms by (intro loops_fault) auto
  then show ?thesis using True by (simp add: sim_write_def)
next
  case False
  then show ?thesis using sim_write_run [OF assms, of b ds r]
    by (auto simp: sim_nack) (auto simp: sim_write_def sim_write_loop.simps)
qed

lemma continue_returns:
  assumes "sim_ok s" and "n \<le> length m"
  shows "(\<exists>rc s' out. sim_write_read (Some s) a w 0 (Some m) n = Some (rc, Some s', out)) \<longleftrightarrow>
         a \<noteq> SIM_ADDR \<or> n = 0 \<or> unat (sim_ptr s) < 58"
proof (cases "a = SIM_ADDR \<and> n \<noteq> 0 \<and> \<not> unat (sim_ptr s) < 58")
  case True
  then have "\<not> sim_touches_data (sim_ptr s) n" by (simp add: sim_touches_data_def)
  then show ?thesis using True loops_fault(2) [OF assms(1), of 0 n m] by (simp add: sim_write_read_def)
next
  case False
  then consider "a \<noteq> SIM_ADDR" | "a = SIM_ADDR" "n = 0" | "a = SIM_ADDR" "unat (sim_ptr s) < 58" by blast
  then show ?thesis
  proof cases
    case 3
    then show ?thesis using sim_continue [of s n m w] assms by (auto simp: sim_inv_def)
  qed (simp_all add: sim_nack sim_write_read_def)
qed

lemma combined_returns:
  assumes "sim_ok s" and "n \<le> length m"
  shows "(\<exists>rc s' out. sim_write_read (Some s) a (Some (map Some (b # ds) @ r)) (Suc (length ds)) (Some m) n =
           Some (rc, Some s', out)) \<longleftrightarrow>
         a \<noteq> SIM_ADDR \<or> unat b < 58 \<or> ds = [] \<and> n = 0"
proof (cases "a = SIM_ADDR \<and> \<not> unat b < 58")
  case True
  show ?thesis
  proof (cases "ds = []")
    case True
    have "sim_write_read (Some s) SIM_ADDR (Some (map Some (b # ds) @ r)) (Suc (length ds)) (Some m) n =
        sim_write_read (Some (s\<lparr>sim_ptr := b\<rparr>)) SIM_ADDR None 0 (Some m) n"
      by (simp add: sim_write_read_def sim_write_loop.simps True)
    then show ?thesis
      using continue_returns [of "s\<lparr>sim_ptr := b\<rparr>" n m a None] assms True \<open>a = SIM_ADDR \<and> \<not> unat b < 58\<close>
      by simp
  next
    case False
    then have "sim_write_loop (Some b # map Some ds @ r) 1 (Suc (length ds)) (s\<lparr>sim_ptr := b\<rparr>) = None"
      using True assms(1) by (intro loops_fault) auto
    then show ?thesis using True False by (simp add: sim_write_read_def)
  qed
next
  case False
  then show ?thesis
    using sim_two_phases [OF assms(1), of b ds r m n]
      sim_continue [OF after_writes_inv [OF assms(1)] assms(2), of b ds None]
    by (cases "a = SIM_ADDR") (auto simp: sim_nack)
qed

section \<open>Properties\<close>

text \<open>
  Initialisation. From any contents of the struct, \<open>i2c_sim_init\<close> produces the same
  power-on state: identity register \<open>0xE5\<close>, every other register zero, pointer and phase
  zero; it writes no cell outside the register file.
\<close>

lemma sim_initialised:
  assumes "length (sim_regs s) = I2C_SIM_NREGS"
  shows "i2c_sim_init (Some s) =
         Some (Some \<lparr>sim_regs = map Some (SIM_DEVID_VALUE # replicate 57 0), sim_ptr = 0, sim_phase = 0\<rparr>)"
  using i2c_sim_init_run [of s] assms by (simp add: power_on_def SIM_DEVID_VALUE_def)

text \<open>
  C37: which transfers return. In every state that calls of the two methods can lead to from
  power-on, whatever their addresses, lengths and data, pointer bytes outside the register
  file included, a transfer with enough room for what it reads returns exactly when it touches
  no register through a pointer outside the file: a write when it is for another chip, writes
  no register or has its pointer byte in the file; a combined transfer when it is for another
  chip, has its pointer byte in the file, or touches no register; a read without a pointer
  byte when it is for another chip, reads nothing, or the pointer lies in the file. And a
  transfer whose pointer byte lies in the file, or one that goes on from a pointer there,
  leaves the pointer in the file, whatever its length and at the wrap of the last register too.
\<close>

theorem sim_transfers_return:
  assumes "sim_reach s" and "n \<le> length m"
  shows "((\<exists>rc s'. sim_write (Some s) a (Some (map Some (b # ds) @ r)) (Suc (length ds)) =
             Some (rc, Some s')) \<longleftrightarrow> a \<noteq> SIM_ADDR \<or> ds = [] \<or> unat b < I2C_SIM_NREGS) \<and>
         ((\<exists>rc s' out. sim_write_read (Some s) a (Some (map Some (b # ds) @ r)) (Suc (length ds))
             (Some m) n = Some (rc, Some s', out)) \<longleftrightarrow>
           a \<noteq> SIM_ADDR \<or> unat b < I2C_SIM_NREGS \<or> ds = [] \<and> n = 0) \<and>
         ((\<exists>rc s' out. sim_write_read (Some s) a w 0 (Some m) n = Some (rc, Some s', out)) \<longleftrightarrow>
           a \<noteq> SIM_ADDR \<or> n = 0 \<or> unat (sim_ptr s) < I2C_SIM_NREGS) \<and>
         (unat b < I2C_SIM_NREGS \<longrightarrow>
           (\<exists>s1 s2 out.
              sim_write (Some s) SIM_ADDR (Some (map Some (b # ds) @ r)) (Suc (length ds)) =
                Some (I2C_OK, Some s1) \<and> unat (sim_ptr s1) < I2C_SIM_NREGS \<and>
              sim_write_read (Some s) SIM_ADDR (Some (map Some (b # ds) @ r)) (Suc (length ds)) (Some m) n =
                Some (I2C_OK, Some s2, out) \<and> unat (sim_ptr s2) < I2C_SIM_NREGS)) \<and>
         (unat (sim_ptr s) < I2C_SIM_NREGS \<longrightarrow>
           (\<exists>s3 out. sim_write_read (Some s) SIM_ADDR w 0 (Some m) n = Some (I2C_OK, Some s3, out) \<and>
              unat (sim_ptr s3) < I2C_SIM_NREGS))"
proof -
  have s: "sim_ok s" using sim_reach_ok [OF assms(1)] .
  have "\<exists>s1 s2 out.
      sim_write (Some s) SIM_ADDR (Some (map Some (b # ds) @ r)) (Suc (length ds)) =
        Some (I2C_OK, Some s1) \<and> unat (sim_ptr s1) < 58 \<and>
      sim_write_read (Some s) SIM_ADDR (Some (map Some (b # ds) @ r)) (Suc (length ds)) (Some m) n =
        Some (I2C_OK, Some s2, out) \<and> unat (sim_ptr s2) < 58" if b: "unat b < 58"
    using sim_write_run [OF s b, of ds r] sim_two_phases [OF s b, of ds r m n] after_writes_inv [OF s, of b ds]
      sim_continue [OF after_writes_inv [OF s] assms(2), of b ds None]
    by (auto simp: sim_inv_def)
  moreover have "\<exists>s3 out. sim_write_read (Some s) SIM_ADDR w 0 (Some m) n = Some (I2C_OK, Some s3, out) \<and>
      unat (sim_ptr s3) < 58" if "unat (sim_ptr s) < 58"
    using sim_continue [of s n m w] that s assms(2) by (auto simp: sim_inv_def)
  ultimately show ?thesis
    using write_returns [OF s, of a b ds r] combined_returns [OF s assms(2), of a b ds r]
      continue_returns [OF s assms(2), of a w] by simp
qed

text \<open>After the one-byte write of a pointer outside the file, that very write returns but the next read does not.\<close>

theorem sim_transfers_return_witness:
  "\<exists>s. sim_write (Some power_on) SIM_ADDR (Some [Some 0x3A]) 1 = Some (I2C_OK, Some s) \<and>
     (\<nexists>rc s' out. sim_write_read (Some s) SIM_ADDR None 0 (Some [None]) 1 = Some (rc, Some s', out)) \<and>
     (\<exists>s1. sim_write (Some s) SIM_ADDR (Some [Some 0x39, Some 1, Some 2]) 3 = Some (I2C_OK, Some s1) \<and>
        unat (sim_ptr s1) < 0x3A)"
proof -
  let ?s = "power_on\<lparr>sim_ptr := 0x3A\<rparr>"
  have w: "sim_write (Some power_on) SIM_ADDR (Some [Some 0x3A]) 1 = Some (I2C_OK, Some ?s)"
    by (simp add: sim_write_def rd_def sim_write_loop.simps)
  have reach: "sim_reach ?s" using sim_reach.writing [OF sim_reach.power w] .
  show ?thesis
    using w sim_transfers_return [OF reach, of 1 "[None]" SIM_ADDR "0x39" "[1, 2]" "[]" None]
    by (intro exI [of _ ?s]) (auto simp: numeral_3_eq_3)
qed

text \<open>
  The register file. A write of consecutive registers below the sample registers,
  followed by a read of as many bytes from the same register, returns the bytes written and
  leaves every other register as it was.
\<close>

lemma sim_read_back:
  assumes "sim_ok s" and "unat b + length ds \<le> 50" and "length ds \<le> length m"
  shows "\<exists>s1 s2.
           sim_write (Some s) SIM_ADDR (Some (map Some (b # ds))) (Suc (length ds)) =
             Some (I2C_OK, Some s1) \<and>
           sim_write_read (Some s1) SIM_ADDR (Some [Some b]) 1 (Some m) (length ds) =
             Some (I2C_OK, Some s2, Some (filled ds m)) \<and>
           sim_ok s2 \<and>
           regs_of s2 = take (unat b) (regs_of s) @ ds @ drop (unat b + length ds) (regs_of s)"
proof -
  let ?R = "take (unat b) (regs_of s) @ ds @ drop (unat b + length ds) (regs_of s)"
  let ?s1 = "after_writes s b ds"
  let ?s2 = "after_writes ?s1 b []"
  have b: "unat b < 58" using assms(2) by simp
  note ok1 = after_writes_ok [OF assms(1), of b ds]
  note ok2 = after_writes_ok [OF ok1(1), of b "[]"]
  have R: "regs_of ?s1 = ?R" using ok1(2) reg_writes_append assms(1,2) by simp
  have quiet: "after_sample ?s2 (length ds) = ?s2"
  proof (cases "ds = []")
    case False
    have "\<not> sim_touches_data (sim_ptr ?s2) (length ds)"
      using ok2(3) assms(2) b touches_data_iff [of "length ds" "sim_ptr ?s2"] by simp
    then show ?thesis by (simp add: after_sample_def)
  qed (simp add: after_sample_def)
  have "reg_stream ?R (unat b) (length ds) = ds"
    using assms(1,2) b by (simp add: reg_stream_take)
  then have "\<exists>q. sim_write_read (Some ?s1) SIM_ADDR (Some [Some b]) 1 (Some m) (length ds) =
      Some (I2C_OK, Some (?s2\<lparr>sim_ptr := q\<rparr>), Some (filled ds m))"
    using sim_write_read_run [OF ok1(1) b assms(3), of "[]" "[]"] b
    unfolding quiet by (simp add: ok2(2) R)
  moreover have "sim_write (Some s) SIM_ADDR (Some (map Some (b # ds))) (Suc (length ds)) =
      Some (I2C_OK, Some ?s1)"
    using sim_write_run [OF assms(1) b, of ds "[]"] by simp
  moreover have "sim_ok (?s2\<lparr>sim_ptr := q\<rparr>) \<and> regs_of (?s2\<lparr>sim_ptr := q\<rparr>) = ?R" for q
    using ok2(1,2) R by (simp add: sim_ok_def regs_of_def)
  ultimately show ?thesis by blast
qed

text \<open>
  Samples. A six-byte read from \<open>0x32\<close> while the chip measures returns the sample of the
  current phase and moves the phase on by one; the samples repeat after sixteen phases, and
  the third axis always reads 256.
\<close>

lemma sim_sample_read:
  assumes "sim_ok s" and "bit (regs_of s ! SIM_REG_POWER_CTL) 3" and "length raw = 6"
  shows "\<exists>s'. sim_write_read (Some s) SIM_ADDR (Some [Some 0x32]) 1 (Some raw) 6 =
           Some (I2C_OK, Some s', Some (map Some (sample_bytes (sim_phase s)))) \<and>
         sim_ok s' \<and> sim_phase s' = sim_phase s + 1 \<and>
         sample_bytes (sim_phase s + 16) = sample_bytes (sim_phase s) \<and>
         drop 4 (sample_bytes (sim_phase s)) = [0x00, 0x01]"
proof -
  let ?R = "with_sample (regs_of s) (sim_phase s)"
  obtain q where q: "sim_write_read (Some s) SIM_ADDR (Some [Some 0x32]) 1 (Some raw) 6 =
      Some (I2C_OK, Some (s\<lparr>sim_regs := map Some ?R, sim_phase := sim_phase s + 1, sim_ptr := q\<rparr>),
            Some (map Some (sample_bytes (sim_phase s))))"
    using sim_read_burst [OF assms(1) _ assms(3)] assms(2) by (auto simp: SIM_ADDR_def)
  have ok: "sim_ok (s\<lparr>sim_regs := map Some ?R, sim_phase := sim_phase s + 1, sim_ptr := q\<rparr>)"
    using assms(1) by (auto intro!: sim_okI)
  show ?thesis
    using q ok sample_period [of "sim_phase s"] by (fastforce simp: sample_bytes_def le16_def byte_at_def)
qed

text \<open>
  Standby. While bit 3 of \<open>POWER_CTL\<close> is clear, no read produces a sample: every read
  of up to 58 bytes returns what the registers hold, from the given one on and wrapping
  behind the last, and the registers and the phase stay as they are.
\<close>

lemma sim_standby:
  assumes "sim_ok s" and "\<not> bit (regs_of s ! SIM_REG_POWER_CTL) 3" and "unat b < I2C_SIM_NREGS"
    and "n \<le> I2C_SIM_NREGS" and "n \<le> length m"
  shows "\<exists>s' p. sim_write_read (Some s) SIM_ADDR (Some [Some b]) 1 (Some m) n =
           Some (I2C_OK, Some s', Some (filled p m)) \<and>
         regs_of s' = regs_of s \<and> sim_phase s' = sim_phase s \<and>
         p = take n (drop (unat b) (regs_of s) @ regs_of s)"
proof -
  let ?s1 = "after_writes s b []"
  have b: "unat b < 58" using assms(3) by simp
  note ok = after_writes_ok [OF assms(1), of b "[]"]
  have quiet: "after_sample ?s1 n = ?s1" using assms(2) ok(2) by (simp add: after_sample_def)
  have p: "reg_stream (regs_of s) (unat b) n = take n (drop (unat b) (regs_of s) @ regs_of s)"
  proof (rule nth_equalityI)
    fix k assume "k < length (reg_stream (regs_of s) (unat b) n)"
    then have k: "k < n" "k < 58" using assms(4) by simp_all
    show "reg_stream (regs_of s) (unat b) n ! k =
        take n (drop (unat b) (regs_of s) @ regs_of s) ! k"
    proof (cases "unat b + k < 58")
      case True
      then have "k < 58 - unat b" by simp
      then show ?thesis using True b assms(1) k by (simp add: nth_reg_stream nth_append)
    next
      case False
      then have "(unat b + k) mod 58 = unat b + k - 58" "\<not> k < 58 - unat b"
          "k - (58 - unat b) = unat b + k - 58"
        using b k by (simp_all add: mod_if)
      then show ?thesis using b assms(1) k by (simp add: nth_reg_stream nth_append)
    qed
  qed (use b assms(1,4) in simp)
  obtain q where "sim_write_read (Some s) SIM_ADDR (Some [Some b]) 1 (Some m) n =
      Some (I2C_OK, Some (?s1\<lparr>sim_ptr := q\<rparr>),
            Some (filled (take n (drop (unat b) (regs_of s) @ regs_of s)) m))"
    using sim_write_read_run [OF assms(1) b assms(5), of "[]" "[]"] b p ok(2)
    unfolding quiet by auto
  moreover have "regs_of (?s1\<lparr>sim_ptr := q\<rparr>) = regs_of s \<and> sim_phase (?s1\<lparr>sim_ptr := q\<rparr>) = sim_phase s"
    using ok(2,4) by (simp add: regs_of_def)
  ultimately show ?thesis by blast
qed

text \<open>
  Refused transfers. Without a simulator behind \<open>ctx\<close>, the methods answer
  \<open>I2C_ERR_PARAM\<close>, under another address \<open>I2C_ERR_NACK\<close>, and for a null data pointer with a
  positive length \<open>I2C_ERR_PARAM\<close>; in each case nothing changes.
\<close>

lemma sim_refuses:
  "sim_write None addr data len = Some (I2C_ERR_PARAM, None) \<and>
   sim_write_read None addr data len rdata rlen = Some (I2C_ERR_PARAM, None, rdata) \<and>
   (addr \<noteq> SIM_ADDR \<longrightarrow> sim_write (Some s) addr data len = Some (I2C_ERR_NACK, Some s) \<and>
      sim_write_read (Some s) addr data len rdata rlen = Some (I2C_ERR_NACK, Some s, rdata)) \<and>
   (0 < len \<longrightarrow> sim_write (Some s) SIM_ADDR None len = Some (I2C_ERR_PARAM, Some s) \<and>
      sim_write_read (Some s) SIM_ADDR None len rdata rlen = Some (I2C_ERR_PARAM, Some s, rdata) \<and>
      sim_write_read (Some s) SIM_ADDR data rlen None len = Some (I2C_ERR_PARAM, Some s, None))"
  by (simp add: sim_write_def sim_write_read_def)

text \<open>
  C38: an unchecked pointer. The register pointer is taken from the first byte of a transfer
  without a check: one of \<open>0x3A\<close> or more makes the simulator access memory outside its
  register file, on a write of one register as on a read of any length.
\<close>

theorem sim_pointer_unchecked:
  assumes "length (sim_regs s) = I2C_SIM_NREGS" and "I2C_SIM_NREGS \<le> unat b" and "n > 0"
  shows "sim_write (Some s) SIM_ADDR (Some [Some b, Some d]) 2 = None \<and>
         sim_write_read (Some s) SIM_ADDR (Some [Some b]) 1 (Some m) n = None"
  using bad_pointer_faults(1) [of s b n d "[]" "[]"] bad_pointer_faults(2) [of s b n m] assms
  by (simp add: numeral_2_eq_2)

theorem sim_pointer_unchecked_witness:
  "sim_write (Some power_on) SIM_ADDR (Some [Some 0x3A, Some 1]) 2 = None \<and>
   sim_write_read (Some power_on) SIM_ADDR (Some [Some 0x3A]) 1 (Some [None]) 1 = None"
  by (rule sim_pointer_unchecked) (simp_all add: power_on_def)

end
