(* ===== verification/Adxl345.thy ===== *)
theory Adxl345
  imports I2c_Sim
begin

text \<open>
  The accelerometer driver of \<open>firmware/adxl345.c\<close>: the pure decoding of a sample, and
  initialisation, reading and self-test over any bus. The client facts are proved once for
  every register chip and hold of the simulator by its interpretation.
\<close>

section \<open>Constants\<close>

definition ADXL345_I2C_ADDR :: u8 where "ADXL345_I2C_ADDR = 0x53"
definition ADXL345_REG_DEVID :: u8 where "ADXL345_REG_DEVID = 0x00"
definition ADXL345_REG_BW_RATE :: u8 where "ADXL345_REG_BW_RATE = 0x2C"
definition ADXL345_REG_POWER_CTL :: u8 where "ADXL345_REG_POWER_CTL = 0x2D"
definition ADXL345_REG_DATA_FORMAT :: u8 where "ADXL345_REG_DATA_FORMAT = 0x31"
definition ADXL345_REG_DATAX0 :: u8 where "ADXL345_REG_DATAX0 = 0x32"
definition ADXL345_DEVID_VALUE :: u8 where "ADXL345_DEVID_VALUE = 0xE5"
definition ADXL345_POWER_CTL_MEASURE :: u8 where "ADXL345_POWER_CTL_MEASURE = 0x08"
definition ADXL345_DATA_FORMAT_FULL_RES :: u8 where "ADXL345_DATA_FORMAT_FULL_RES = 0x08"
definition ADXL345_RANGE_16G :: u8 where "ADXL345_RANGE_16G = 0x03"
definition ADXL345_RATE_100HZ :: u8 where "ADXL345_RATE_100HZ = 0x0A"
definition ADXL345_MG_NUM :: i32 where "ADXL345_MG_NUM = 125"
definition ADXL345_MG_DEN :: i32 where "ADXL345_MG_DEN = 32"

definition ADXL345_DATA_FORMAT_CONFIG :: u8 where
  "ADXL345_DATA_FORMAT_CONFIG = ADXL345_DATA_FORMAT_FULL_RES OR ADXL345_RANGE_16G"

definition ADXL345_OK :: int where "ADXL345_OK = 0"
definition ADXL345_E_PARAM :: int where "ADXL345_E_PARAM = -1"
definition ADXL345_E_BUS :: int where "ADXL345_E_BUS = -2"
definition ADXL345_E_WRONG_DEVID :: int where "ADXL345_E_WRONG_DEVID = -3"

lemmas adxl_regs =
  ADXL345_I2C_ADDR_def ADXL345_REG_DEVID_def ADXL345_REG_BW_RATE_def ADXL345_REG_POWER_CTL_def
  ADXL345_REG_DATA_FORMAT_def ADXL345_REG_DATAX0_def

lemmas adxl_values =
  ADXL345_DEVID_VALUE_def ADXL345_POWER_CTL_MEASURE_def ADXL345_DATA_FORMAT_CONFIG_def
  ADXL345_DATA_FORMAT_FULL_RES_def ADXL345_RANGE_16G_def ADXL345_RATE_100HZ_def

lemmas adxl_codes =
  ADXL345_OK_def ADXL345_E_PARAM_def ADXL345_E_BUS_def ADXL345_E_WRONG_DEVID_def

section \<open>Decoding\<close>

record adxl345_accel =
  x_mg :: i32
  y_mg :: i32
  z_mg :: i32

text \<open>\<open>(int32_t)(int16_t)x * ADXL345_MG_NUM / ADXL345_MG_DEN\<close>.\<close>

definition axis_mg :: "u16 \<Rightarrow> i32 option" where
  "axis_mg x = do {
     p \<leftarrow> c_mul32 (scast x) ADXL345_MG_NUM;
     c_div32 p ADXL345_MG_DEN
   }"

definition adxl345_decode :: "mem \<Rightarrow> adxl345_accel option" where
  "adxl345_decode raw = do {
     r0 \<leftarrow> rd raw 0; r1 \<leftarrow> rd raw 1;
     r2 \<leftarrow> rd raw 2; r3 \<leftarrow> rd raw 3;
     r4 \<leftarrow> rd raw 4; r5 \<leftarrow> rd raw 5;
     x \<leftarrow> axis_mg (join16 r0 r1);
     y \<leftarrow> axis_mg (join16 r2 r3);
     z \<leftarrow> axis_mg (join16 r4 r5);
     Some \<lparr>x_mg = x, y_mg = y, z_mg = z\<rparr>
   }"

section \<open>The driver\<close>

definition bus_ok :: "'c i2c_bus option \<Rightarrow> bool" where
  "bus_ok bus =
     (case bus of None \<Rightarrow> False | Some b \<Rightarrow> bus_write b \<noteq> None \<and> bus_write_read b \<noteq> None)"

text \<open>Calling a method through a null pointer is undefined (\<open>None\<close>).\<close>

definition reg_write :: "'c i2c_bus \<Rightarrow> u8 \<Rightarrow> u8 \<Rightarrow> (int \<times> 'c i2c_bus) option" where
  "reg_write b r val = do {
     f \<leftarrow> bus_write b;
     (rc, c) \<leftarrow> f (ctx b) ADXL345_I2C_ADDR (Some [Some r, Some val]) 2;
     Some (if rc = I2C_OK then ADXL345_OK else ADXL345_E_BUS, b\<lparr>ctx := c\<rparr>)
   }"

text \<open>The cell behind \<open>val\<close> is passed in and handed back.\<close>

definition reg_read ::
  "'c i2c_bus \<Rightarrow> u8 \<Rightarrow> u8 option \<Rightarrow> (int \<times> 'c i2c_bus \<times> u8 option) option" where
  "reg_read b r val = do {
     f \<leftarrow> bus_write_read b;
     (rc, c, rdata) \<leftarrow> f (ctx b) ADXL345_I2C_ADDR (Some [Some r]) 1 (Some [val]) 1;
     Some (if rc = I2C_OK then ADXL345_OK else ADXL345_E_BUS, b\<lparr>ctx := c\<rparr>,
           case rdata of Some (v # _) \<Rightarrow> v | _ \<Rightarrow> None)
   }"

definition adxl345_init :: "'c i2c_bus option \<Rightarrow> (int \<times> 'c i2c_bus option) option" where
  "adxl345_init bus =
     (if \<not> bus_ok bus then Some (ADXL345_E_PARAM, bus)
      else do {
        b \<leftarrow> bus;
        (rc, b, devid) \<leftarrow> reg_read b ADXL345_REG_DEVID (Some 0);
        if rc \<noteq> ADXL345_OK then Some (rc, Some b)
        else do {
          d \<leftarrow> devid;
          if d \<noteq> ADXL345_DEVID_VALUE then Some (ADXL345_E_WRONG_DEVID, Some b)
          else do {
            (rc, b) \<leftarrow> reg_write b ADXL345_REG_DATA_FORMAT ADXL345_DATA_FORMAT_CONFIG;
            if rc \<noteq> ADXL345_OK then Some (rc, Some b)
            else do {
              (rc, b) \<leftarrow> reg_write b ADXL345_REG_BW_RATE ADXL345_RATE_100HZ;
              if rc \<noteq> ADXL345_OK then Some (rc, Some b)
              else do {
                (rc, b) \<leftarrow> reg_write b ADXL345_REG_POWER_CTL ADXL345_POWER_CTL_MEASURE;
                if rc \<noteq> ADXL345_OK then Some (rc, Some b)
                else Some (ADXL345_OK, Some b)
              }
            }
          }
        }
      })"

text \<open>The local array \<open>raw\<close> is not initialised.\<close>

definition adxl345_read ::
  "'c i2c_bus option \<Rightarrow> adxl345_accel option \<Rightarrow>
   (int \<times> 'c i2c_bus option \<times> adxl345_accel option) option" where
  "adxl345_read bus out =
     (if \<not> bus_ok bus \<or> out = None then Some (ADXL345_E_PARAM, bus, out)
      else do {
        b \<leftarrow> bus;
        f \<leftarrow> bus_write_read b;
        (rc, c, rdata) \<leftarrow> f (ctx b) ADXL345_I2C_ADDR (Some [Some ADXL345_REG_DATAX0]) 1
                             (Some (replicate 6 None)) 6;
        if rc \<noteq> I2C_OK then Some (ADXL345_E_BUS, Some (b\<lparr>ctx := c\<rparr>), out)
        else do {
          raw \<leftarrow> rdata;
          a \<leftarrow> adxl345_decode raw;
          Some (ADXL345_OK, Some (b\<lparr>ctx := c\<rparr>), Some a)
        }
      })"

definition adxl345_selftest :: "'c i2c_bus option \<Rightarrow> (int \<times> 'c i2c_bus option) option" where
  "adxl345_selftest bus =
     (if \<not> bus_ok bus then Some (ADXL345_E_PARAM, bus)
      else do {
        b \<leftarrow> bus;
        (rc, b, devid) \<leftarrow> reg_read b ADXL345_REG_DEVID (Some 0);
        if rc \<noteq> ADXL345_OK then Some (rc, Some b)
        else do {
          d \<leftarrow> devid;
          Some (if d = ADXL345_DEVID_VALUE then ADXL345_OK else ADXL345_E_WRONG_DEVID, Some b)
        }
      })"

section \<open>The value of an axis\<close>

text \<open>
  The scaled value as the requirement states it, over the integers: \<open>raw * 125 / 32\<close>,
  truncated towards zero.
\<close>

definition mg_of :: "u16 \<Rightarrow> int" where
  "mg_of w = (sint w * 125) sdiv 32"

lemma sint16_range: "- 32768 \<le> sint w \<and> sint w \<le> 32767" for w :: u16
  using sint_ge [of w] sint_lt [of w] by simp

lemma sdiv_32: "a sdiv 32 = (if 0 \<le> a then a div 32 else - (- a div 32))" for a :: int
  by (auto simp: signed_divide_int_def sgn_if)

lemma mg_of_range: "- 128000 \<le> mg_of w \<and> mg_of w \<le> 127996"
proof -
  have "- 32768 * 125 \<le> sint w * 125 \<and> sint w * 125 \<le> 32767 * 125"
    using sint16_range [of w] by simp
  then show ?thesis unfolding mg_of_def sdiv_32 by auto
qed

lemma axis_mg_value: "\<exists>v. axis_mg w = Some v \<and> sint v = mg_of w"
proof -
  have s: "sint (scast w :: i32) = sint w" for w :: u16
  proof (rule bit_eqI)
    fix n show "bit (sint (scast w :: i32)) n = bit (sint w) n"
      by (cases "n = 15")
        (auto simp: bit_sint_iff bit_signed_iff min_def not_le dest: bit_imp_le_length)
  qed
  have num: "sint ADXL345_MG_NUM = 125" and den: "sint ADXL345_MG_DEN = 32"
    by (simp_all add: ADXL345_MG_NUM_def ADXL345_MG_DEN_def)
  have "in_i32 (sint w * 125)" using sint16_range [of w] by (simp add: in_i32_def)
  then obtain p where p: "c_mul32 (scast w) ADXL345_MG_NUM = Some p" "sint p = sint w * 125"
    using c_mul32_Some [of "scast w" ADXL345_MG_NUM] by (auto simp: s num)
  have "in_i32 (sint p sdiv 32)"
    using mg_of_range [of w] by (simp add: in_i32_def mg_of_def p(2))
  then obtain v where "c_div32 p ADXL345_MG_DEN = Some v" "sint v = sint p sdiv 32"
    using c_div32_Some [of ADXL345_MG_DEN p] by (auto simp: den)
  then show ?thesis using p by (simp add: axis_mg_def mg_of_def)
qed

lemma decode_bytes:
  assumes "length raw = 6"
  shows "\<exists>a. adxl345_decode (map Some raw) = Some a \<and>
           sint (x_mg a) = mg_of (join16 (raw ! 0) (raw ! 1)) \<and>
           sint (y_mg a) = mg_of (join16 (raw ! 2) (raw ! 3)) \<and>
           sint (z_mg a) = mg_of (join16 (raw ! 4) (raw ! 5))"
proof -
  obtain x y z where "axis_mg (join16 (raw ! 0) (raw ! 1)) = Some x"
      "sint x = mg_of (join16 (raw ! 0) (raw ! 1))"
    and "axis_mg (join16 (raw ! 2) (raw ! 3)) = Some y" "sint y = mg_of (join16 (raw ! 2) (raw ! 3))"
    and "axis_mg (join16 (raw ! 4) (raw ! 5)) = Some z" "sint z = mg_of (join16 (raw ! 4) (raw ! 5))"
    using axis_mg_value by metis
  then show ?thesis using assms by (simp add: adxl345_decode_def rd_def)
qed

section \<open>The driver on a register chip\<close>

definition chip_bus :: "'c write_fn \<Rightarrow> 'c write_read_fn \<Rightarrow> 'c \<Rightarrow> 'c i2c_bus" where
  "chip_bus bw bwr c = \<lparr>bus_write = Some bw, bus_write_read = Some bwr, ctx = c\<rparr>"

lemma chip_bus_simps [simp]:
  "bus_write (chip_bus bw bwr c) = Some bw"
  "bus_write_read (chip_bus bw bwr c) = Some bwr"
  "ctx (chip_bus bw bwr c) = c"
  "(chip_bus bw bwr c)\<lparr>ctx := d\<rparr> = chip_bus bw bwr d"
  "bus_ok (Some (chip_bus bw bwr c))"
  by (simp_all add: chip_bus_def bus_ok_def)

text \<open>The registers after a successful initialisation.\<close>

definition configured :: "(u8 \<Rightarrow> u8) \<Rightarrow> u8 \<Rightarrow> u8" where
  "configured regs = regs(0x31 := 0x0B, 0x2C := 0x0A, 0x2D := 0x08)"

lemma format_config: "ADXL345_DATA_FORMAT_CONFIG = 0x0B"
  by (simp add: adxl_values)

context register_chip
begin

lemma drv_read:
  assumes "inv c" and "plain_reg r"
  shows "\<exists>c'. reg_read (chip_bus bw bwr c) r x =
           Some (ADXL345_OK, chip_bus bw bwr c', Some (reg c r)) \<and>
         inv c' \<and> reg c' = reg c \<and> clock c' = clock c"
  using read_reg [OF assms, of x] by (auto simp: reg_read_def ADXL345_I2C_ADDR_def)

lemma drv_write:
  assumes "inv c" and "control_reg r"
  shows "\<exists>c'. reg_write (chip_bus bw bwr c) r v = Some (ADXL345_OK, chip_bus bw bwr c') \<and>
         inv c' \<and> reg c' = (reg c)(r := v) \<and> clock c' = clock c"
  using write_reg [OF assms, of v] by (auto simp: reg_write_def ADXL345_I2C_ADDR_def)

lemma driver_regs: "plain_reg 0x00" "control_reg 0x2C" "control_reg 0x2D" "control_reg 0x31"
  by (simp_all add: plain_reg_def control_reg_def)

lemma init_good:
  assumes inv: "inv c" and id: "reg c 0x00 = 0xE5"
  shows "\<exists>c'. adxl345_init (Some (chip_bus bw bwr c)) =
           Some (ADXL345_OK, Some (chip_bus bw bwr c')) \<and>
         inv c' \<and> reg c' = configured (reg c) \<and> clock c' = clock c"
proof -
  obtain c1 where c1: "reg_read (chip_bus bw bwr c) 0x00 (Some 0) =
      Some (ADXL345_OK, chip_bus bw bwr c1, Some (reg c 0x00))"
    "inv c1" "reg c1 = reg c" "clock c1 = clock c"
    using drv_read [OF inv driver_regs(1)] by blast
  obtain c2 where c2: "reg_write (chip_bus bw bwr c1) 0x31 0x0B = Some (ADXL345_OK, chip_bus bw bwr c2)"
    "inv c2" "reg c2 = (reg c1)(0x31 := 0x0B)" "clock c2 = clock c1"
    using drv_write [OF c1(2) driver_regs(4)] by blast
  obtain c3 where c3: "reg_write (chip_bus bw bwr c2) 0x2C 0x0A = Some (ADXL345_OK, chip_bus bw bwr c3)"
    "inv c3" "reg c3 = (reg c2)(0x2C := 0x0A)" "clock c3 = clock c2"
    using drv_write [OF c2(2) driver_regs(2)] by blast
  obtain c4 where c4: "reg_write (chip_bus bw bwr c3) 0x2D 0x08 = Some (ADXL345_OK, chip_bus bw bwr c4)"
    "inv c4" "reg c4 = (reg c3)(0x2D := 0x08)" "clock c4 = clock c3"
    using drv_write [OF c3(2) driver_regs(3)] by blast
  have "adxl345_init (Some (chip_bus bw bwr c)) = Some (ADXL345_OK, Some (chip_bus bw bwr c4))"
    using c1(1) c2(1) c3(1) c4(1) id
    by (simp add: adxl345_init_def adxl_regs format_config ADXL345_DEVID_VALUE_def
        ADXL345_RATE_100HZ_def ADXL345_POWER_CTL_MEASURE_def)
  then show ?thesis using c1 c2 c3 c4 by (auto simp: configured_def)
qed

lemma init_wrong:
  assumes inv: "inv c" and id: "reg c 0x00 \<noteq> 0xE5"
  shows "\<exists>c'. adxl345_init (Some (chip_bus bw bwr c)) =
           Some (ADXL345_E_WRONG_DEVID, Some (chip_bus bw bwr c')) \<and>
         inv c' \<and> reg c' = reg c \<and> clock c' = clock c"
  using drv_read [OF inv driver_regs(1), of "Some 0"] id
  by (auto simp: adxl345_init_def ADXL345_REG_DEVID_def ADXL345_DEVID_VALUE_def)

lemma selftest_chip:
  assumes inv: "inv c"
  shows "\<exists>c'. adxl345_selftest (Some (chip_bus bw bwr c)) =
           Some (if reg c 0x00 = 0xE5 then ADXL345_OK else ADXL345_E_WRONG_DEVID,
                 Some (chip_bus bw bwr c')) \<and>
         inv c' \<and> reg c' = reg c \<and> clock c' = clock c"
  using drv_read [OF inv driver_regs(1), of "Some 0"]
  by (auto simp: adxl345_selftest_def ADXL345_REG_DEVID_def ADXL345_DEVID_VALUE_def)

lemma read_good:
  assumes inv: "inv c" and on: "bit (reg c 0x2D) 3"
  shows "\<exists>c' a. adxl345_read (Some (chip_bus bw bwr c)) (Some out) =
           Some (ADXL345_OK, Some (chip_bus bw bwr c'), Some a) \<and>
         adxl345_decode (map Some (signal (clock c))) = Some a \<and>
         inv c' \<and> (\<forall>r. plain_reg r \<longrightarrow> reg c' r = reg c r) \<and> clock c' = tick (clock c)"
proof -
  obtain c' where c': "bwr c 0x53 (Some [Some 0x32]) 1 (Some (replicate 6 None)) 6 =
      Some (I2C_OK, c', Some (map Some (signal (clock c))))"
    "inv c'" "\<forall>r. plain_reg r \<longrightarrow> reg c' r = reg c r" "clock c' = tick (clock c)"
    using read_burst [OF inv on, of "replicate 6 None"] by auto
  obtain a where "adxl345_decode (map Some (signal (clock c))) = Some a"
    using decode_bytes [OF signal_length] by blast
  then show ?thesis using c' by (auto simp: adxl345_read_def adxl_regs)
qed

end

section \<open>The driver on the simulator\<close>

lemma bind_chip_bus:
  "i2c_sim_bind (Some bus) sim = Some (chip_bus sim_write sim_write_read sim)"
  by (simp add: i2c_sim_bind_def chip_bus_def)

lemma chip_reg_same:
  assumes "sim_ok s" and "chip_inv c" and "chip_reg c = chip_reg (Some s)"
  shows "\<exists>s'. c = Some s' \<and> regs_of s' = regs_of s"
proof -
  obtain s' where s': "c = Some s'" "sim_ok s'"
    using assms(2) by (auto simp: chip_inv_def split: option.splits)
  have "regs_of s' = regs_of s"
  proof (rule nth_equalityI)
    fix i assume "i < length (regs_of s')"
    then have "i < 58" using s'(2) by simp
    then show "regs_of s' ! i = regs_of s ! i"
      using fun_cong [OF assms(3), of "of_nat i"] by (simp add: s'(1) chip_reg_def unat_of_nat)
  qed (use assms(1) s'(2) in simp)
  with s'(1) show ?thesis by blast
qed

text \<open>The axes of a simulated sample.\<close>

lemma sample_axes:
  assumes "adxl345_decode (map Some (sample_bytes t)) = Some a"
  shows "sint (x_mg a) = mg_of (wobble ! unat (t AND 15))"
    and "sint (y_mg a) = mg_of (wobble ! unat ((t + 4) AND 15))"
    and "sint (z_mg a) = 1000"
proof -
  have j: "join16 (byte_at w 0) (byte_at w 8) = w" for w by (rule join16_byte_at)
  have z: "mg_of 256 = 1000" by (simp add: mg_of_def sdiv_32)
  show "sint (x_mg a) = mg_of (wobble ! unat (t AND 15))"
    "sint (y_mg a) = mg_of (wobble ! unat ((t + 4) AND 15))" "sint (z_mg a) = 1000"
    using decode_bytes [of "sample_bytes t"] assms j [of 256]
    by (auto simp: sample_bytes_def le16_def j z)
qed

section \<open>The order of the transfers\<close>

text \<open>
  A bus that records its transfers and answers the \<open>n\<close>-th one as it pleases: with a status
  and, for a read, a byte. It stands for every backend.
\<close>

datatype bus_op = Bus_write u8 "u8 list" | Bus_write_read u8 "u8 list" nat

type_synonym answers = "nat \<Rightarrow> int \<times> u8"

type_synonym bus_log = "answers \<times> bus_op list"

definition cells :: "mem option \<Rightarrow> nat \<Rightarrow> u8 list" where
  "cells p n = map the (take n (case p of None \<Rightarrow> [] | Some m \<Rightarrow> m))"

definition log_write :: "bus_log write_fn" where
  "log_write c addr data len =
     (case c of (ans, ops) \<Rightarrow>
        Some (fst (ans (length ops)), ans, ops @ [Bus_write addr (cells data len)]))"

definition log_write_read :: "bus_log write_read_fn" where
  "log_write_read c addr wdata wlen rdata rlen =
     (case c of (ans, ops) \<Rightarrow>
        Some (fst (ans (length ops)), (ans, ops @ [Bus_write_read addr (cells wdata wlen) rlen]),
              map_option (map (\<lambda>_. Some (snd (ans (length ops))))) rdata))"

text \<open>The data sheet's start-up sequence, with measurement switched on last.\<close>

definition init_script :: "bus_op list" where
  "init_script =
     [Bus_write_read 0x53 [0x00] 1,
      Bus_write 0x53 [0x31, 0x0B],
      Bus_write 0x53 [0x2C, 0x0A],
      Bus_write 0x53 [0x2D, 0x08]]"

lemma below_3: "(\<forall>i<3. P i) \<longleftrightarrow> P 0 \<and> P 1 \<and> P (2 :: nat)"
    "(\<forall>i<2. P i) \<longleftrightarrow> P 0 \<and> P (1 :: nat)"
  by (auto simp: numeral_3_eq_3 numeral_2_eq_2 less_Suc_eq)

section \<open>Properties\<close>

text \<open>Initialisation on a bus with arbitrary answers, transfer by transfer.\<close>

lemma adxl345_init_answers:
  fixes ans :: answers
  defines "bus \<equiv> \<lambda>k. chip_bus log_write log_write_read (ans, take k init_script)"
  shows "adxl345_init (Some (chip_bus log_write log_write_read (ans, []))) =
      (if fst (ans 0) \<noteq> I2C_OK then Some (ADXL345_E_BUS, Some (bus 1))
       else if snd (ans 0) \<noteq> 0xE5 then Some (ADXL345_E_WRONG_DEVID, Some (bus 1))
       else if fst (ans 1) \<noteq> I2C_OK then Some (ADXL345_E_BUS, Some (bus 2))
       else if fst (ans 2) \<noteq> I2C_OK then Some (ADXL345_E_BUS, Some (bus 3))
       else if fst (ans 3) \<noteq> I2C_OK then Some (ADXL345_E_BUS, Some (bus 4))
       else Some (ADXL345_OK, Some (bus 4)))"
  by (simp add: adxl345_init_def reg_read_def reg_write_def log_write_def log_write_read_def
      bus_def cells_def init_script_def adxl_regs adxl_codes format_config ADXL345_DEVID_VALUE_def
      ADXL345_RATE_100HZ_def ADXL345_POWER_CTL_MEASURE_def numeral_2_eq_2 numeral_3_eq_3)

text \<open>
  C24: the start-up protocol. On any bus, whatever it answers, initialisation makes an initial
  piece of the sequence identity read, data format, rate, measure; it stops at the first
  transfer that fails, with \<open>E_BUS\<close>, or after the identity if it is not \<open>0xE5\<close>, with
  \<open>E_WRONG_DEVID\<close>, and returns OK exactly when all four went through. So measurement is
  never switched on before the configuration is complete.
\<close>

theorem init_protocol:
  "\<exists>rc k. adxl345_init (Some (chip_bus log_write log_write_read (ans, []))) =
             Some (rc, Some (chip_bus log_write log_write_read (ans, take k init_script))) \<and>
     1 \<le> k \<and> k \<le> 4 \<and> (\<forall>i<k - 1. fst (ans i) = I2C_OK) \<and>
     (rc = ADXL345_E_BUS \<and> fst (ans (k - 1)) \<noteq> I2C_OK \<or>
      rc = ADXL345_E_WRONG_DEVID \<and> k = 1 \<and> fst (ans 0) = I2C_OK \<and> snd (ans 0) \<noteq> 0xE5 \<or>
      rc = ADXL345_OK \<and> k = 4 \<and> fst (ans 3) = I2C_OK \<and> snd (ans 0) = 0xE5)"
proof -
  consider "fst (ans 0) \<noteq> I2C_OK"
    | "fst (ans 0) = I2C_OK" "snd (ans 0) \<noteq> 0xE5"
    | "fst (ans 0) = I2C_OK" "snd (ans 0) = 0xE5" "fst (ans 1) \<noteq> I2C_OK"
    | "fst (ans 0) = I2C_OK" "snd (ans 0) = 0xE5" "fst (ans 1) = I2C_OK" "fst (ans 2) \<noteq> I2C_OK"
    | "fst (ans 0) = I2C_OK" "snd (ans 0) = 0xE5" "fst (ans 1) = I2C_OK" "fst (ans 2) = I2C_OK"
      "fst (ans 3) \<noteq> I2C_OK"
    | "fst (ans 0) = I2C_OK" "snd (ans 0) = 0xE5" "fst (ans 1) = I2C_OK" "fst (ans 2) = I2C_OK"
      "fst (ans 3) = I2C_OK"
    by blast
  then show ?thesis
  proof cases
    case 1 then show ?thesis unfolding adxl345_init_answers
      by (intro exI [of _ ADXL345_E_BUS] exI [of _ 1]) simp
  next
    case 2 then show ?thesis unfolding adxl345_init_answers
      by (intro exI [of _ ADXL345_E_WRONG_DEVID] exI [of _ 1]) simp
  next
    case 3 then show ?thesis unfolding adxl345_init_answers
      by (intro exI [of _ ADXL345_E_BUS] exI [of _ 2]) simp
  next
    case 4 then show ?thesis unfolding adxl345_init_answers
      by (intro exI [of _ ADXL345_E_BUS] exI [of _ 3]) (simp add: below_3)
  next
    case 5 then show ?thesis unfolding adxl345_init_answers
      by (intro exI [of _ ADXL345_E_BUS] exI [of _ 4]) (simp add: below_3)
  next
    case 6 then show ?thesis unfolding adxl345_init_answers
      by (intro exI [of _ ADXL345_OK] exI [of _ 4]) (simp add: below_3)
  qed
qed

theorem init_protocol_witness:
  "\<exists>rc k. adxl345_init (Some (chip_bus log_write log_write_read (\<lambda>n. (if n = 2 then -2 else 0, 0xE5), []))) =
       Some (rc, Some (chip_bus log_write log_write_read
                   (\<lambda>n. (if n = 2 then -2 else 0, 0xE5), take k init_script))) \<and>
     1 \<le> k \<and> k \<le> 4"
  using init_protocol [of "\<lambda>n. (if n = 2 then -2 else 0, 0xE5)"] by blast

text \<open>
  Initialisation on the simulated chip. If the identity register holds \<open>0xE5\<close>, the
  driver reports success and the chip is in full resolution, 16 g range, 100 Hz, measuring;
  no other register outside the sample registers has changed, and no sample was drawn.
\<close>

lemma init_configures:
  assumes "sim_ok s" and "regs_of s ! SIM_REG_DEVID = 0xE5"
  shows "\<exists>s'. adxl345_init (i2c_sim_bind (Some bus) (Some s)) =
           Some (ADXL345_OK, i2c_sim_bind (Some bus) (Some s')) \<and> sim_ok s' \<and>
         regs_of s' ! 0x31 = 0x0B \<and> regs_of s' ! 0x2C = 0x0A \<and> regs_of s' ! 0x2D = 0x08 \<and>
         sim_phase s' = sim_phase s \<and>
         (\<forall>i<50. i \<notin> {0x31, 0x2C, 0x2D} \<longrightarrow> regs_of s' ! i = regs_of s ! i)"
proof -
  obtain c' where c': "adxl345_init (Some (chip_bus sim_write sim_write_read (Some s))) =
      Some (ADXL345_OK, Some (chip_bus sim_write sim_write_read c'))"
    "chip_inv c'" "chip_reg c' = configured (chip_reg (Some s))" "chip_clock c' = chip_clock (Some s)"
    using simchip.init_good [of "Some s"] assms by (auto simp: chip_inv_def chip_reg_def)
  then obtain s' where s': "c' = Some s'" "sim_ok s'" "sim_phase s' = sim_phase s"
    by (auto simp: chip_defs split: option.splits)
  have reg: "regs_of s' ! i = configured (chip_reg (Some s)) (of_nat i)" if "i < 58" for i
    using fun_cong [OF c'(3), of "of_nat i"] that
    by (simp add: s'(1) chip_reg_def unat_of_nat)
  have "regs_of s' ! i = regs_of s ! i" if "i < 50" "i \<notin> {0x31, 0x2C, 0x2D}" for i
  proof -
    have u: "unat (of_nat i :: u8) = i" using that(1) by (simp add: unat_of_nat)
    then have "of_nat i \<noteq> (0x31 :: u8)" "of_nat i \<noteq> (0x2C :: u8)" "of_nat i \<noteq> (0x2D :: u8)"
      using that(2) by auto
    then show ?thesis using reg [of i] that(1) u by (simp add: configured_def chip_reg_def)
  qed
  moreover have "regs_of s' ! 0x31 = 0x0B \<and> regs_of s' ! 0x2C = 0x0A \<and> regs_of s' ! 0x2D = 0x08"
    using reg [of "0x31"] reg [of "0x2C"] reg [of "0x2D"] by (simp add: configured_def)
  ultimately show ?thesis using c'(1) s' by (auto simp: bind_chip_bus)
qed

text \<open>
  A foreign chip is left alone. If the identity register holds anything else, both
  initialisation and self-test report \<open>E_WRONG_DEVID\<close>, and no register has been written.
\<close>

lemma wrong_device_untouched:
  assumes "sim_ok s" and "regs_of s ! SIM_REG_DEVID \<noteq> 0xE5"
  shows "\<exists>s1 s2.
           adxl345_init (i2c_sim_bind (Some bus) (Some s)) =
             Some (ADXL345_E_WRONG_DEVID, i2c_sim_bind (Some bus) (Some s1)) \<and> regs_of s1 = regs_of s \<and>
           adxl345_selftest (i2c_sim_bind (Some bus) (Some s)) =
             Some (ADXL345_E_WRONG_DEVID, i2c_sim_bind (Some bus) (Some s2)) \<and> regs_of s2 = regs_of s"
proof -
  have id: "chip_inv (Some s)" "chip_reg (Some s) 0x00 \<noteq> 0xE5"
    using assms by (simp_all add: chip_inv_def chip_reg_def)
  show ?thesis
    using simchip.init_wrong [OF id] simchip.selftest_chip [OF id(1)] id(2)
    by (fastforce simp: bind_chip_bus dest: chip_reg_same [OF assms(1)])
qed

text \<open>
  C27: the scale. Decoding any six bytes has no overflow and no division error; each axis is
  the little-endian signed value times 125 divided by 32, truncated towards zero: within
  one milli-g below the exact value in size, and between -128000 and 127996.
\<close>

theorem decode_value:
  assumes "length raw = 6"
  shows "\<exists>a. adxl345_decode (map Some raw) = Some a \<and>
           [sint (x_mg a), sint (y_mg a), sint (z_mg a)] =
             map mg_of [join16 (raw ! 0) (raw ! 1), join16 (raw ! 2) (raw ! 3), join16 (raw ! 4) (raw ! 5)] \<and>
           (\<forall>w. - 128000 \<le> mg_of w \<and> mg_of w \<le> 127996 \<and>
                abs (32 * mg_of w) \<le> abs (125 * sint w) \<and> abs (125 * sint w) < abs (32 * mg_of w) + 32)"
proof -
  have "abs (32 * mg_of w) \<le> abs (125 * sint w) \<and> abs (125 * sint w) < abs (32 * mg_of w) + 32" for w
    unfolding mg_of_def sdiv_32 by auto
  then show ?thesis using decode_bytes [OF assms] mg_of_range by simp
qed

theorem decode_value_witness:
  "\<exists>a. adxl345_decode (map Some [0xFF, 0xFF, 0x00, 0x80, 0xFF, 0x7F]) = Some a \<and>
     [sint (x_mg a), sint (y_mg a), sint (z_mg a)] =
       map mg_of [join16 0xFF 0xFF, join16 0x00 0x80, join16 0xFF 0x7F]"
  using decode_value [of "[0xFF, 0xFF, 0x00, 0x80, 0xFF, 0x7F]"] by auto

text \<open>
  A reading of the simulated chip. While it measures, \<open>adxl345_read\<close> succeeds, leaves it
  measuring and one phase on, and returns the scaled sample of the phase: the wobble table
  for the first axis, the table a quarter period later for the second, 1000 for the third.
\<close>

lemma read_sample:
  assumes "sim_ok s" and "bit (regs_of s ! SIM_REG_POWER_CTL) 3"
  shows "\<exists>s' a. adxl345_read (i2c_sim_bind (Some bus) (Some s)) (Some out) =
             Some (ADXL345_OK, i2c_sim_bind (Some bus) (Some s'), Some a) \<and>
           sim_ok s' \<and> bit (regs_of s' ! SIM_REG_POWER_CTL) 3 \<and> sim_phase s' = sim_phase s + 1 \<and>
           sint (x_mg a) = mg_of (wobble ! unat (sim_phase s AND 15)) \<and>
           sint (y_mg a) = mg_of (wobble ! unat ((sim_phase s + 4) AND 15)) \<and>
           sint (z_mg a) = 1000"
proof -
  have chip: "chip_inv (Some s)" "bit (chip_reg (Some s) 0x2D) 3" "chip_clock (Some s) = sim_phase s"
    using assms by (simp_all add: chip_defs)
  obtain c' a where read:
    "adxl345_read (Some (chip_bus sim_write sim_write_read (Some s))) (Some out) =
       Some (ADXL345_OK, Some (chip_bus sim_write sim_write_read c'), Some a)"
    "adxl345_decode (map Some (sample_bytes (sim_phase s))) = Some a" "chip_inv c'"
    "\<forall>r. plain_reg r \<longrightarrow> chip_reg c' r = chip_reg (Some s) r" "chip_clock c' = sim_phase s + 1"
    using simchip.read_good [OF chip(1,2), of out] unfolding chip(3) by blast
  obtain s' where s': "c' = Some s'" "sim_ok s'" "sim_phase s' = sim_phase s + 1"
    using read(3,5) by (auto simp: chip_defs split: option.splits)
  have "plain_reg 0x2D" by (simp add: plain_reg_def)
  then have "bit (regs_of s' ! SIM_REG_POWER_CTL) 3"
    using read(4) assms(2) by (auto simp: s'(1) chip_reg_def)
  moreover have "sint (x_mg a) = mg_of (wobble ! unat (sim_phase s AND 15)) \<and>
      sint (y_mg a) = mg_of (wobble ! unat ((sim_phase s + 4) AND 15)) \<and> sint (z_mg a) = 1000"
    using sample_axes read(2) by auto
  ultimately show ?thesis using read(1) s' by (auto simp: bind_chip_bus)
qed

text \<open>
  C28: errors of the driver. A null bus, or one with a null method, is refused by all three
  operations with \<open>E_PARAM\<close> before any transfer, and so is a null output pointer; on any bus
  a failing transfer makes reading and self-test return \<open>E_BUS\<close> after this one transfer, and
  reading leaves the caller's sample as it was.
\<close>

theorem driver_errors:
  "(\<not> bus_ok bus \<longrightarrow>
      adxl345_init bus = Some (ADXL345_E_PARAM, bus) \<and>
      adxl345_read bus out = Some (ADXL345_E_PARAM, bus, out) \<and>
      adxl345_selftest bus = Some (ADXL345_E_PARAM, bus)) \<and>
   adxl345_read bus None = Some (ADXL345_E_PARAM, bus, None) \<and>
   (fst (ans 0) \<noteq> I2C_OK \<longrightarrow>
      adxl345_read (Some (chip_bus log_write log_write_read (ans, []))) (Some a) =
        Some (ADXL345_E_BUS,
              Some (chip_bus log_write log_write_read (ans, [Bus_write_read 0x53 [0x32] 6])), Some a) \<and>
      adxl345_selftest (Some (chip_bus log_write log_write_read (ans, []))) =
        Some (ADXL345_E_BUS,
              Some (chip_bus log_write log_write_read (ans, [Bus_write_read 0x53 [0x00] 1]))))"
  by (simp add: adxl345_init_def adxl345_read_def adxl345_selftest_def reg_read_def log_write_read_def
      cells_def adxl_regs adxl_codes)

theorem driver_errors_witness:
  "adxl345_read (Some (chip_bus log_write log_write_read (\<lambda>_. (-1, 0), [])))
     (Some \<lparr>x_mg = 1, y_mg = 2, z_mg = 3\<rparr>) =
   Some (ADXL345_E_BUS,
     Some (chip_bus log_write log_write_read (\<lambda>_. (-1, 0), [Bus_write_read 0x53 [0x32] 6])),
     Some \<lparr>x_mg = 1, y_mg = 2, z_mg = 3\<rparr>) \<and>
   adxl345_init (None :: bus_log i2c_bus option) = Some (ADXL345_E_PARAM, None)"
  using driver_errors [where bus = "None :: bus_log i2c_bus option" and ans = "\<lambda>_. (-1, 0)"
      and a = "\<lparr>x_mg = 1, y_mg = 2, z_mg = 3\<rparr>"]
  by (simp add: I2C_OK_def bus_ok_def)

end
