(* ===== verification/Stellaris_Chip.thy ===== *)
theory Stellaris_Chip
  imports I2c_Stellaris Adxl345
begin

text \<open>
  The hardware backend in front of an accelerometer: on every I2C master that behaves as
  documented, with an ADXL345 on its bus, \<open>i2c_stellaris.c\<close> keeps the same contract as the
  simulator, so that the driver's lemmas hold on the hardware.
\<close>

section \<open>The hardware\<close>

text \<open>
  What the data sheets say of master and chip together. The bus is idle, or the master
  transmits, or it receives and has acknowledged the last byte or not. \<open>v_conf\<close> is what the
  configuration registers hold; then come the master's address and data registers, the byte
  last received, the state of the bus, whether a command is being executed, and the chip's
  register pointer, registers and sampling time.
\<close>

datatype phase = Idle | Transmit | Receive bool

record 't hw_view =
  v_conf :: "u32 \<Rightarrow> u32"
  v_msa :: u32
  v_mdr :: u32
  v_rx :: u8
  v_phase :: phase
  v_busy :: bool
  v_ptr :: u8
  v_regs :: "u8 \<Rightarrow> u8"
  v_clock :: 't





text \<open>The six sample registers for the three axes of a sample.\<close>

definition axis_bytes :: "(u16 \<times> u16 \<times> u16) \<Rightarrow> u8 list" where
  "axis_bytes s = (case s of (x, y, z) \<Rightarrow> le16 x @ le16 y @ le16 z)"

text \<open>A read that starts at \<open>0x32\<close> while the chip measures latches the current sample.\<close>

definition latch :: "('t \<Rightarrow> u16 \<times> u16 \<times> u16) \<Rightarrow> ('t \<Rightarrow> 't) \<Rightarrow> 't hw_view \<Rightarrow> 't hw_view" where
  "latch signal tick v =
     (if v_ptr v = 0x32 \<and> bit (v_regs v 0x2D) 3
      then let bs = axis_bytes (signal (v_clock v)) in
           v\<lparr>v_regs := (\<lambda>r. if 0x32 \<le> r \<and> r \<le> 0x37 then bs ! unat (r - 0x32) else v_regs v r),
             v_clock := tick (v_clock v)\<rparr>
      else v)"



text \<open>A command that was accepted is being executed; with its stop bit (bit 2) the bus is idle after it.\<close>

definition issue :: "u32 \<Rightarrow> phase \<Rightarrow> 't hw_view \<Rightarrow> 't hw_view" where
  "issue cmd p v = v\<lparr>v_phase := (if bit cmd 2 then Idle else p), v_busy := True\<rparr>"






section \<open>One command\<close>





lemma issue_simps [simp]:
  "v_conf (issue cmd p v) = v_conf v" "v_msa (issue cmd p v) = v_msa v"
  by (simp_all add: issue_def)

lemma latch_simps [simp]:
  "v_conf (latch signal tick v) = v_conf v" "v_msa (latch signal tick v) = v_msa v"
  "v_ptr (latch signal tick v) = v_ptr v" "v_phase (latch signal tick v) = v_phase v"
  "v_busy (latch signal tick v) = v_busy v"
  by (simp_all add: latch_def Let_def)




section \<open>Transfers\<close>


















lemma axis_bytes_length [simp]: "length (axis_bytes s) = 6"
  by (simp add: axis_bytes_def case_prod_unfold)



section \<open>The backend is a register chip\<close>


section \<open>Bringing it up\<close>







section \<open>A device that behaves so\<close>








section \<open>Properties\<close>







end
