(* ===== verification/Startup.thy ===== *)
theory Startup
  imports Sharak_Prelude
begin

text \<open>
  \<open>firmware/startup.c\<close>: the vector table and the two loops of the reset handler that
  establish the C runtime before \<open>main\<close>. The linker's symbols are parameters.
\<close>

section \<open>The vector table\<close>

datatype vector_t = Estack | Reset_Handler_entry | Default_Handler_entry | Null_entry

definition g_vectors :: "vector_t list" where
  "g_vectors =
     [Estack,
      Reset_Handler_entry,
      Default_Handler_entry,
      Default_Handler_entry,
      Default_Handler_entry,
      Default_Handler_entry,
      Default_Handler_entry,
      Null_entry, Null_entry, Null_entry, Null_entry,
      Default_Handler_entry,
      Default_Handler_entry,
      Null_entry,
      Default_Handler_entry,
      Default_Handler_entry]"

section \<open>The reset handler\<close>

text \<open>
  Addresses are natural numbers, a \<open>uint32_t *\<close> moves by four, and the memory maps the
  address of a word to its contents.
\<close>

record linker_symbols =
  sidata :: nat
  sdata :: nat
  edata :: nat
  sbss :: nat
  ebss :: nat

type_synonym word_mem = "nat \<Rightarrow> u32"

function copy_data :: "word_mem \<Rightarrow> nat \<Rightarrow> nat \<Rightarrow> nat \<Rightarrow> word_mem" where
  "copy_data m src dst e =
     (if dst < e then copy_data (m(dst := m src)) (src + 4) (dst + 4) e else m)"
  by pat_completeness auto
termination
  by (relation "measure (\<lambda>(m, src, dst, e). e - dst)") auto

function zero_bss :: "word_mem \<Rightarrow> nat \<Rightarrow> nat \<Rightarrow> word_mem" where
  "zero_bss m b e = (if b < e then zero_bss (m(b := 0)) (b + 4) e else m)"
  by pat_completeness auto
termination
  by (relation "measure (\<lambda>(m, b, e). e - b)") auto

declare copy_data.simps [simp del] zero_bss.simps [simp del]

text \<open>The memory that \<open>main\<close> starts with.\<close>

definition Reset_Handler :: "linker_symbols \<Rightarrow> word_mem \<Rightarrow> word_mem" where
  "Reset_Handler L m =
     (let m = copy_data m (sidata L) (sdata L) (edata L)
      in zero_bss m (sbss L) (ebss L))"

text \<open>
  The catch-all exception handler, and the loop in which \<open>Reset_Handler\<close> traps if \<open>main\<close> should
  return: a loop that never ends, whatever the processor's state.
\<close>

partial_function (option) Default_Handler :: "'s \<Rightarrow> 's option" where
  "Default_Handler s = Default_Handler s"

lemma Default_Handler_traps: "Default_Handler s = None"
  using Default_Handler.raw_induct [of "\<lambda>_ _. False" s] by (cases "Default_Handler s") blast+

section \<open>What it establishes\<close>

text \<open>The word addresses of a section of \<open>n\<close> words.\<close>

definition words :: "nat \<Rightarrow> nat \<Rightarrow> nat list" where
  "words start n = map (\<lambda>i. start + 4 * i) [0..<n]"

lemma words_Suc: "words start (Suc n) = start # words (start + 4) n"
  by (simp add: words_def map_upt_Suc del: upt_Suc)

lemma words_0 [simp]: "words start 0 = []"
  by (simp add: words_def)

lemma words_range: "a \<in> set (words start n) \<Longrightarrow> start \<le> a \<and> a < start + 4 * n"
  by (auto simp: words_def)

lemma words_iff: "a \<in> set (words start n) \<longleftrightarrow> start \<le> a \<and> a < start + 4 * n \<and> 4 dvd a - start"
proof
  assume "start \<le> a \<and> a < start + 4 * n \<and> 4 dvd a - start"
  then have "a = start + 4 * ((a - start) div 4)" "(a - start) div 4 < n" by auto
  then show "a \<in> set (words start n)" by (force simp: words_def)
qed (auto simp: words_def)

lemma copy_data_words:
  assumes "src + 4 * n \<le> dst \<or> dst + 4 * n \<le> src"
  shows "copy_data m src dst (dst + 4 * n) =
         (\<lambda>a. if a \<in> set (words dst n) then m (src + (a - dst)) else m a)"
  using assms
proof (induction n arbitrary: m src dst)
  case 0
  then show ?case by (simp add: copy_data.simps)
next
  case (Suc n)
  have "copy_data m src dst (dst + 4 * Suc n) =
      copy_data (m(dst := m src)) (src + 4) (dst + 4) (dst + 4 + 4 * n)"
    by (subst copy_data.simps) (simp add: algebra_simps)
  also have "\<dots> = (\<lambda>a. if a \<in> set (words (dst + 4) n) then (m(dst := m src)) (src + 4 + (a - (dst + 4)))
        else (m(dst := m src)) a)"
    by (rule Suc.IH) (use Suc.prems in auto)
  also have "\<dots> = (\<lambda>a. if a \<in> set (words dst (Suc n)) then m (src + (a - dst)) else m a)"
    using Suc.prems words_range [of _ "dst + 4" n] by (fastforce simp: words_Suc)
  finally show ?case .
qed

lemma zero_bss_words:
  "zero_bss m b (b + 4 * n) = (\<lambda>a. if a \<in> set (words b n) then 0 else m a)"
proof (induction n arbitrary: m b)
  case 0
  then show ?case by (simp add: zero_bss.simps)
next
  case (Suc n)
  have "zero_bss m b (b + 4 * Suc n) = zero_bss (m(b := 0)) (b + 4) (b + 4 + 4 * n)"
    by (subst zero_bss.simps) (simp add: algebra_simps)
  also have "\<dots> = (\<lambda>a. if a \<in> set (words b (Suc n)) then 0 else m a)"
    unfolding Suc.IH by (auto simp: words_Suc)
  finally show ?case .
qed

text \<open>
  When \<open>main\<close> starts, every word of \<open>.data\<close> holds the initial value stored for it in flash,
  every word of \<open>.bss\<close> is zero, and no other word has changed, provided the linker places the
  sections apart from each other and in whole words.
\<close>

lemma reset_memory:
  assumes "edata L = sdata L + 4 * n" and "ebss L = sbss L + 4 * k"
    and "sidata L + 4 * n \<le> sdata L \<or> edata L \<le> sidata L"
    and "edata L \<le> sbss L \<or> ebss L \<le> sdata L"
  shows "map (Reset_Handler L m) (words (sdata L) n) = map m (words (sidata L) n) \<and>
         map (Reset_Handler L m) (words (sbss L) k) = replicate k 0 \<and>
         (a \<in> set (words (sdata L) n) \<or> a \<in> set (words (sbss L) k) \<or> Reset_Handler L m a = m a)"
proof -
  let ?m1 = "copy_data m (sidata L) (sdata L) (edata L)"
  have m1: "?m1 = (\<lambda>a. if a \<in> set (words (sdata L) n) then m (sidata L + (a - sdata L)) else m a)"
    using copy_data_words [of "sidata L" n "sdata L" m] assms(1,3) by simp
  have run: "Reset_Handler L m = (\<lambda>a. if a \<in> set (words (sbss L) k) then 0 else ?m1 a)"
    using zero_bss_words [of ?m1 "sbss L" k] assms(2) by (simp add: Reset_Handler_def)
  have apart: "a \<notin> set (words (sbss L) k)" if "a \<in> set (words (sdata L) n)" for a
    using words_range [OF that] words_range [of a "sbss L" k] assms(1,2,4) by auto
  have "map (Reset_Handler L m) (words (sdata L) n) =
      map (\<lambda>a. m (sidata L + (a - sdata L))) (words (sdata L) n)"
    using apart by (simp add: run m1)
  also have "\<dots> = map m (words (sidata L) n)" by (simp add: words_def)
  finally have "map (Reset_Handler L m) (words (sdata L) n) = map m (words (sidata L) n)" .
  moreover have "map (Reset_Handler L m) (words (sbss L) k) = replicate k 0"
    by (rule replicate_eqI) (auto simp: run words_def)
  ultimately show ?thesis by (simp add: run m1)
qed

end
