(* ===== verification/Link_Script.thy ===== *)
theory Link_Script
  imports Startup
begin

text \<open>
  \<open>firmware/lm3s6965.ld\<close>: where the linker places vectors, code, data and zeroed objects, and
  the symbols that \<open>startup.c\<close> works with. The script's statements are followed one by one
  for arbitrary input sections; every layout it accepts meets what the reset handler needs.
\<close>

section \<open>Regions and input sections\<close>

record region =
  origin :: nat
  extent :: nat

definition FLASH :: region where "FLASH = \<lparr>origin = 0x00000000, extent = 256 * 1024\<rparr>"
definition RAM :: region where "RAM = \<lparr>origin = 0x20000000, extent = 64 * 1024\<rparr>"

definition region_end :: "region \<Rightarrow> nat" where
  "region_end r = origin r + extent r"

text \<open>An input section of an object file: its name, size and alignment, a power of two.\<close>

record input_section =
  sec_name :: string
  sec_size :: nat
  sec_power :: nat

record link_input =
  in_isr_vector :: "input_section list"
  in_text :: "input_section list"
  in_rodata :: "input_section list"
  in_data :: "input_section list"
  in_bss :: "input_section list"
  in_common :: "input_section list"

section \<open>Placing\<close>

text \<open>\<open>. = ALIGN(n)\<close>: the next multiple of \<open>n\<close>.\<close>

definition align_to :: "nat \<Rightarrow> nat \<Rightarrow> nat" where
  "align_to a n = (a + n - 1) div n * n"

text \<open>Input sections one after the other, each at the next address of its alignment.\<close>

fun place :: "nat \<Rightarrow> input_section list \<Rightarrow> nat" where
  "place a [] = a"
| "place a (s # ss) = place (align_to a (2 ^ sec_power s) + sec_size s) ss"

fun place_each :: "nat \<Rightarrow> input_section list \<Rightarrow> (input_section \<times> nat) list" where
  "place_each a [] = []"
| "place_each a (s # ss) =
     (let b = align_to a (2 ^ sec_power s) in (s, b) # place_each (b + sec_size s) ss)"

text \<open>
  An output section \<open>{ . = ALIGN(4); first = .; contents; . = ALIGN(4); last = .; }\<close>. It is
  itself aligned as strictly as any of its contents.
\<close>

definition power_of :: "input_section list \<Rightarrow> nat" where
  "power_of ss = foldr max (map sec_power ss) 0"

record output_section =
  vma :: nat
  first_at :: nat
  last_at :: nat

definition out_section :: "nat \<Rightarrow> input_section list \<Rightarrow> output_section" where
  "out_section a ss =
     (let v = align_to a (2 ^ power_of ss);
          f = align_to v 4;
          l = align_to (place f ss) 4
      in \<lparr>vma = v, first_at = f, last_at = l\<rparr>)"

section \<open>The script\<close>

text \<open>
  What the script produces: the symbols, the vector table's place, the initial stack pointer,
  where \<open>.data\<close> is stored and addressed, and the address of every zeroed object. Linking fails
  when a region overflows. The load address of \<open>.data\<close> is the next free address in flash: the
  script asks for no alignment there.
\<close>

record image =
  symbols :: linker_symbols
  estack :: nat
  vectors_at :: nat
  data_lma :: nat
  data_vma :: nat
  zeroed :: "(input_section \<times> nat) list"

definition link :: "link_input \<Rightarrow> image option" where
  "link inp =
     (let vec = out_section (origin FLASH) (in_isr_vector inp);
          txt = out_section (last_at vec) (in_text inp @ in_rodata inp);
          lma = last_at txt;
          dat = out_section (origin RAM) (in_data inp);
          bss = out_section (last_at dat) (in_bss inp @ in_common inp)
      in if lma + (last_at dat - vma dat) \<le> region_end FLASH \<and> last_at bss \<le> region_end RAM
         then Some \<lparr>symbols = \<lparr>sidata = lma, sdata = first_at dat, edata = last_at dat,
                               sbss = first_at bss, ebss = last_at bss\<rparr>,
                    estack = region_end RAM, vectors_at = first_at vec,
                    data_lma = lma, data_vma = vma dat,
                    zeroed = place_each (first_at bss) (in_bss inp @ in_common inp)\<rparr>
         else None)"

section \<open>Addresses\<close>

lemma align_to_ge:
  assumes "0 < n" shows "a \<le> align_to a n"
proof -
  have "align_to a n = (a + n - 1) - (a + n - 1) mod n"
    by (simp add: align_to_def minus_mod_eq_div_mult)
  then show ?thesis using mod_less_divisor [OF assms, of "a + n - 1"] by linarith
qed

lemma align_to_dvd [simp]: "n dvd align_to a n"
  by (simp add: align_to_def)

lemma align_to_id:
  assumes "0 < n" and "n dvd a" shows "align_to a n = a"
proof -
  obtain k where k: "a = n * k" using assms(2) by (elim dvdE)
  have "(n * k + n - 1) div n = k" using assms(1) by (intro div_nat_eqI) auto
  then show ?thesis by (simp add: align_to_def k mult.commute)
qed

lemma align_to_ge_pow [simp]: "a \<le> align_to a (2 ^ p)"
  by (simp add: align_to_ge)

lemma align_to_ge_4 [simp]: "a \<le> align_to a 4"
  by (simp add: align_to_ge)

text \<open>An address that is a multiple of four stays one under any further alignment.\<close>

lemma align_to_keeps_4:
  assumes "4 dvd a" shows "4 dvd align_to a (2 ^ p)"
proof (cases "p < 2")
  case True
  then have "(2::nat) ^ p dvd 2 ^ 2" by (intro le_imp_power_dvd) simp
  then have "(2::nat) ^ p dvd a" using assms by (auto intro: dvd_trans)
  then show ?thesis using assms by (simp add: align_to_id)
next
  case False
  then have "(2::nat) ^ 2 dvd 2 ^ p" by (intro le_imp_power_dvd) simp
  then show ?thesis by (auto intro: dvd_trans)
qed

lemma whole_words: "a \<le> e \<Longrightarrow> 4 dvd a \<Longrightarrow> 4 dvd e \<Longrightarrow> \<exists>n. e = a + 4 * n" for a e :: nat
  by (metis dvdE dvd_diff_nat le_add_diff_inverse)

lemma place_ge [simp]: "a \<le> place a ss"
proof (induction ss arbitrary: a)
  case (Cons s ss)
  have "a \<le> align_to a (2 ^ sec_power s) + sec_size s" by (simp add: trans_le_add1)
  then show ?case using Cons [of "align_to a (2 ^ sec_power s) + sec_size s"] by simp
qed simp

lemma out_section_range:
  "vma (out_section a ss) \<ge> a \<and> vma (out_section a ss) \<le> first_at (out_section a ss) \<and>
   place (first_at (out_section a ss)) ss \<le> last_at (out_section a ss) \<and>
   first_at (out_section a ss) \<le> last_at (out_section a ss) \<and>
   4 dvd first_at (out_section a ss) \<and> 4 dvd last_at (out_section a ss)"
  using order_trans [OF place_ge align_to_ge_4] by (simp add: out_section_def Let_def)

text \<open>A section whose region begins at a multiple of four has its first byte there.\<close>

lemma out_section_start:
  assumes "4 dvd a"
  shows "first_at (out_section a ss) = vma (out_section a ss)"
  using align_to_keeps_4 [OF assms] by (simp add: out_section_def Let_def align_to_id)

text \<open>
  The start of RAM has every alignment that an accepted image can ask for: a stricter one
  would push the section out of the region.
\<close>

lemma RAM_aligned:
  assumes "align_to (origin RAM) (2 ^ p) \<le> region_end RAM"
  shows "align_to (origin RAM) (2 ^ p) = origin RAM"
proof (cases "p \<le> 29")
  case True
  then have "(2::nat) ^ p dvd 2 ^ 29" by (rule le_imp_power_dvd)
  then show ?thesis by (intro align_to_id) (simp_all add: RAM_def)
next
  case False
  then have "(2::nat) ^ 30 \<le> 2 ^ p" by (intro power_increasing) auto
  also have "\<dots> \<le> align_to (origin RAM) (2 ^ p)"
  proof (rule dvd_imp_le)
    show "0 < align_to (origin RAM) (2 ^ p)"
      using align_to_ge_pow [of "origin RAM" p] unfolding RAM_def by (simp only: region.simps)
  qed simp
  finally show ?thesis using assms by (simp add: RAM_def region_end_def)
qed

section \<open>What every layout has\<close>

text \<open>The facts the reset handler and \<open>main\<close> need of an image.\<close>

definition layout_ok :: "image \<Rightarrow> bool" where
  "layout_ok img \<longleftrightarrow>
     vectors_at img = 0 \<and> estack img = 0x20010000 \<and>
     sidata (symbols img) = data_lma img \<and> sdata (symbols img) = data_vma img \<and>
     sdata (symbols img) = 0x20000000 \<and>
     sidata (symbols img) + (edata (symbols img) - sdata (symbols img)) \<le> 0x40000 \<and>
     sdata (symbols img) \<le> edata (symbols img) \<and> edata (symbols img) \<le> sbss (symbols img) \<and>
     sbss (symbols img) \<le> ebss (symbols img) \<and> ebss (symbols img) \<le> estack img \<and>
     4 dvd sidata (symbols img) \<and> 4 dvd edata (symbols img) \<and>
     4 dvd sbss (symbols img) \<and> 4 dvd ebss (symbols img)"

lemma link_layout_ok:
  assumes "link inp = Some img" shows "layout_ok img"
proof -
  let ?vec = "out_section (origin FLASH) (in_isr_vector inp)"
  let ?txt = "out_section (last_at ?vec) (in_text inp @ in_rodata inp)"
  let ?lma = "last_at ?txt"
  let ?dat = "out_section (origin RAM) (in_data inp)"
  let ?bss = "out_section (last_at ?dat) (in_bss inp @ in_common inp)"
  have fit: "?lma + (last_at ?dat - vma ?dat) \<le> region_end FLASH" "last_at ?bss \<le> region_end RAM"
    and img: "symbols img = \<lparr>sidata = ?lma, sdata = first_at ?dat, edata = last_at ?dat,
         sbss = first_at ?bss, ebss = last_at ?bss\<rparr>" "estack img = region_end RAM"
      "vectors_at img = first_at ?vec" "data_lma img = ?lma" "data_vma img = vma ?dat"
    using assms by (auto simp: link_def Let_def split: if_splits)
  note range = out_section_range [of "origin RAM" "in_data inp"]
    out_section_range [of "last_at ?dat" "in_bss inp @ in_common inp"]
  have start: "first_at ?dat = vma ?dat" by (rule out_section_start) (simp add: RAM_def)
  have "vma ?dat \<le> region_end RAM" using range fit(2) by linarith
  then have "vma ?dat = origin RAM"
    unfolding out_section_def Let_def output_section.simps by (rule RAM_aligned)
  then have vma: "vma ?dat = 0x20000000" by (simp add: RAM_def)
  have lma: "4 dvd ?lma"
    using out_section_range [of "last_at ?vec" "in_text inp @ in_rodata inp"] by blast
  have vec: "first_at ?vec = 0"
    by (simp add: out_section_def Let_def FLASH_def align_to_id)
  have ends: "region_end FLASH = 0x40000" "region_end RAM = 0x20010000"
    by (simp_all add: region_end_def FLASH_def RAM_def)
  show ?thesis
    using range fit unfolding layout_ok_def img linker_symbols.simps vec vma start ends
    by (simp add: lma)
qed

section \<open>Objects\<close>

text \<open>Two objects placed one after the other, each inside its section and on its alignment.\<close>

definition before :: "input_section \<times> nat \<Rightarrow> input_section \<times> nat \<Rightarrow> bool" where
  "before p q \<longleftrightarrow> snd p + sec_size (fst p) \<le> snd q"

lemma place_each_sections [simp]: "map fst (place_each a ss) = ss"
  by (induction ss arbitrary: a) (simp_all add: Let_def)

lemma place_each_range:
  "p \<in> set (place_each a ss) \<Longrightarrow>
   a \<le> snd p \<and> snd p + sec_size (fst p) \<le> place a ss \<and> 2 ^ sec_power (fst p) dvd snd p"
proof (induction ss arbitrary: a)
  case (Cons s ss)
  let ?b = "align_to a (2 ^ sec_power s)"
  from Cons.prems consider "p = (s, ?b)" | "p \<in> set (place_each (?b + sec_size s) ss)"
    by (auto simp: Let_def)
  then show ?case
  proof cases
    case 2
    have "a \<le> ?b + sec_size s" by (simp add: trans_le_add1)
    with Cons.IH [OF 2] show ?thesis by auto
  qed simp
qed simp

lemma place_each_ordered: "sorted_wrt before (place_each a ss)"
proof (induction ss arbitrary: a)
  case (Cons s ss)
  let ?b = "align_to a (2 ^ sec_power s)"
  have "\<forall>p\<in>set (place_each (?b + sec_size s) ss). before (s, ?b) p"
    using place_each_range [of _ "?b + sec_size s" ss] by (auto simp: before_def)
  then show ?case using Cons by (simp add: Let_def)
qed simp

lemma zeroed_objects:
  assumes "link inp = Some img"
  shows "map fst (zeroed img) = in_bss inp @ in_common inp \<and> sorted_wrt before (zeroed img) \<and>
         (\<forall>p\<in>set (zeroed img). sbss (symbols img) \<le> snd p \<and>
            snd p + sec_size (fst p) \<le> ebss (symbols img) \<and> 2 ^ sec_power (fst p) dvd snd p)"
proof -
  define ss where "ss = in_bss inp @ in_common inp"
  define a where "a = last_at (out_section (origin RAM) (in_data inp))"
  have a: "zeroed img = place_each (first_at (out_section a ss)) ss"
      "sbss (symbols img) = first_at (out_section a ss)" "ebss (symbols img) = last_at (out_section a ss)"
    using assms by (auto simp: link_def Let_def ss_def a_def split: if_splits)
  have "place (first_at (out_section a ss)) ss \<le> last_at (out_section a ss)"
    using out_section_range by blast
  then show ?thesis
    using place_each_range [of _ "first_at (out_section a ss)" ss]
    by (auto simp: a place_each_ordered ss_def [symmetric] intro: order_trans)
qed

section \<open>Properties\<close>

text \<open>
  C23: the memory layout. Whatever sections the linker is given, an image that it accepts has
  the vector table at address 0 and the stack's top at the end of RAM; \<open>.data\<close> is addressed
  from the start of RAM, the place that its symbols name, and stored whole in flash; \<open>.data\<close>,
  \<open>.bss\<close> and the stack's top follow each other in whole words; every zeroed object lies in
  \<open>.bss\<close>, on its alignment, in the order given, and no two of them share a byte.
\<close>

theorem link_layout:
  assumes "link inp = Some img"
  shows "layout_ok img \<and>
         map fst (zeroed img) = in_bss inp @ in_common inp \<and> sorted_wrt before (zeroed img) \<and>
         (\<forall>p\<in>set (zeroed img). sbss (symbols img) \<le> snd p \<and>
            snd p + sec_size (fst p) \<le> ebss (symbols img) \<and> 2 ^ sec_power (fst p) dvd snd p)"
  using link_layout_ok [OF assms] zeroed_objects [OF assms] by blast

text \<open>The objects of \<open>main.c\<close>, in the sections that \<open>-fdata-sections\<close> gives each.\<close>

definition obj :: "string \<Rightarrow> nat \<Rightarrow> nat \<Rightarrow> input_section" where
  "obj n s p = \<lparr>sec_name = n, sec_size = s, sec_power = p\<rparr>"

definition main_objects :: "input_section list" where
  "main_objects =
     [obj ''sim'' 64 2, obj ''bus'' 12 2, obj ''sample'' 12 2, obj ''payload'' 16 0, obj ''frame'' 38 0]"

text \<open>An image with code of an odd size, six bytes of data, and the objects of \<open>main\<close>.\<close>

definition demo_input :: link_input where
  "demo_input =
     \<lparr>in_isr_vector = [obj ''isr_vector'' 64 2], in_text = [obj ''text'' 4099 2], in_rodata = [],
      in_data = [obj ''d1'' 2 1, obj ''d2'' 4 2], in_bss = main_objects, in_common = []\<rparr>"

definition demo_image :: image where
  "demo_image =
     \<lparr>symbols = \<lparr>sidata = 4164, sdata = 0x20000000, edata = 0x20000008, sbss = 0x20000008,
        ebss = 0x20000098\<rparr>, estack = 0x20010000, vectors_at = 0, data_lma = 4164, data_vma = 0x20000000,
      zeroed = zip main_objects [0x20000008, 0x20000048, 0x20000054, 0x20000060, 0x20000070]\<rparr>"

lemma demo_link: "link demo_input = Some demo_image"
  by (simp add: link_def demo_input_def demo_image_def main_objects_def obj_def out_section_def
      power_of_def align_to_def Let_def FLASH_def RAM_def region_end_def)

theorem link_layout_witness:
  "layout_ok demo_image \<and> map fst (zeroed demo_image) = main_objects \<and>
   sorted_wrt before (zeroed demo_image) \<and> sbss (symbols demo_image) \<le> 0x20000070 \<and>
   0x20000070 + 38 \<le> ebss (symbols demo_image)"
  using link_layout [OF demo_link]
  by (simp add: demo_input_def) (simp add: demo_image_def main_objects_def obj_def)

text \<open>
  C22: the C runtime. In every image that the linker accepts, the reset handler gives every
  word of \<open>.data\<close> the initial value that is stored for it in flash and clears every word of
  \<open>.bss\<close>; at every address outside the two it writes nothing, so flash with code and vectors,
  what may lie between \<open>.data\<close> and \<open>.bss\<close>, and the room between \<open>.bss\<close> and the stack's top are as
  they were.
\<close>

theorem image_boots:
  assumes "link inp = Some img"
  shows "(\<forall>i. sdata (symbols img) + 4 * i < edata (symbols img) \<longrightarrow>
            Reset_Handler (symbols img) m (data_vma img + 4 * i) = m (data_lma img + 4 * i)) \<and>
         (\<forall>i. sbss (symbols img) + 4 * i < ebss (symbols img) \<longrightarrow>
            Reset_Handler (symbols img) m (sbss (symbols img) + 4 * i) = 0) \<and>
         (\<forall>a. a \<notin> {sdata (symbols img)..<edata (symbols img)} \<and>
              a \<notin> {sbss (symbols img)..<ebss (symbols img)} \<longrightarrow> Reset_Handler (symbols img) m a = m a)"
proof -
  let ?L = "symbols img"
  have ok: "layout_ok img" by (rule link_layout_ok [OF assms])
  obtain n where n: "edata ?L = sdata ?L + 4 * n"
    using ok whole_words [of "sdata ?L" "edata ?L"] by (auto simp: layout_ok_def)
  obtain k where k: "ebss ?L = sbss ?L + 4 * k"
    using ok whole_words [of "sbss ?L" "ebss ?L"] by (auto simp: layout_ok_def)
  have reset: "map (Reset_Handler ?L m) (words (sdata ?L) n) = map m (words (sidata ?L) n)"
    "map (Reset_Handler ?L m) (words (sbss ?L) k) = replicate k 0"
    "\<And>a. a \<notin> set (words (sdata ?L) n) \<Longrightarrow> a \<notin> set (words (sbss ?L) k) \<Longrightarrow> Reset_Handler ?L m a = m a"
    using reset_memory [OF n k, of m] ok n by (auto simp: layout_ok_def)
  have data: "Reset_Handler ?L m (sdata ?L + 4 * i) = m (sidata ?L + 4 * i)" if "i < n" for i
    using arg_cong [OF reset(1), of "\<lambda>xs. xs ! i"] that by (simp add: words_def)
  have bss: "Reset_Handler ?L m (sbss ?L + 4 * i) = 0" if "i < k" for i
    using arg_cong [OF reset(2), of "\<lambda>xs. xs ! i"] that by (simp add: words_def)
  have other: "Reset_Handler ?L m a = m a" if "a \<notin> {sdata ?L..<edata ?L} \<and> a \<notin> {sbss ?L..<ebss ?L}" for a
  proof (rule reset(3))
    show "a \<notin> set (words (sdata ?L) n)" "a \<notin> set (words (sbss ?L) k)"
      using that n k words_range [of a "sdata ?L" n] words_range [of a "sbss ?L" k] by auto
  qed
  have at: "data_vma img = sdata ?L" "data_lma img = sidata ?L" using ok by (simp_all add: layout_ok_def)
  show ?thesis
  proof (intro conjI allI impI)
    show "Reset_Handler ?L m (data_vma img + 4 * i) = m (data_lma img + 4 * i)"
      if "sdata ?L + 4 * i < edata ?L" for i
      using that n unfolding at by (intro data) simp
    show "Reset_Handler ?L m (sbss ?L + 4 * i) = 0" if "sbss ?L + 4 * i < ebss ?L" for i
      using that k by (intro bss) simp
  qed (rule other)
qed

text \<open>An image with a gap of eight bytes between \<open>.data\<close> and \<open>.bss\<close>.\<close>

definition gap_input :: link_input where
  "gap_input = demo_input\<lparr>in_bss := [obj ''wide'' 16 4]\<rparr>"

definition gap_image :: image where
  "gap_image =
     \<lparr>symbols = \<lparr>sidata = 4164, sdata = 0x20000000, edata = 0x20000008, sbss = 0x20000010,
        ebss = 0x20000020\<rparr>, estack = 0x20010000, vectors_at = 0, data_lma = 4164, data_vma = 0x20000000,
      zeroed = [(obj ''wide'' 16 4, 0x20000010)]\<rparr>"

lemma gap_link: "link gap_input = Some gap_image"
  by (simp add: link_def gap_input_def demo_input_def gap_image_def obj_def out_section_def
      power_of_def align_to_def Let_def FLASH_def RAM_def region_end_def)

theorem image_boots_witness:
  "Reset_Handler (symbols gap_image) of_nat (data_vma gap_image + 4 * 1) =
     of_nat (data_lma gap_image + 4 * 1) \<and>
   Reset_Handler (symbols gap_image) of_nat (0x20000010 + 4 * 3) = 0 \<and>
   Reset_Handler (symbols gap_image) of_nat 0x2000000C = 0x2000000C \<and>
   Reset_Handler (symbols gap_image) of_nat 4168 = 4168"
  using image_boots [OF gap_link, of of_nat]
  by (auto simp: gap_image_def dest: spec [of _ 1] spec [of _ 3] spec [of _ "0x2000000C"] spec [of _ 4168])

end
