(* ===== verification/Crc16.thy ===== *)
theory Crc16
  imports Sharak_Prelude
begin

text \<open>
  The checksum \<open>crc16_ccitt_false\<close> of \<open>protocol/src/protocol.c\<close>, a bitwise CRC-16, and what
  it is worth on the wire: it is the textbook polynomial remainder, a message followed by its
  checksum has residue zero, and two accepted messages of at most 18 bytes (the longest the
  decoder collects) are equal or differ in at least four bits.
\<close>

section \<open>The routine\<close>

text \<open>One turn of the inner loop: shift left, subtract the polynomial if a one falls out.\<close>

definition crc_bit :: "u16 \<Rightarrow> u16" where
  "crc_bit crc =
     (if crc AND 0x8000 \<noteq> 0 then push_bit 1 crc XOR 0x1021 else push_bit 1 crc)"

text \<open>The inner loop, \<open>n\<close> turns.\<close>

primrec crc_bits :: "nat \<Rightarrow> u16 \<Rightarrow> u16" where
  "crc_bits 0 crc = crc"
| "crc_bits (Suc n) crc = crc_bits n (crc_bit crc)"

text \<open>The body of the outer loop: bring the byte into the high half, then eight turns.\<close>

definition crc_byte :: "u16 \<Rightarrow> u8 \<Rightarrow> u16" where
  "crc_byte crc d = crc_bits 8 (crc XOR push_bit 8 (ucast d))"

function crc_loop :: "mem \<Rightarrow> nat \<Rightarrow> nat \<Rightarrow> u16 \<Rightarrow> u16 option" where
  "crc_loop data i len crc =
     (if i < len
      then do { d \<leftarrow> rd data i; crc_loop data (Suc i) len (crc_byte crc d) }
      else Some crc)"
  by pat_completeness auto
termination
  by (relation "measure (\<lambda>(data, i, len, crc). len - i)") auto

declare crc_loop.simps [simp del]

definition crc16_ccitt_false :: "mem option \<Rightarrow> nat \<Rightarrow> u16 option" where
  "crc16_ccitt_false data len =
     (case data of
        None \<Rightarrow> Some 0xFFFF
      | Some m \<Rightarrow> crc_loop m 0 len 0xFFFF)"

text \<open>On the bytes themselves, the loop is a fold.\<close>

definition crc_run :: "u16 \<Rightarrow> u8 list \<Rightarrow> u16" where
  "crc_run c p = foldl crc_byte c p"

abbreviation crc_of :: "u8 list \<Rightarrow> u16" where
  "crc_of p \<equiv> crc_run 0xFFFF p"

lemma crc_run_Nil [simp]: "crc_run c [] = c"
  and crc_run_Cons [simp]: "crc_run c (d # p) = crc_run (crc_byte c d) p"
  and crc_run_append [simp]: "crc_run c (p @ q) = crc_run (crc_run c p) q"
  by (simp_all add: crc_run_def)

lemma crc_loop_run:
  "i \<le> length p \<Longrightarrow> crc_loop (map Some p @ r) i (length p) c = Some (crc_run c (drop i p))"
proof (induction "length p - i" arbitrary: i c)
  case 0
  then show ?case by (simp add: crc_loop.simps)
next
  case (Suc k)
  then have i: "i < length p" by simp
  then have "crc_loop (map Some p @ r) i (length p) c =
        crc_loop (map Some p @ r) (Suc i) (length p) (crc_byte c (p ! i))"
    by (subst crc_loop.simps) (simp add: rd_map_Some)
  also have "\<dots> = Some (crc_run (crc_byte c (p ! i)) (drop (Suc i) p))"
    using Suc i by simp
  finally show ?case using i by (simp flip: Cons_nth_drop_Suc)
qed

lemma crc16_bytes:
  "crc16_ccitt_false (Some (map Some p @ r)) (length p) = Some (crc_of p)"
  using crc_loop_run [of 0 p r] by (simp add: crc16_ccitt_false_def)

section \<open>Shift registers that are linear\<close>

text \<open>
  The bit-serial view: a message bit enters at the top of the register, then the register
  makes one step. Everything the frame layer needs of the checksum follows from three laws
  of the step, stated as an interface.
\<close>

definition absorb :: "(u16 \<Rightarrow> u16) \<Rightarrow> u16 \<Rightarrow> bool \<Rightarrow> u16" where
  "absorb stp c b = stp (c XOR (if b then 0x8000 else 0))"

definition feed_bits :: "(u16 \<Rightarrow> u16) \<Rightarrow> u16 \<Rightarrow> bool list \<Rightarrow> u16" where
  "feed_bits stp c bs = foldl (absorb stp) c bs"

lemma feed_bits_Nil [simp]: "feed_bits stp c [] = c"
  and feed_bits_Cons [simp]: "feed_bits stp c (b # bs) = feed_bits stp (absorb stp c b) bs"
  and feed_bits_append [simp]:
    "feed_bits stp c (bs @ cs) = feed_bits stp (feed_bits stp c bs) cs"
  by (simp_all add: feed_bits_def)

text \<open>A short bit string, left-aligned in the register.\<close>

primrec top_word :: "bool list \<Rightarrow> u16" where
  "top_word [] = 0"
| "top_word (b # bs) = (if b then 0x8000 else 0) XOR drop_bit 1 (top_word bs)"

text \<open>The parity of the low \<open>n\<close> bits of a word, and of a bit string.\<close>

primrec parity_upto :: "nat \<Rightarrow> u16 \<Rightarrow> bool" where
  "parity_upto 0 w = False"
| "parity_upto (Suc n) w = (bit w n \<noteq> parity_upto n w)"

definition odd_ones :: "bool list \<Rightarrow> bool" where
  "odd_ones bs = odd (length (filter id bs))"

lemma bit_8000: "bit (0x8000 :: u16) n \<longleftrightarrow> n = 15"
proof -
  have "(0x8000 :: u16) = 2 ^ 15" by simp
  then show ?thesis by (simp only: bit_exp_iff) auto
qed

lemma and_8000: "c AND 0x8000 \<noteq> 0 \<longleftrightarrow> bit c 15" for c :: u16
proof -
  have "(0x8000 :: u16) = 2 ^ 15" by simp
  then show ?thesis by (simp only: and_exp_eq_0_iff_not_bit not_not)
qed

lemma parity_upto_zero [simp]: "\<not> parity_upto n 0"
  by (induction n) auto

lemma parity_upto_xor: "parity_upto n (a XOR b) = (parity_upto n a \<noteq> parity_upto n b)"
  by (induction n) (auto simp: bit_xor_iff)

lemma bit_shl1: "bit (push_bit 1 w) n \<longleftrightarrow> n < 16 \<and> 0 < n \<and> bit w (n - 1)" for w :: u16
  by (auto simp: bit_push_bit_iff simp del: push_bit_Suc)

lemmas bit_shl = bit_shl1 bit_shl1 [unfolded One_nat_def]

lemma xor_zero_iff: "a XOR b = 0 \<longleftrightarrow> a = b" for a b :: "'a::len word"
  by (metis xor.assoc xor.left_neutral xor_self_eq)

lemma parity_upto_push: "n < 16 \<Longrightarrow> parity_upto (Suc n) (push_bit 1 w) = parity_upto n w"
  by (induction n) (simp_all only: parity_upto.simps bit_shl1, auto)

locale linear_register =
  fixes stp :: "u16 \<Rightarrow> u16"
  assumes step_xor: "stp (a XOR b) = stp a XOR stp b"
    and step_kernel: "stp a = 0 \<Longrightarrow> a = 0"
    and step_shift: "\<not> bit a 15 \<Longrightarrow> stp a = push_bit 1 a"
begin

lemma step_zero: "stp 0 = 0"
  using step_xor [of 0 0] by simp

lemma funpow_xor: "(stp ^^ n) (a XOR b) = (stp ^^ n) a XOR (stp ^^ n) b"
  by (induction n) (simp_all add: step_xor)

lemma funpow_kernel: "(stp ^^ n) a = 0 \<Longrightarrow> a = 0"
  by (induction n) (auto dest: step_kernel)

lemma funpow_zero: "(stp ^^ n) 0 = 0"
  by (induction n) (simp_all add: step_zero)

lemma absorb_xor: "absorb stp (a XOR b) (x \<noteq> y) = absorb stp a x XOR absorb stp b y"
  by (cases x; cases y) (simp_all add: absorb_def step_xor ac_simps)

lemma feed_xor:
  "length xs = length ys \<Longrightarrow>
   feed_bits stp (a XOR b) (map2 (\<noteq>) xs ys) = feed_bits stp a xs XOR feed_bits stp b ys"
  by (induction xs ys arbitrary: a b rule: list_induct2) (simp_all only: list.map zip_Cons_Cons
      zip_Nil feed_bits_Nil feed_bits_Cons prod.case absorb_xor)

lemma feed_zeros: "feed_bits stp c (replicate n False) = (stp ^^ n) c"
  by (induction n arbitrary: c) (simp_all add: absorb_def funpow_swap1)

text \<open>Two equally long messages with the same residue differ by a pattern of residue zero.\<close>

lemma same_residue_iff:
  assumes "length xs = length ys"
  shows "feed_bits stp c xs = feed_bits stp c ys \<longleftrightarrow> feed_bits stp 0 (map2 (\<noteq>) xs ys) = 0"
  using feed_xor [OF assms, of c c] by (simp add: xor_zero_iff)

text \<open>Up to 16 bits enter the register as one left-aligned word.\<close>

lemma top_word_low: "length bs \<le> n \<Longrightarrow> n \<le> 16 \<Longrightarrow> i < 16 - n \<Longrightarrow> \<not> bit (top_word bs) i"
proof (induction bs arbitrary: n i)
  case Nil
  then show ?case by simp
next
  case (Cons b bs)
  have "\<not> bit (top_word bs) (Suc i)"
    by (rule Cons.IH [of "n - 1"]) (use Cons.prems in auto)
  moreover have "i \<noteq> 15" using Cons.prems by auto
  ultimately show ?case
    by (simp add: bit_xor_iff bit_drop_bit_eq bit_8000 del: bit_numeral_word_iff)
qed

lemma feed_top_word:
  "length bs \<le> 16 \<Longrightarrow> feed_bits stp c bs = (stp ^^ length bs) (c XOR top_word bs)"
proof (induction bs arbitrary: c)
  case Nil
  then show ?case by simp
next
  case (Cons b bs)
  have low: "\<not> bit (top_word bs) 0"
    using Cons.prems top_word_low [of bs 15 0] by simp
  have "\<not> bit (drop_bit 1 (top_word bs)) 15"
    using bit_imp_le_length [of "top_word bs" 16] by (auto simp: bit_drop_bit_eq)
  then have "stp (drop_bit 1 (top_word bs)) = push_bit 1 (drop_bit 1 (top_word bs))"
    by (rule step_shift)
  also have "\<dots> = top_word bs"
  proof (rule bit_word_eqI)
    fix n assume "n < LENGTH(16)"
    then show "bit (push_bit 1 (drop_bit 1 (top_word bs))) n = bit (top_word bs) n"
      using low by (cases n) (auto simp: bit_shl bit_drop_bit_eq simp del: push_bit_Suc)
  qed
  finally have s: "stp (drop_bit 1 (top_word bs)) = top_word bs" .
  have "feed_bits stp c (b # bs) = (stp ^^ length bs) (absorb stp c b XOR top_word bs)"
    using Cons by simp
  also have "absorb stp c b XOR top_word bs = stp (c XOR top_word (b # bs))"
    by (simp only: absorb_def top_word.simps step_xor s xor.assoc)
  finally show ?case by (simp add: funpow_swap1)
qed

text \<open>A nonzero error pattern that fits a window of 16 bits leaves a nonzero residue.\<close>

lemma burst_nonzero:
  assumes e: "e = replicate i False @ vs @ replicate j False" and short: "length vs \<le> 16"
    and zero: "feed_bits stp 0 e = 0"
  shows "top_word vs = 0"
proof -
  have "feed_bits stp 0 e = (stp ^^ j) ((stp ^^ length vs) (top_word vs))"
    unfolding e by (simp add: feed_zeros funpow_zero feed_top_word [OF short])
  then show ?thesis using zero by (auto dest!: funpow_kernel)
qed

end

text \<open>
  A register whose step also keeps the parity and does not return the top bit to its place
  within 143 steps gives a code of distance four on messages of up to 144 bits.
\<close>

locale distance_four = linear_register +
  assumes step_parity: "parity_upto 16 (stp a) = parity_upto 16 a"
    and no_short_cycle: "0 < d \<Longrightarrow> d < 144 \<Longrightarrow> (stp ^^ d) 0x8000 \<noteq> 0x8000"
begin

lemma absorb_parity: "parity_upto 16 (absorb stp c b) = (parity_upto 16 c \<noteq> b)"
proof -
  have "parity_upto 16 (0x8000 :: u16)" by code_simp
  then show ?thesis by (simp add: absorb_def step_parity parity_upto_xor del: parity_upto.simps)
qed

lemma feed_parity: "parity_upto 16 (feed_bits stp c bs) = (parity_upto 16 c \<noteq> odd_ones bs)"
  by (induction bs arbitrary: c) (auto simp: odd_ones_def absorb_parity)

lemma even_ones_of_zero: "feed_bits stp 0 e = 0 \<Longrightarrow> even (length (filter id e))"
  using feed_parity [of 0 e] by (simp add: odd_ones_def)

lemma two_ones_nonzero:
  assumes "length e \<le> 144" and "length (filter id e) = 2"
  shows "feed_bits stp 0 e \<noteq> 0"
proof
  assume zero: "feed_bits stp 0 e = 0"
  from assms(2) obtain x y where "filter id e = [x, y]"
    by (auto simp: numeral_2_eq_2 length_Suc_conv)
  then obtain us vs ws where e: "e = us @ True # vs @ True # ws"
    and no: "\<forall>u\<in>set us. \<not> u" "\<forall>u\<in>set vs. \<not> u" "filter id ws = []"
    by (auto simp: filter_eq_Cons_iff Cons_eq_filter_iff)
  from no have us: "us = replicate (length us) False" and vs: "vs = replicate (length vs) False"
    and ws: "ws = replicate (length ws) False"
    by (auto simp: filter_empty_conv intro!: replicate_eqI)
  let ?d = "Suc (length vs)"
  have us0: "feed_bits stp 0 us = 0" by (subst us) (simp only: feed_zeros funpow_zero)
  have one: "feed_bits stp 0 (us @ True # vs) = (stp ^^ ?d) 0x8000"
    by (simp add: us0 absorb_def, subst vs, simp only: feed_zeros funpow_swap1)
  have "feed_bits stp 0 e = (stp ^^ length ws) (stp ((stp ^^ ?d) 0x8000 XOR 0x8000))"
    using one unfolding e by (simp add: absorb_def, subst ws, simp only: feed_zeros)
  then have "(stp ^^ ?d) 0x8000 = 0x8000"
    using zero by (auto dest!: funpow_kernel step_kernel simp: xor_zero_iff)
  moreover have "?d < 144" using assms(1) by (simp add: e)
  ultimately show False using no_short_cycle [of ?d] by blast
qed

lemma few_ones_nonzero:
  assumes "length e \<le> 144" and "feed_bits stp 0 e = 0"
  shows "filter id e = [] \<or> 4 \<le> length (filter id e)"
proof -
  have "even (length (filter id e))" using assms(2) by (rule even_ones_of_zero)
  moreover have "length (filter id e) \<noteq> 2" using assms two_ones_nonzero by blast
  ultimately have "length (filter id e) \<noteq> 1" "length (filter id e) \<noteq> 2"
    "length (filter id e) \<noteq> 3" by auto
  then have "length (filter id e) = 0 \<or> 4 \<le> length (filter id e)" by linarith
  then show ?thesis by simp
qed

end

section \<open>The checksum as a linear register\<close>

definition bits8 :: "u8 \<Rightarrow> bool list" where
  "bits8 d = map (\<lambda>k. bit d (7 - k)) [0..<8]"

definition bits_of :: "u8 list \<Rightarrow> bool list" where
  "bits_of p = concat (map bits8 p)"

definition be16 :: "u8 \<Rightarrow> u8 \<Rightarrow> u16" where
  "be16 h l = push_bit 8 (ucast h) OR ucast l"

lemma length_bits8 [simp]: "length (bits8 d) = 8"
  by (simp add: bits8_def)

lemma bits_of_Nil [simp]: "bits_of [] = []"
  and bits_of_Cons [simp]: "bits_of (d # p) = bits8 d @ bits_of p"
  and bits_of_append [simp]: "bits_of (p @ q) = bits_of p @ bits_of q"
  by (simp_all add: bits_of_def)

lemma length_bits_of [simp]: "length (bits_of p) = 8 * length p"
  by (induction p) auto

lemma crc_bit_eq: "crc_bit a = push_bit 1 a XOR (if bit a 15 then 0x1021 else 0)"
  by (simp add: crc_bit_def and_8000 del: push_bit_Suc)

lemma crc_bit_xor: "crc_bit (a XOR b) = crc_bit a XOR crc_bit b"
  by (cases "bit a 15"; cases "bit b 15")
    (simp_all add: crc_bit_eq bit_xor_iff push_bit_xor ac_simps del: push_bit_Suc)

lemma crc_bit_kernel:
  assumes "crc_bit a = 0"
  shows "a = 0"
proof -
  have "bit (crc_bit a) 0 \<longleftrightarrow> bit a 15"
    by (simp add: crc_bit_eq bit_xor_iff bit_shl del: push_bit_Suc)
  then have top: "\<not> bit a 15" using assms by simp
  show ?thesis
  proof (rule bit_word_eqI)
    fix n assume n: "n < LENGTH(16)"
    have "bit (push_bit 1 a) (Suc n) = bit (crc_bit a) (Suc n)"
      using top by (simp add: crc_bit_eq)
    then show "bit a n = bit (0 :: u16) n"
      using n top assms by (cases "n = 15") (auto simp: bit_shl simp del: push_bit_Suc)
  qed
qed

interpretation creg: linear_register crc_bit
  by unfold_locales (fact crc_bit_xor, erule crc_bit_kernel, simp add: crc_bit_eq)

lemma crc_bits_funpow: "crc_bits n c = (crc_bit ^^ n) c"
  by (induction n arbitrary: c) (simp_all add: funpow_swap1)

lemma bit_top_word:
  "length bs \<le> 16 \<Longrightarrow> i < 16 \<Longrightarrow>
   bit (top_word bs) i \<longleftrightarrow> 15 - i < length bs \<and> bs ! (15 - i)"
proof (induction bs arbitrary: i)
  case Nil
  then show ?case by simp
next
  case (Cons b bs)
  show ?case
  proof (cases "i = 15")
    case True
    have "\<not> bit (top_word bs) 16" using bit_imp_le_length [of "top_word bs" 16] by auto
    with True show ?thesis
      by (simp add: bit_xor_iff bit_drop_bit_eq bit_8000 del: bit_numeral_word_iff)
  next
    case False
    with Cons.prems have "15 - i = Suc (15 - Suc i)" "Suc i < 16" by auto
    with False Cons.prems Cons.IH [of "Suc i"] show ?thesis
      by (simp add: bit_xor_iff bit_drop_bit_eq bit_8000 del: bit_numeral_word_iff)
  qed
qed

lemma nth_bits8: "k < 8 \<Longrightarrow> bits8 d ! k = bit d (7 - k)"
  by (simp add: bits8_def del: upt_rec_numeral)

lemma bit_be16:
  "bit (be16 h l) i \<longleftrightarrow> (if i < 8 then bit l i else i < 16 \<and> bit h (i - 8))"
  by (auto simp: be16_def bit_or_iff bit_push_bit_iff bit_ucast_iff dest: bit_imp_le_length)

lemma top_word_two: "top_word (bits8 h @ bits8 l) = be16 h l"
proof (rule bit_word_eqI)
  fix i assume i: "i < LENGTH(16)"
  show "bit (top_word (bits8 h @ bits8 l)) i = bit (be16 h l) i"
  proof (cases "i < 8")
    case True
    then have "15 - i - 8 = 7 - i" "7 - (7 - i) = i" "\<not> 15 - i < 8" "15 - i < 16" by auto
    with True i show ?thesis
      by (simp add: bit_top_word bit_be16 nth_append nth_bits8)
  next
    case False
    with i have "15 - i < 8" "7 - (15 - i) = i - 8" by auto
    with False i show ?thesis
      by (simp add: bit_top_word bit_be16 nth_append nth_bits8)
  qed
qed

lemma top_word_one: "top_word (bits8 d) = push_bit 8 (ucast d)"
proof (rule bit_word_eqI)
  fix i assume i: "i < LENGTH(16)"
  show "bit (top_word (bits8 d)) i = bit (push_bit 8 (ucast d) :: u16) i"
  proof (cases "i < 8")
    case True
    then have "\<not> 15 - i < 8" by auto
    with True i show ?thesis by (simp add: bit_top_word bit_push_bit_iff)
  next
    case False
    with i have "15 - i < 8" "7 - (15 - i) = i - 8" "i - 8 < 16" by auto
    with False i show ?thesis
      by (simp add: bit_top_word nth_bits8 bit_push_bit_iff bit_ucast_iff)
  qed
qed

lemma crc_byte_feed: "crc_byte c d = feed_bits crc_bit c (bits8 d)"
  by (simp add: creg.feed_top_word top_word_one crc_byte_def crc_bits_funpow)

lemma crc_run_feed: "crc_run c p = feed_bits crc_bit c (bits_of p)"
  by (induction p arbitrary: c) (simp_all add: crc_byte_feed)

lemma crc_residue: "crc_run c [h, l] = 0 \<longleftrightarrow> c = be16 h l"
proof -
  have "crc_run c [h, l] = (crc_bit ^^ 16) (c XOR be16 h l)"
    using creg.feed_top_word [of "bits8 h @ bits8 l" c]
    by (simp add: crc_run_feed top_word_two)
  then show ?thesis
    using creg.funpow_kernel [of 16 "c XOR be16 h l"] creg.funpow_zero [of 16]
    by (auto simp: xor_zero_iff)
qed

subsection \<open>Parity and cycle length\<close>

lemma crc_bit_parity: "parity_upto 16 (crc_bit a) = parity_upto 16 a"
proof -
  have "parity_upto 16 (push_bit 1 a) = parity_upto 15 a"
    using parity_upto_push [of 15 a] by (simp del: push_bit_Suc parity_upto.simps)
  moreover have "parity_upto 16 a = (bit a 15 \<noteq> parity_upto 15 a)"
    using parity_upto.simps(2) [of 15 a] by (simp del: parity_upto.simps)
  moreover have "parity_upto 16 (0x1021 :: u16)" by code_simp
  ultimately show ?thesis
    by (simp add: crc_bit_eq parity_upto_xor del: push_bit_Suc parity_upto.simps)
qed

primrec no_return :: "nat \<Rightarrow> u16 \<Rightarrow> bool" where
  "no_return 0 c = True"
| "no_return (Suc n) c = (crc_bit c \<noteq> 0x8000 \<and> no_return n (crc_bit c))"

lemma no_return_funpow:
  "no_return n c \<Longrightarrow> 0 < d \<Longrightarrow> d \<le> n \<Longrightarrow> (crc_bit ^^ d) c \<noteq> 0x8000"
proof (induction n arbitrary: c d)
  case 0
  then show ?case by simp
next
  case (Suc n)
  then obtain d' where d: "d = Suc d'" by (cases d) auto
  show ?case
  proof (cases d')
    case 0
    with d Suc.prems show ?thesis by simp
  next
    case (Suc d'')
    have "(crc_bit ^^ d') (crc_bit c) \<noteq> 0x8000"
      by (rule Suc.IH) (use Suc.prems d Suc in auto)
    then show ?thesis by (simp add: d funpow_swap1)
  qed
qed

lemma no_return_143: "no_return 143 0x8000"
  by code_simp

interpretation creg: distance_four crc_bit
proof unfold_locales
  show "parity_upto 16 (crc_bit a) = parity_upto 16 a" for a by (rule crc_bit_parity)
  show "(crc_bit ^^ d) 0x8000 \<noteq> 0x8000" if "0 < d" "d < 144" for d
    using no_return_funpow [OF no_return_143] that by simp
qed

section \<open>The textbook remainder\<close>

text \<open>
  Polynomials over the two-element field are bit lists, highest coefficient first. Long
  division by \<open>x^16 + x^12 + x^5 + 1\<close> subtracts the divisor wherever the leading
  coefficient is one.
\<close>

fun xor_front :: "bool list \<Rightarrow> bool list \<Rightarrow> bool list" where
  "xor_front (x # xs) (y # ys) = (x \<noteq> y) # xor_front xs ys"
| "xor_front xs ys = ys"

definition generator :: "bool list" where
  "generator = [True, False, False, False, True, False, False, False, False,
                False, False, True, False, False, False, False, True]"

lemma length_xor_front [simp]: "length (xor_front xs ys) = length ys"
  by (induction xs ys rule: xor_front.induct) auto

function gf2_rem :: "bool list \<Rightarrow> bool list" where
  "gf2_rem bs =
     (if length bs \<le> 16 then bs
      else gf2_rem (tl (if hd bs then xor_front generator bs else bs)))"
  by pat_completeness auto
termination
  by (relation "measure length") auto

declare gf2_rem.simps [simp del]

definition bits16 :: "u16 \<Rightarrow> bool list" where
  "bits16 c = map (\<lambda>k. bit c (15 - k)) [0..<16]"

text \<open>
  The checksum as its definition says: sixteen zero bits appended to the message, the
  initial register added to the first sixteen bits, and the remainder of the division.
\<close>

definition crc_textbook :: "u8 list \<Rightarrow> bool list" where
  "crc_textbook p =
     gf2_rem (xor_front (replicate 16 True) (bits_of p @ replicate 16 False))"

lemma nth_xor_front:
  "i < length ys \<Longrightarrow> xor_front xs ys ! i = (if i < length xs then xs ! i \<noteq> ys ! i else ys ! i)"
  by (induction xs ys arbitrary: i rule: xor_front.induct) (auto simp: nth_Cons' less_Suc_eq_0_disj)

lemma length_bits16 [simp]: "length (bits16 c) = 16"
  by (simp add: bits16_def)

lemma nth_bits16: "k < 16 \<Longrightarrow> bits16 c ! k = bit c (15 - k)"
  by (simp add: bits16_def del: upt_rec_numeral)

lemma bits16_inject: "bits16 a = bits16 b \<longleftrightarrow> a = b"
proof
  assume eq: "bits16 a = bits16 b"
  show "a = b"
  proof (rule bit_word_eqI)
    fix n assume "n < LENGTH(16)"
    then show "bit a n = bit b n"
      using arg_cong [OF eq, of "\<lambda>xs. xs ! (15 - n)"] by (simp add: nth_bits16)
  qed
qed simp

lemma generator_bits: "generator = True # bits16 0x1021"
  by code_simp

lemma division_step:
  assumes "16 \<le> length ys"
  shows "tl (if bit c 15 \<noteq> b then xor_front generator (xor_front (bits16 c) (b # ys))
             else xor_front (bits16 c) (b # ys)) = xor_front (bits16 (absorb crc_bit c b)) ys"
proof (rule nth_equalityI)
  fix i
  let ?l = "xor_front (bits16 c) (b # ys)"
  assume "i < length (tl (if bit c 15 \<noteq> b then xor_front generator ?l else ?l))"
  then have i: "i < length ys" by (simp split: if_splits)
  have "tl (if bit c 15 \<noteq> b then xor_front generator ?l else ?l) ! i =
        (if bit c 15 \<noteq> b then xor_front generator ?l ! Suc i else ?l ! Suc i)"
    using i by (simp add: nth_tl)
  moreover have "bit (absorb crc_bit c b) (15 - i) =
      (bit c (14 - i) \<noteq> (bit c 15 \<noteq> b \<and> bit (0x1021 :: u16) (15 - i)))" if "i < 15"
    using that by (auto simp: absorb_def crc_bit_eq bit_xor_iff bit_shl bit_8000
        simp del: bit_numeral_word_iff push_bit_Suc)
  moreover have "bit (absorb crc_bit c b) 0 = (bit c 15 \<noteq> b)"
    by (auto simp: absorb_def crc_bit_eq bit_xor_iff bit_shl simp del: push_bit_Suc)
  moreover have "15 - Suc i = 14 - i" by simp
  ultimately show "tl (if bit c 15 \<noteq> b then xor_front generator ?l else ?l) ! i =
      xor_front (bits16 (absorb crc_bit c b)) ys ! i"
    using i by (cases "i < 15"; cases "i = 15")
      (auto simp: nth_xor_front generator_bits nth_bits16)
qed simp

lemma gf2_rem_feed:
  "gf2_rem (xor_front (bits16 c) (bs @ replicate 16 False)) = bits16 (feed_bits crc_bit c bs)"
proof (induction bs arbitrary: c)
  case Nil
  have "xor_front (bits16 c) (replicate 16 False) = bits16 c"
    by (rule nth_equalityI) (simp_all add: nth_xor_front)
  then show ?case by (simp add: gf2_rem.simps)
next
  case (Cons b bs)
  let ?l = "xor_front (bits16 c) (b # bs @ replicate 16 False)"
  have hd: "hd ?l = (bit c 15 \<noteq> b)"
    using nth_xor_front [of 0 "b # bs @ replicate 16 False" "bits16 c"]
    by (simp add: hd_conv_nth nth_bits16 flip: length_greater_0_conv)
  have "gf2_rem ?l = gf2_rem (tl (if hd ?l then xor_front generator ?l else ?l))"
    by (subst gf2_rem.simps) simp
  also have "\<dots> = bits16 (feed_bits crc_bit (absorb crc_bit c b) bs)"
    unfolding hd by (subst division_step) (simp_all only: Cons.IH, simp)
  finally show ?case by simp
qed

lemma crc_of_textbook: "bits16 (crc_of p) = crc_textbook p"
proof -
  have "bits16 0xFFFF = replicate 16 True" by code_simp
  then show ?thesis using gf2_rem_feed [of "0xFFFF" "bits_of p"]
    by (simp add: crc_textbook_def crc_run_feed)
qed

section \<open>What the check detects\<close>

text \<open>A collected frame body is accepted when its last two bytes are the checksum.\<close>

definition crc_valid :: "u8 list \<Rightarrow> bool" where
  "crc_valid inner \<longleftrightarrow>
     2 \<le> length inner \<and>
     crc_of (take (length inner - 2) inner) =
       be16 (inner ! (length inner - 2)) (inner ! (length inner - 1))"

text \<open>Bit errors: the positions where two bodies of one length differ.\<close>

definition bit_errors :: "u8 list \<Rightarrow> u8 list \<Rightarrow> bool list" where
  "bit_errors xs ys = map2 (\<noteq>) (bits_of xs) (bits_of ys)"

definition hamming :: "u8 list \<Rightarrow> u8 list \<Rightarrow> nat" where
  "hamming xs ys = length (filter id (bit_errors xs ys))"

lemma split_last_two:
  assumes "2 \<le> length xs"
  shows "xs = take (length xs - 2) xs @ [xs ! (length xs - 2), xs ! (length xs - 1)]"
proof -
  have "drop (length xs - 2) xs = [xs ! (length xs - 2), xs ! (length xs - 1)]"
    using assms by (simp add: Cons_nth_drop_Suc [symmetric] Suc_diff_le numeral_2_eq_2
        Suc_diff_Suc)
  then show ?thesis by (metis append_take_drop_id)
qed

lemma crc_valid_residue: "crc_valid inner \<longleftrightarrow> 2 \<le> length inner \<and> crc_of inner = 0"
proof (cases "2 \<le> length inner")
  case True
  let ?h = "inner ! (length inner - 2)" and ?l = "inner ! (length inner - 1)"
  have "crc_of inner = crc_run (crc_of (take (length inner - 2) inner)) [?h, ?l]"
    by (subst split_last_two [OF True]) (simp only: crc_run_append)
  with True show ?thesis by (simp only: crc_valid_def crc_residue)
qed (simp add: crc_valid_def)

lemma crc_valid_append:
  "crc_valid (p @ [h, l]) \<longleftrightarrow> crc_of p = be16 h l"
  by (simp add: crc_valid_def nth_append)

lemma bits8_inject: "bits8 a = bits8 b \<Longrightarrow> a = b"
proof (rule bit_word_eqI)
  fix n assume "bits8 a = bits8 b" and "n < LENGTH(8)"
  then show "bit a n = bit b n"
    using nth_bits8 [of "7 - n" a] nth_bits8 [of "7 - n" b] by simp
qed

lemma bits_of_inject:
  "length xs = length ys \<Longrightarrow> bits_of xs = bits_of ys \<Longrightarrow> xs = ys"
  by (induction xs ys rule: list_induct2) (auto dest: bits8_inject)

lemma length_bit_errors [simp]:
  "length xs = length ys \<Longrightarrow> length (bit_errors xs ys) = 8 * length ys"
  by (simp add: bit_errors_def)

lemma no_errors_equal:
  assumes "length xs = length ys" and "\<not> (\<exists>b\<in>set (bit_errors xs ys). b)"
  shows "xs = ys"
proof (rule bits_of_inject [OF assms(1)], rule nth_equalityI)
  fix i assume "i < length (bits_of xs)"
  then have "i < length (bit_errors xs ys)" using assms(1) by simp
  then have "bit_errors xs ys ! i \<in> set (bit_errors xs ys)" by (rule nth_mem)
  moreover have "bit_errors xs ys ! i = (bits_of xs ! i \<noteq> bits_of ys ! i)"
    using \<open>i < length (bits_of xs)\<close> assms(1) by (simp add: bit_errors_def)
  ultimately show "bits_of xs ! i = bits_of ys ! i" using assms(2) by blast
qed (simp add: assms(1))

lemma valid_error_pattern:
  assumes "length xs = length ys" and "crc_valid xs" and "crc_valid ys"
  shows "feed_bits crc_bit 0 (bit_errors xs ys) = 0"
  using assms creg.same_residue_iff [of "bits_of xs" "bits_of ys" "0xFFFF"]
  by (simp add: crc_valid_residue crc_run_feed bit_errors_def)

lemma valid_distance:
  assumes "length xs = length ys" and "length ys \<le> 18" and "crc_valid xs" and "crc_valid ys"
  shows "xs = ys \<or> 4 \<le> hamming xs ys"
proof -
  have "filter id (bit_errors xs ys) = [] \<or> 4 \<le> hamming xs ys"
    unfolding hamming_def
    by (rule creg.few_ones_nonzero) (use assms in \<open>simp_all add: valid_error_pattern\<close>)
  then show ?thesis using assms(1) no_errors_equal by (auto simp: filter_empty_conv)
qed

lemma valid_odd_distance:
  assumes "length xs = length ys" and "crc_valid xs" and "crc_valid ys"
  shows "even (hamming xs ys)"
  unfolding hamming_def
  by (rule creg.even_ones_of_zero) (rule valid_error_pattern [OF assms])

text \<open>All differing bits lie in a window of 16 consecutive bits.\<close>

definition within_burst :: "nat \<Rightarrow> u8 list \<Rightarrow> u8 list \<Rightarrow> bool" where
  "within_burst i xs ys \<longleftrightarrow>
     list_all (\<lambda>k. bit_errors xs ys ! k \<longrightarrow> i \<le> k \<and> k < i + 16)
       [0..<length (bit_errors xs ys)]"

lemma window_split:
  assumes "\<And>k. k < length e \<Longrightarrow> e ! k \<Longrightarrow> i \<le> k \<and> k < i + n"
  shows "\<exists>j. e = replicate (min i (length e)) False @ take n (drop i e) @ replicate j False"
proof -
  have pre: "take i e = replicate (min i (length e)) False"
  proof (rule nth_equalityI)
    fix k assume k: "k < length (take i e)"
    then show "take i e ! k = replicate (min i (length e)) False ! k" using assms [of k] by auto
  qed simp
  have post: "drop (i + n) e = replicate (length e - (i + n)) False"
  proof (rule nth_equalityI)
    fix k assume k: "k < length (drop (i + n) e)"
    then have "i + n + k < length e" by auto
    then show "drop (i + n) e ! k = replicate (length e - (i + n)) False ! k"
      using assms [of "i + n + k"] k by auto
  qed simp
  have "e = take i e @ take n (drop i e) @ drop (i + n) e"
    by (metis append_take_drop_id drop_drop add.commute)
  then show ?thesis unfolding pre post by blast
qed

lemma valid_burst:
  assumes len: "length xs = length ys" and valid: "crc_valid xs" "crc_valid ys"
    and burst: "within_burst i xs ys"
  shows "xs = ys"
proof (rule no_errors_equal [OF len])
  let ?e = "bit_errors xs ys"
  let ?v = "take 16 (drop i ?e)"
  obtain j where e: "?e = replicate (min i (length ?e)) False @ ?v @ replicate j False"
    using window_split [of ?e i 16] burst by (auto simp: within_burst_def list_all_iff)
  have top: "top_word ?v = 0"
    by (rule creg.burst_nonzero [OF e]) (use valid_error_pattern [OF len valid] in simp_all)
  have "\<not> ?v ! k" if k: "k < length ?v" for k
  proof -
    have "k < 16" using k by simp
    then show ?thesis using bit_top_word [of ?v "15 - k"] top k by simp
  qed
  then have "\<not> (\<exists>b\<in>set ?v. b)" by (metis in_set_conv_nth)
  then show "\<not> (\<exists>b\<in>set ?e. b)" by (subst e) auto
qed

lemma crc16_exact: "crc16_ccitt_false (Some (map Some p)) (length p) = Some (crc_of p)"
  using crc16_bytes [of p "[]"] by simp

lemma accepted_valid:
  "crc16_ccitt_false (Some (map Some p)) (length p) = Some (be16 h l) \<Longrightarrow> crc_valid (p @ [h, l])"
  by (simp add: crc16_exact crc_valid_append)

section \<open>Properties\<close>

text \<open>
  C16: the checksum routine reads exactly its \<open>len\<close> bytes, without undefined behaviour, and
  returns the polynomial remainder that defines CRC-16/CCITT-FALSE: message and sixteen zero
  bits, register initially all ones, divided by \<open>x^16 + x^12 + x^5 + 1\<close>.
\<close>

theorem crc_is_remainder:
  "map_option bits16 (crc16_ccitt_false (Some (map Some p @ r)) (length p)) =
   Some (crc_textbook p)"
  by (simp add: crc16_bytes crc_of_textbook)

text \<open>
  The catalogue check value, and the documented value for a null pointer: the routine
  maps the digits \<open>123456789\<close> to \<open>0x29B1\<close> and \<open>NULL\<close> to \<open>0xFFFF\<close>.
\<close>

lemma crc_catalogue:
  "crc16_ccitt_false (Some (map Some [0x31, 0x32, 0x33, 0x34, 0x35, 0x36, 0x37, 0x38, 0x39])) 9 =
     Some 0x29B1 \<and>
   crc16_ccitt_false None n = Some 0xFFFF"
proof
  let ?digits = "[0x31, 0x32, 0x33, 0x34, 0x35, 0x36, 0x37, 0x38, 0x39] :: u8 list"
  have "crc_of ?digits = 0x29B1" by code_simp
  moreover have "length ?digits = 9" by simp
  ultimately show "crc16_ccitt_false (Some (map Some ?digits)) 9 = Some 0x29B1"
    by (metis crc16_exact)
qed (simp add: crc16_ccitt_false_def)

text \<open>
  C17: error detection. Two different bodies of one length, at most 18 bytes, that both carry
  the right checksum (high byte first) differ in an even number of bits, four or more; so an
  accepted body damaged in one, two, three or any odd number of bits is never accepted again.
\<close>

theorem crc_distance:
  assumes "length p = length q" and "length q \<le> 16"
    and "crc16_ccitt_false (Some (map Some p)) (length p) = Some (be16 h l)"
    and "crc16_ccitt_false (Some (map Some q)) (length q) = Some (be16 h' l')"
    and "p @ [h, l] \<noteq> q @ [h', l']"
  shows "4 \<le> hamming (p @ [h, l]) (q @ [h', l']) \<and> even (hamming (p @ [h, l]) (q @ [h', l']))"
proof -
  note valid = accepted_valid [OF assms(3)] accepted_valid [OF assms(4)]
  have len: "length (p @ [h, l]) = length (q @ [h', l'])" "length (q @ [h', l']) \<le> 18"
    using assms(1,2) by simp_all
  show ?thesis
    using valid_distance [OF len valid] valid_odd_distance [OF len(1) valid] assms(5) by blast
qed

theorem crc_distance_witness:
  "4 \<le> hamming ([1, 2] @ [0x0E, 0x7C]) ([1, 3] @ [0x1E, 0x5D])"
  by (rule crc_distance [THEN conjunct1]) (code_simp+)

text \<open>
  Bursts. Damage confined to sixteen consecutive bits of a body of any length is always
  detected: two bodies that both carry the right checksum and differ only inside such a
  window are the same.
\<close>

lemma crc_burst:
  assumes "length p = length q"
    and "crc16_ccitt_false (Some (map Some p)) (length p) = Some (be16 h l)"
    and "crc16_ccitt_false (Some (map Some q)) (length q) = Some (be16 h' l')"
    and "within_burst i (p @ [h, l]) (q @ [h', l'])"
  shows "p = q \<and> h = h' \<and> l = l'"
  using valid_burst [OF _ accepted_valid [OF assms(2)] accepted_valid [OF assms(3)] assms(4)]
    assms(1) by simp

end
