(* ===== verification/Payload.thy ===== *)
theory Payload
  imports Sharak_Prelude
begin

text \<open>
  The message layouts of \<open>protocol/src/protocol.c\<close>: the constants of \<open>protocol.h\<close>, the
  packers and unpackers of the acceleration, temperature and current messages, and the
  layout each of them promises.
\<close>

section \<open>Constants of the wire format\<close>

definition SK_VER :: u8 where "SK_VER = 0x01"
definition SK_TYPE_ACCEL :: u8 where "SK_TYPE_ACCEL = 0x01"
definition SK_TYPE_TEMP :: u8 where "SK_TYPE_TEMP = 0x02"
definition SK_TYPE_CURRENT :: u8 where "SK_TYPE_CURRENT = 0x03"
definition SK_ENVELOPE_LEN :: nat where "SK_ENVELOPE_LEN = 4"
definition SK_PAYLOAD_MAX :: nat where "SK_PAYLOAD_MAX = 16"
definition SK_PAYLOAD_MIN :: nat where "SK_PAYLOAD_MIN = 6"
definition SK_PAYLOAD_LEN :: nat where "SK_PAYLOAD_LEN = SK_PAYLOAD_MAX"

lemmas payload_sizes [simp] =
  SK_ENVELOPE_LEN_def SK_PAYLOAD_MAX_def SK_PAYLOAD_MIN_def SK_PAYLOAD_LEN_def

section \<open>Writing fields\<close>

text \<open>The four assignments that lay out a 32-bit field, low byte first.\<close>

definition put_le32 :: "mem \<Rightarrow> nat \<Rightarrow> u32 \<Rightarrow> mem option" where
  "put_le32 b off u = do {
     b \<leftarrow> wr b off (byte_at u 0);
     b \<leftarrow> wr b (off + 1) (byte_at u 8);
     b \<leftarrow> wr b (off + 2) (byte_at u 16);
     wr b (off + 3) (byte_at u 24)
   }"

definition put_envelope :: "mem \<Rightarrow> u8 \<Rightarrow> u16 \<Rightarrow> mem option" where
  "put_envelope b ty seq = do {
     b \<leftarrow> wr b 0 SK_VER;
     b \<leftarrow> wr b 1 ty;
     put_le16 b 2 seq
   }"

text \<open>
  The packers return the C result and the buffer afterwards. \<open>sk_payload_pack\<close> writes its
  envelope in place, with the same four assignments as \<open>put_envelope\<close>.
\<close>

definition sk_payload_pack ::
  "mem option \<Rightarrow> nat \<Rightarrow> u16 \<Rightarrow> i32 \<Rightarrow> i32 \<Rightarrow> i32 \<Rightarrow> (int \<times> mem option) option" where
  "sk_payload_pack buf cap seq x_mg y_mg z_mg =
     (case buf of
        None \<Rightarrow> Some (-1, None)
      | Some b \<Rightarrow>
          if cap < SK_PAYLOAD_LEN then Some (-1, Some b)
          else do {
            b \<leftarrow> wr b 0 SK_VER;
            b \<leftarrow> wr b 1 SK_TYPE_ACCEL;
            b \<leftarrow> put_le16 b 2 seq;
            b \<leftarrow> put_le32 b 4 x_mg;
            b \<leftarrow> put_le32 b 8 y_mg;
            b \<leftarrow> put_le32 b 12 z_mg;
            Some (int SK_PAYLOAD_LEN, Some b)
          })"

definition sk_pack_temp :: "mem option \<Rightarrow> nat \<Rightarrow> u16 \<Rightarrow> i16 \<Rightarrow> (int \<times> mem option) option" where
  "sk_pack_temp buf cap seq temp_centi_c =
     (case buf of
        None \<Rightarrow> Some (-1, None)
      | Some b \<Rightarrow>
          if cap < SK_PAYLOAD_MIN then Some (-1, Some b)
          else do {
            b \<leftarrow> put_envelope b SK_TYPE_TEMP seq;
            b \<leftarrow> put_le16 b 4 temp_centi_c;
            Some (6, Some b)
          })"

definition sk_pack_current :: "mem option \<Rightarrow> nat \<Rightarrow> u16 \<Rightarrow> i32 \<Rightarrow> (int \<times> mem option) option" where
  "sk_pack_current buf cap seq current_ma =
     (case buf of
        None \<Rightarrow> Some (-1, None)
      | Some b \<Rightarrow>
          if cap < 8 then Some (-1, Some b)
          else do {
            b \<leftarrow> put_envelope b SK_TYPE_CURRENT seq;
            b \<leftarrow> put_le32 b 4 current_ma;
            Some (8, Some b)
          })"

section \<open>Reading fields\<close>

definition get_le16 :: "mem \<Rightarrow> nat \<Rightarrow> u16 option" where
  "get_le16 b off = do {
     b0 \<leftarrow> rd b off;
     b1 \<leftarrow> rd b (off + 1);
     Some (join16 b0 b1)
   }"

definition get_le32 :: "mem \<Rightarrow> nat \<Rightarrow> u32 option" where
  "get_le32 b off = do {
     b0 \<leftarrow> rd b off;
     b1 \<leftarrow> rd b (off + 1);
     b2 \<leftarrow> rd b (off + 2);
     b3 \<leftarrow> rd b (off + 3);
     Some (join32 b0 b1 b2 b3)
   }"

text \<open>
  An unpacker returns the C result and what its output objects hold afterwards; an output
  pointer that is \<open>NULL\<close> is \<open>None\<close> and stays so.
\<close>

definition sk_payload_unpack ::
  "mem option \<Rightarrow> nat \<Rightarrow> u8 option \<Rightarrow> u8 option \<Rightarrow> u16 option \<Rightarrow>
   i32 option \<Rightarrow> i32 option \<Rightarrow> i32 option \<Rightarrow>
   (int \<times> u8 option \<times> u8 option \<times> u16 option \<times> i32 option \<times> i32 option \<times> i32 option) option" where
  "sk_payload_unpack buf len ver type seq x_mg y_mg z_mg =
     (case buf of
        None \<Rightarrow> Some (-1, ver, type, seq, x_mg, y_mg, z_mg)
      | Some b \<Rightarrow>
          if len < SK_PAYLOAD_LEN then Some (-1, ver, type, seq, x_mg, y_mg, z_mg)
          else do {
            ver \<leftarrow> put_out ver (rd b 0);
            type \<leftarrow> put_out type (rd b 1);
            seq \<leftarrow> put_out seq (get_le16 b 2);
            x_mg \<leftarrow> put_out x_mg (get_le32 b 4);
            y_mg \<leftarrow> put_out y_mg (get_le32 b 8);
            z_mg \<leftarrow> put_out z_mg (get_le32 b 12);
            Some (0, ver, type, seq, x_mg, y_mg, z_mg)
          })"

definition sk_envelope_unpack ::
  "mem option \<Rightarrow> nat \<Rightarrow> u8 option \<Rightarrow> u8 option \<Rightarrow> u16 option \<Rightarrow>
   (int \<times> u8 option \<times> u8 option \<times> u16 option) option" where
  "sk_envelope_unpack buf len ver type seq =
     (case buf of
        None \<Rightarrow> Some (-1, ver, type, seq)
      | Some b \<Rightarrow>
          if len < SK_ENVELOPE_LEN then Some (-1, ver, type, seq)
          else do {
            ver \<leftarrow> put_out ver (rd b 0);
            type \<leftarrow> put_out type (rd b 1);
            seq \<leftarrow> put_out seq (get_le16 b 2);
            Some (0, ver, type, seq)
          })"

definition sk_unpack_temp :: "mem option \<Rightarrow> nat \<Rightarrow> i16 option \<Rightarrow> (int \<times> i16 option) option" where
  "sk_unpack_temp buf len temp_centi_c =
     (case buf of
        None \<Rightarrow> Some (-1, temp_centi_c)
      | Some b \<Rightarrow>
          if len < 6 then Some (-1, temp_centi_c)
          else do {
            temp_centi_c \<leftarrow> put_out temp_centi_c (get_le16 b 4);
            Some (0, temp_centi_c)
          })"

definition sk_unpack_current :: "mem option \<Rightarrow> nat \<Rightarrow> i32 option \<Rightarrow> (int \<times> i32 option) option" where
  "sk_unpack_current buf len current_ma =
     (case buf of
        None \<Rightarrow> Some (-1, current_ma)
      | Some b \<Rightarrow>
          if len < 8 then Some (-1, current_ma)
          else do {
            current_ma \<leftarrow> put_out current_ma (get_le32 b 4);
            Some (0, current_ma)
          })"

section \<open>The layouts\<close>

definition le32 :: "u32 \<Rightarrow> u8 list" where
  "le32 w = [byte_at w 0, byte_at w 8, byte_at w 16, byte_at w 24]"

text \<open>The wire-format table of \<open>protocol.h\<close>.\<close>

definition envelope :: "u8 \<Rightarrow> u16 \<Rightarrow> u8 list" where
  "envelope ty seq = [0x01, ty] @ le16 seq"

definition accel_payload :: "u16 \<Rightarrow> i32 \<Rightarrow> i32 \<Rightarrow> i32 \<Rightarrow> u8 list" where
  "accel_payload seq x y z = envelope 0x01 seq @ le32 x @ le32 y @ le32 z"

definition temp_payload :: "u16 \<Rightarrow> i16 \<Rightarrow> u8 list" where
  "temp_payload seq t = envelope 0x02 seq @ le16 t"

definition current_payload :: "u16 \<Rightarrow> i32 \<Rightarrow> u8 list" where
  "current_payload seq c = envelope 0x03 seq @ le32 c"

lemmas layout_defs =
  le16_def le32_def envelope_def accel_payload_def temp_payload_def current_payload_def

lemma length_payloads [simp]:
  "length (accel_payload seq x y z) = 16"
  "length (temp_payload seq t) = 6"
  "length (current_payload seq c) = 8"
  by (simp_all add: layout_defs)

text \<open>
  The packers write each field just behind what they have written so far; each of these
  facts extends the prefix by one field.
\<close>

lemma put_le32_filled:
  "i = length p \<Longrightarrow> i + 4 \<le> length m \<Longrightarrow>
   put_le32 (filled p m) i w = Some (filled (p @ le32 w) m)"
  by (simp add: put_le32_def wr_filled le32_def)

lemmas put_filled = wr_first wr_filled put_le16_filled put_le32_filled

lemma length_le32 [simp]: "length (le32 u) = 4"
  by (simp add: le32_def)

lemma put_envelope_filled:
  "4 \<le> length m \<Longrightarrow> put_envelope m ty seq = Some (filled (envelope ty seq) m)"
  using room_nonempty [of 4 m]
  by (simp add: put_envelope_def envelope_def SK_VER_def put_filled)

lemma length_envelope [simp]: "length (envelope ty seq) = 4"
  by (simp add: envelope_def)

lemma sk_payload_pack_ok:
  assumes "16 \<le> cap" and "cap \<le> length m"
  shows "sk_payload_pack (Some m) cap seq x y z =
         Some (16, Some (filled (accel_payload seq x y z) m))"
  using assms room_nonempty [of cap m]
  by (simp add: sk_payload_pack_def accel_payload_def envelope_def SK_VER_def SK_TYPE_ACCEL_def
      put_filled)

lemma sk_pack_temp_ok:
  assumes "6 \<le> cap" and "cap \<le> length m"
  shows "sk_pack_temp (Some m) cap seq t = Some (6, Some (filled (temp_payload seq t) m))"
  using assms
  by (simp add: sk_pack_temp_def temp_payload_def SK_TYPE_TEMP_def put_envelope_filled put_filled)

lemma sk_pack_current_ok:
  assumes "8 \<le> cap" and "cap \<le> length m"
  shows "sk_pack_current (Some m) cap seq c =
         Some (8, Some (filled (current_payload seq c) m))"
  using assms
  by (simp add: sk_pack_current_def current_payload_def SK_TYPE_CURRENT_def put_envelope_filled
      put_filled)

lemma get_le16_at:
  "get_le16 (map Some (p @ le16 w @ q) @ r) (length p) = Some w"
  using rd_map_Some [of "length p" "p @ le16 w @ q" r]
    rd_map_Some [of "Suc (length p)" "p @ le16 w @ q" r]
  by (simp add: get_le16_def le16_def nth_append le_bytes)

lemma get_le32_at:
  "get_le32 (map Some (p @ le32 w @ q) @ r) (length p) = Some w"
  using rd_map_Some [of "length p" "p @ le32 w @ q" r]
    rd_map_Some [of "length p + 1" "p @ le32 w @ q" r]
    rd_map_Some [of "length p + 2" "p @ le32 w @ q" r]
    rd_map_Some [of "length p + 3" "p @ le32 w @ q" r]
  by (simp add: get_le32_def le32_def nth_append le_bytes)

lemma get_fields:
  "get_le16 (map Some (a # b # le16 w @ q) @ r) 2 = Some w"
  "get_le32 (map Some (envelope ty seq @ le32 x @ q) @ r) 4 = Some x"
  "get_le32 (map Some (envelope ty seq @ le32 x @ le32 y @ q) @ r) 8 = Some y"
  "get_le32 (map Some (envelope ty seq @ le32 x @ le32 y @ le32 z) @ r) 12 = Some z"
  "get_le16 (map Some (envelope ty seq @ le16 t) @ r) 4 = Some t"
  using get_le16_at [of "[a, b]" w q r] get_le32_at [of "envelope ty seq" x q r]
    get_le32_at [of "envelope ty seq @ le32 x" y q r]
    get_le32_at [of "envelope ty seq @ le32 x @ le32 y" z "[]" r]
    get_le16_at [of "envelope ty seq" t "[]" r]
  by (simp_all add: numeral_2_eq_2)

text \<open>An output object, if there is one, receives the value.\<close>

definition out_val :: "'a option \<Rightarrow> 'a \<Rightarrow> 'a option" where
  "out_val p v = map_option (\<lambda>_. v) p"

lemma put_out_Some [simp]: "put_out p (Some v) = Some (out_val p v)"
  by (simp add: put_out_def out_val_def split: option.split)

lemma rd_two:
  "rd (map Some (a # b # p) @ r) 0 = Some a" "rd (map Some (a # b # p) @ r) 1 = Some b"
  by (simp_all add: rd_def)

lemma sk_envelope_unpack_ok:
  assumes "4 \<le> len"
  shows "sk_envelope_unpack (Some (map Some (envelope ty sq @ q) @ r)) len ver type seq =
         Some (0, out_val ver SK_VER, out_val type ty, out_val seq sq)"
  using assms get_fields(1) [of "0x01" ty sq q r] rd_two [of "0x01" ty "le16 sq @ q" r]
  by (simp add: sk_envelope_unpack_def envelope_def SK_VER_def)

lemma sk_payload_unpack_ok:
  assumes "16 \<le> len"
  shows "sk_payload_unpack (Some (map Some (accel_payload sq x y z) @ r)) len
           ver type seq x_mg y_mg z_mg =
         Some (0, out_val ver SK_VER, out_val type SK_TYPE_ACCEL, out_val seq sq,
               out_val x_mg x, out_val y_mg y, out_val z_mg z)"
proof -
  let ?b = "map Some (accel_payload sq x y z) @ r"
  have p: "accel_payload sq x y z = 0x01 # 0x01 # le16 sq @ le32 x @ le32 y @ le32 z"
    by (simp add: accel_payload_def envelope_def)
  have "rd ?b 0 = Some 0x01" "rd ?b 1 = Some 0x01" by (simp_all only: p rd_two)
  moreover have "get_le16 ?b 2 = Some sq" by (simp only: p get_fields)
  moreover have "get_le32 ?b 4 = Some x" "get_le32 ?b 8 = Some y" "get_le32 ?b 12 = Some z"
    by (simp_all only: accel_payload_def get_fields)
  ultimately show ?thesis
    using assms by (simp add: sk_payload_unpack_def SK_VER_def SK_TYPE_ACCEL_def)
qed

lemma sk_unpack_temp_ok:
  assumes "6 \<le> len"
  shows "sk_unpack_temp (Some (map Some (temp_payload sq t) @ r)) len out =
         Some (0, out_val out t)"
proof -
  have "get_le16 (map Some (temp_payload sq t) @ r) 4 = Some t"
    by (simp only: temp_payload_def get_fields)
  then show ?thesis using assms by (simp add: sk_unpack_temp_def)
qed

lemma sk_unpack_current_ok:
  assumes "8 \<le> len"
  shows "sk_unpack_current (Some (map Some (current_payload sq c) @ r)) len out =
         Some (0, out_val out c)"
proof -
  have "get_le32 (map Some (current_payload sq c) @ r) 4 = Some c"
    using get_fields(2) [of "0x03" sq c "[]" r] by (simp add: current_payload_def)
  then show ?thesis using assms by (simp add: sk_unpack_current_def)
qed

text \<open>Every 16-byte string with the accelerometer's version and type is such a payload.\<close>

lemma accel_payload_join:
  "accel_payload (join16 b2 b3) (join32 b4 b5 b6 b7) (join32 b8 b9 b10 b11) (join32 b12 b13 b14 b15) =
   [0x01, 0x01, b2, b3, b4, b5, b6, b7, b8, b9, b10, b11, b12, b13, b14, b15]"
  by (simp add: layout_defs le_bytes)

lemma list_of_16:
  assumes "length p = 16"
  shows "p = [p!0, p!1, p!2, p!3, p!4, p!5, p!6, p!7, p!8, p!9, p!10, p!11, p!12, p!13, p!14, p!15]"
proof -
  have "p = map ((!) p) [0..<16]" using assms by (metis map_nth)
  also have "[0..<16] = [0,1,2,3,4,5,6,7,8,9,10,11,12,13,14,15 :: nat]"
    by (simp add: upt_rec)
  finally show ?thesis by simp
qed

lemma accel_payload_surj:
  assumes "length p = 16" and "p ! 0 = SK_VER" and "p ! 1 = SK_TYPE_ACCEL"
  shows "\<exists>seq x y z. p = accel_payload seq x y z"
proof -
  have "p = accel_payload (join16 (p!2) (p!3)) (join32 (p!4) (p!5) (p!6) (p!7))
        (join32 (p!8) (p!9) (p!10) (p!11)) (join32 (p!12) (p!13) (p!14) (p!15))"
    unfolding accel_payload_join using list_of_16 [OF assms(1)] assms(2,3)
    by (simp add: SK_VER_def SK_TYPE_ACCEL_def)
  then show ?thesis by blast
qed

section \<open>Properties\<close>

text \<open>
  Acceleration messages survive the wire. Packing into any buffer with room writes the
  first sixteen bytes only, and unpacking them returns version 1, type 1 and exactly the
  sequence number and the three signed values, through whichever output pointers are not
  null; neither call leaves its buffer.
\<close>

lemma accel_roundtrip:
  assumes "16 \<le> cap" and "cap \<le> length m"
  shows "\<exists>b. sk_payload_pack (Some m) cap seq x y z = Some (16, Some b) \<and>
           length b = length m \<and> drop 16 b = drop 16 m \<and>
           sk_payload_unpack (Some b) 16 pver ptype pseq px py pz =
             Some (0, out_val pver SK_VER, out_val ptype SK_TYPE_ACCEL, out_val pseq seq,
                   out_val px x, out_val py y, out_val pz z)"
proof -
  let ?b = "filled (accel_payload seq x y z) m"
  have "sk_payload_unpack (Some ?b) 16 pver ptype pseq px py pz =
      Some (0, out_val pver SK_VER, out_val ptype SK_TYPE_ACCEL, out_val pseq seq,
            out_val px x, out_val py y, out_val pz z)"
    unfolding filled_def by (rule sk_payload_unpack_ok) simp
  moreover have "length ?b = length m" using assms by simp
  moreover have "drop 16 ?b = drop 16 m" by (simp add: filled_def)
  ultimately show ?thesis using sk_payload_pack_ok [OF assms] by blast
qed

text \<open>
  The acceleration layout loses nothing either way. Unpacking any sixteen bytes with
  the right version and type and packing the result again gives the same sixteen bytes.
\<close>

lemma accel_bijective:
  assumes "length p = 16" and "p ! 0 = SK_VER" and "p ! 1 = SK_TYPE_ACCEL" and "length m = 16"
  shows "\<exists>seq x y z.
           sk_payload_unpack (Some (map Some p)) 16 (Some v0) (Some t0) (Some s0) (Some x0) (Some y0)
             (Some z0) =
             Some (0, Some SK_VER, Some SK_TYPE_ACCEL, Some seq, Some x, Some y, Some z) \<and>
           sk_payload_pack (Some m) 16 seq x y z = Some (16, Some (map Some p))"
proof -
  obtain seq x y z where p: "p = accel_payload seq x y z"
    using accel_payload_surj [OF assms(1-3)] by blast
  have "sk_payload_unpack (Some (map Some p)) 16 (Some v0) (Some t0) (Some s0) (Some x0) (Some y0)
      (Some z0) = Some (0, Some SK_VER, Some SK_TYPE_ACCEL, Some seq, Some x, Some y, Some z)"
    using sk_payload_unpack_ok [of 16 seq x y z "[]" "Some v0" "Some t0" "Some s0" "Some x0" "Some y0"
        "Some z0"] by (simp add: p out_val_def)
  moreover have "sk_payload_pack (Some m) 16 seq x y z = Some (16, Some (map Some p))"
    using sk_payload_pack_ok [of 16 m seq x y z] assms(4) by (simp add: p filled_def)
  ultimately show ?thesis by blast
qed

text \<open>
  Temperature messages. Packing writes six bytes, whose envelope says version 1, type 2
  and the sequence number, and whose value reads back as the signed value packed.
\<close>

lemma temp_roundtrip:
  assumes "6 \<le> cap" and "cap \<le> length m"
  shows "\<exists>b. sk_pack_temp (Some m) cap seq t = Some (6, Some b) \<and> drop 6 b = drop 6 m \<and>
           sk_envelope_unpack (Some b) 6 pver ptype pseq =
             Some (0, out_val pver SK_VER, out_val ptype SK_TYPE_TEMP, out_val pseq seq) \<and>
           sk_unpack_temp (Some b) 6 pt = Some (0, out_val pt t)"
proof -
  let ?b = "filled (temp_payload seq t) m"
  have b: "?b = map Some (envelope 0x02 seq @ le16 t) @ drop 6 m"
    by (simp add: filled_def temp_payload_def)
  have "sk_envelope_unpack (Some ?b) 6 pver ptype pseq =
      Some (0, out_val pver SK_VER, out_val ptype SK_TYPE_TEMP, out_val pseq seq)"
    unfolding b SK_TYPE_TEMP_def by (rule sk_envelope_unpack_ok) simp
  moreover have "sk_unpack_temp (Some ?b) 6 pt = Some (0, out_val pt t)"
    unfolding filled_def by (rule sk_unpack_temp_ok) simp
  moreover have "drop 6 ?b = drop 6 m" by (simp add: filled_def)
  ultimately show ?thesis using sk_pack_temp_ok [OF assms] by blast
qed

text \<open>
  Current messages. Packing writes eight bytes, whose envelope says version 1, type 3
  and the sequence number, and whose value reads back as the signed value packed.
\<close>

lemma current_roundtrip:
  assumes "8 \<le> cap" and "cap \<le> length m"
  shows "\<exists>b. sk_pack_current (Some m) cap seq c = Some (8, Some b) \<and> drop 8 b = drop 8 m \<and>
           sk_envelope_unpack (Some b) 8 pver ptype pseq =
             Some (0, out_val pver SK_VER, out_val ptype SK_TYPE_CURRENT, out_val pseq seq) \<and>
           sk_unpack_current (Some b) 8 pc = Some (0, out_val pc c)"
proof -
  let ?b = "filled (current_payload seq c) m"
  have b: "?b = map Some (envelope 0x03 seq @ le32 c) @ drop 8 m"
    by (simp add: filled_def current_payload_def)
  have "sk_envelope_unpack (Some ?b) 8 pver ptype pseq =
      Some (0, out_val pver SK_VER, out_val ptype SK_TYPE_CURRENT, out_val pseq seq)"
    unfolding b SK_TYPE_CURRENT_def by (rule sk_envelope_unpack_ok) simp
  moreover have "sk_unpack_current (Some ?b) 8 pc = Some (0, out_val pc c)"
    unfolding filled_def by (rule sk_unpack_current_ok) simp
  moreover have "drop 8 ?b = drop 8 m" by (simp add: filled_def)
  ultimately show ?thesis using sk_pack_current_ok [OF assms] by blast
qed

text \<open>
  Refused calls. A packer given a null buffer, or less room than its message needs,
  returns -1 and writes nothing; an unpacker given a null buffer or too few bytes returns -1
  and stores nothing.
\<close>

lemma payload_refused:
  "(buf = None \<or> cap < 16 \<longrightarrow> sk_payload_pack buf cap seq x y z = Some (-1, buf)) \<and>
   (buf = None \<or> cap < 6 \<longrightarrow> sk_pack_temp buf cap seq t = Some (-1, buf)) \<and>
   (buf = None \<or> cap < 8 \<longrightarrow> sk_pack_current buf cap seq c = Some (-1, buf)) \<and>
   (buf = None \<or> len < 16 \<longrightarrow>
      sk_payload_unpack buf len pv pt ps px py pz = Some (-1, pv, pt, ps, px, py, pz)) \<and>
   (buf = None \<or> len < 4 \<longrightarrow> sk_envelope_unpack buf len pv pt ps = Some (-1, pv, pt, ps)) \<and>
   (buf = None \<or> len < 6 \<longrightarrow> sk_unpack_temp buf len ptemp = Some (-1, ptemp)) \<and>
   (buf = None \<or> len < 8 \<longrightarrow> sk_unpack_current buf len pcur = Some (-1, pcur))"
  by (cases buf)
    (simp_all add: sk_payload_pack_def sk_pack_temp_def sk_pack_current_def sk_payload_unpack_def
      sk_envelope_unpack_def sk_unpack_temp_def sk_unpack_current_def)

end
