(* ===== verification/Frame_Encode.thy ===== *)
theory Frame_Encode
  imports Crc16 Payload
begin

text \<open>
  \<open>sk_frame_encode\<close> of \<open>protocol/src/protocol.c\<close>: checksum, byte stuffing and flags, with the
  capacity checks as they stand in the code. The reference it is compared with is the
  independent \<open>stuff_frame\<close> of \<open>tests/test_framing.c\<close>.
\<close>

section \<open>Constants\<close>

definition SK_FLAG :: u8 where "SK_FLAG = 0x7E"
definition SK_ESC :: u8 where "SK_ESC = 0x7D"
definition SK_ESC_XOR :: u8 where "SK_ESC_XOR = 0x20"
definition SK_CRC_LEN :: nat where "SK_CRC_LEN = 2"
definition SK_FRAME_INNER :: nat where "SK_FRAME_INNER = SK_PAYLOAD_MAX + SK_CRC_LEN"
definition SK_FRAME_MAX :: nat where "SK_FRAME_MAX = 2 * SK_FRAME_INNER + 2"

lemmas frame_sizes [simp] = SK_CRC_LEN_def SK_FRAME_INNER_def SK_FRAME_MAX_def

section \<open>The encoder\<close>

text \<open>
  The stuffing loop. Its result says whether it ran to its end (\<open>False\<close> is the
  \<open>return -1\<close> inside the loop), how many bytes were written, and the output buffer.
\<close>

function stuff_loop :: "mem \<Rightarrow> nat \<Rightarrow> nat \<Rightarrow> nat \<Rightarrow> mem \<Rightarrow> nat \<Rightarrow> (bool \<times> nat \<times> mem) option" where
  "stuff_loop inner i inner_len n out cap =
     (if i < inner_len
      then do {
        b \<leftarrow> rd inner i;
        if b = SK_FLAG \<or> b = SK_ESC
        then if n + 2 > cap then Some (False, n, out)
             else do {
               out \<leftarrow> wr out n SK_ESC;
               out \<leftarrow> wr out (n + 1) (b XOR SK_ESC_XOR);
               stuff_loop inner (Suc i) inner_len (n + 2) out cap
             }
        else if n + 1 > cap then Some (False, n, out)
             else do {
               out \<leftarrow> wr out n b;
               stuff_loop inner (Suc i) inner_len (n + 1) out cap
             }
      }
      else Some (True, n, out))"
  by pat_completeness auto
termination
  by (relation "measure (\<lambda>(inner, i, inner_len, n, out, cap). inner_len - i)") auto

declare stuff_loop.simps [simp del]

text \<open>
  The payload and the output buffer are separate objects here; theory \<open>Frame_Overlap\<close> has
  both in one array.
\<close>

definition sk_frame_encode ::
  "mem option \<Rightarrow> nat \<Rightarrow> mem option \<Rightarrow> nat \<Rightarrow> (int \<times> mem option) option" where
  "sk_frame_encode payload plen out cap =
     (case (payload, out) of
        (Some pl, Some ob) \<Rightarrow>
          if plen < SK_PAYLOAD_MIN \<or> plen > SK_PAYLOAD_MAX then Some (-1, out)
          else do {
            inner \<leftarrow> copy_loop pl (replicate SK_FRAME_INNER None) 0 plen;
            crc \<leftarrow> crc16_ccitt_false payload plen;
            inner \<leftarrow> wr inner plen (byte_at crc 8);
            inner \<leftarrow> wr inner (plen + 1) (byte_at crc 0);
            let inner_len = plen + SK_CRC_LEN;
            if cap < 1 then Some (-1, out)
            else do {
              ob \<leftarrow> wr ob 0 SK_FLAG;
              (fits, n, ob) \<leftarrow> stuff_loop inner 0 inner_len 1 ob cap;
              if \<not> fits then Some (-1, Some ob)
              else if n + 1 > cap then Some (-1, Some ob)
              else do {
                ob \<leftarrow> wr ob n SK_FLAG;
                Some (int (n + 1), Some ob)
              }
            }
          }
      | _ \<Rightarrow> Some (-1, out))"

section \<open>The reference\<close>

fun stuff :: "u8 list \<Rightarrow> u8 list" where
  "stuff [] = []"
| "stuff (b # bs) =
     (if b = 0x7E \<or> b = 0x7D then [0x7D, b XOR 0x20] else [b]) @ stuff bs"

definition stuff_frame :: "u8 list \<Rightarrow> u8 list" where
  "stuff_frame inner = [0x7E] @ stuff inner @ [0x7E]"

text \<open>Payload and checksum, high byte first.\<close>

definition inner_of :: "u8 list \<Rightarrow> u8 list" where
  "inner_of p = p @ [byte_at (crc_of p) 8, byte_at (crc_of p) 0]"

definition wire_frame :: "u8 list \<Rightarrow> u8 list" where
  "wire_frame p = stuff_frame (inner_of p)"

text \<open>The payloads the encoder takes.\<close>

definition sendable :: "u8 list \<Rightarrow> bool" where
  "sendable p \<longleftrightarrow> 6 \<le> length p \<and> length p \<le> 16"

lemma length_inner_of [simp]: "length (inner_of p) = length p + 2"
  by (simp add: inner_of_def)

lemma be16_byte_at: "be16 (byte_at c 8) (byte_at c 0) = c"
  by (rule bit_word_eqI) (auto simp: bit_be16 bit_byte_at)

lemma inner_of_valid: "crc_valid (inner_of p)"
  by (simp add: inner_of_def crc_valid_append be16_byte_at)

lemma stuff_append [simp]: "stuff (xs @ ys) = stuff xs @ stuff ys"
  by (induction xs) auto

lemma length_stuff: "length xs \<le> length (stuff xs) \<and> length (stuff xs) \<le> 2 * length xs"
  by (induction xs) auto

lemma stuff_no_flag: "b \<in> set (stuff xs) \<Longrightarrow> b \<noteq> 0x7E"
proof (induction xs)
  case Nil
  then show ?case by simp
next
  case (Cons x xs)
  have "x XOR 0x20 \<noteq> 0x7E" if "x = 0x7E \<or> x = 0x7D" using that by auto
  with Cons show ?case by (auto split: if_splits)
qed

lemma stuff_escapes:
  "\<forall>i<length (stuff xs). stuff xs ! i = SK_ESC \<longrightarrow>
     i + 1 < length (stuff xs) \<and>
     stuff xs ! (i + 1) \<in> {SK_FLAG XOR SK_ESC_XOR, SK_ESC XOR SK_ESC_XOR}"
proof (induction xs)
  case Nil
  then show ?case by simp
next
  case (Cons x xs)
  show ?case
  proof (cases "x = 0x7E \<or> x = 0x7D")
    case True
    then have s: "stuff (x # xs) = 0x7D # (x XOR 0x20) # stuff xs" by simp
    have "x XOR 0x20 \<noteq> 0x7D" using True by auto
    then show ?thesis using Cons True unfolding s
      by (auto simp: nth_Cons SK_ESC_def SK_FLAG_def SK_ESC_XOR_def split: nat.splits)
  next
    case False
    then have s: "stuff (x # xs) = x # stuff xs" by simp
    show ?thesis using Cons False unfolding s
      by (auto simp: nth_Cons SK_ESC_def split: nat.splits)
  qed
qed

lemma length_wire_frame:
  "length p + 4 \<le> length (wire_frame p)" "length (wire_frame p) \<le> 2 * length p + 6"
  using length_stuff [of "inner_of p"] by (simp_all add: wire_frame_def stuff_frame_def)

section \<open>The encoder writes the reference frame\<close>

lemma stuff_loop_fits:
  assumes "i \<le> length q" and "length w + length (stuff (drop i q)) \<le> cap" and "cap \<le> length m"
  shows "stuff_loop (map Some q @ r) i (length q) (length w) (filled w m) cap =
         Some (True, length w + length (stuff (drop i q)), filled (w @ stuff (drop i q)) m)"
  using assms
proof (induction "length q - i" arbitrary: i w)
  case 0
  then show ?case by (simp add: stuff_loop.simps)
next
  case (Suc k)
  then have i: "i < length q" by simp
  then have d: "drop i q = q ! i # drop (Suc i) q" by (simp add: Cons_nth_drop_Suc)
  define e where "e = stuff [q ! i]"
  have split: "stuff (drop i q) = e @ stuff (drop (Suc i) q)"
    unfolding d e_def by simp
  have "stuff_loop (map Some q @ r) i (length q) (length w) (filled w m) cap =
        stuff_loop (map Some q @ r) (Suc i) (length q) (length (w @ e)) (filled (w @ e) m) cap"
    using i Suc.prems split
    by (subst stuff_loop.simps)
      (auto simp: rd_map_Some wr_filled e_def SK_FLAG_def SK_ESC_def SK_ESC_XOR_def)
  also have "\<dots> = Some (True, length (w @ e) + length (stuff (drop (Suc i) q)),
        filled ((w @ e) @ stuff (drop (Suc i) q)) m)"
    by (rule Suc.hyps(1)) (use Suc.hyps(2) Suc.prems i split in auto)
  finally show ?case by (simp add: split)
qed

lemma stuff_loop_full:
  assumes "i \<le> length q" and "length w \<le> cap" and "cap \<le> length m"
    and "cap < length w + length (stuff (drop i q))"
  shows "\<exists>k\<le>cap. stuff_loop (map Some q @ r) i (length q) (length w) (filled w m) cap =
         Some (False, k, filled (take k (w @ stuff (drop i q))) m)"
  using assms
proof (induction "length q - i" arbitrary: i w)
  case 0
  then show ?case by simp
next
  case (Suc k)
  then have i: "i < length q" by simp
  then have d: "drop i q = q ! i # drop (Suc i) q" by (simp add: Cons_nth_drop_Suc)
  define e where "e = stuff [q ! i]"
  have split: "stuff (drop i q) = e @ stuff (drop (Suc i) q)"
    unfolding d e_def by simp
  show ?case
  proof (cases "length (w @ e) \<le> cap")
    case True
    have "stuff_loop (map Some q @ r) i (length q) (length w) (filled w m) cap =
        stuff_loop (map Some q @ r) (Suc i) (length q) (length (w @ e)) (filled (w @ e) m) cap"
      using i Suc.prems True
      by (subst stuff_loop.simps)
        (auto simp: rd_map_Some wr_filled e_def SK_FLAG_def SK_ESC_def SK_ESC_XOR_def)
    moreover have "\<exists>k\<le>cap. stuff_loop (map Some q @ r) (Suc i) (length q) (length (w @ e))
        (filled (w @ e) m) cap = Some (False, k, filled (take k ((w @ e) @ stuff (drop (Suc i) q))) m)"
      by (rule Suc.hyps(1)) (use Suc.hyps(2) Suc.prems i True split in auto)
    ultimately show ?thesis by (simp add: split)
  next
    case False
    then have "stuff_loop (map Some q @ r) i (length q) (length w) (filled w m) cap =
        Some (False, length w, filled w m)"
      using i by (subst stuff_loop.simps)
        (auto simp: rd_map_Some e_def SK_FLAG_def SK_ESC_def)
    then show ?thesis using Suc.prems by (intro exI [of _ "length w"]) simp
  qed
qed

text \<open>The encoder once \<open>inner\<close> holds the body of the frame.\<close>

lemma sk_frame_encode_step:
  assumes "sendable p"
  shows "sk_frame_encode (Some (map Some p @ r)) (length p) (Some m) cap =
     (if cap < 1 then Some (-1, Some m)
      else do {
        ob \<leftarrow> wr m 0 SK_FLAG;
        (fits, n, ob) \<leftarrow> stuff_loop (filled (inner_of p) (replicate 18 None)) 0
                              (length p + 2) 1 ob cap;
        if \<not> fits then Some (-1, Some ob)
        else if n + 1 > cap then Some (-1, Some ob)
        else do { ob \<leftarrow> wr ob n SK_FLAG; Some (int (n + 1), Some ob) }
      })"
  using assms
  by (simp add: sk_frame_encode_def sendable_def copy_loop_all crc16_bytes wr_filled inner_of_def)

lemma wire_frame_parts: "wire_frame p = ([SK_FLAG] @ stuff (inner_of p)) @ [SK_FLAG]"
  by (simp add: wire_frame_def stuff_frame_def SK_FLAG_def)

lemma inner_loop_args:
  "filled (inner_of p) (replicate 18 None) =
   map Some (inner_of p) @ drop (length p + 2) (replicate 18 None)"
  by (simp add: filled_def)

lemma sk_frame_encode_fits:
  assumes p: "sendable p" and cap: "length (wire_frame p) \<le> cap" "cap \<le> length m"
  shows "sk_frame_encode (Some (map Some p @ r)) (length p) (Some m) cap =
         Some (int (length (wire_frame p)), Some (filled (wire_frame p) m))"
proof -
  have m: "m \<noteq> []" using cap by (auto simp: wire_frame_parts)
  have loop: "stuff_loop (filled (inner_of p) (replicate 18 None)) 0 (length p + 2) 1
          (filled [SK_FLAG] m) cap =
        Some (True, 1 + length (stuff (inner_of p)), filled ([SK_FLAG] @ stuff (inner_of p)) m)"
    unfolding inner_loop_args
    using stuff_loop_fits [of 0 "inner_of p" "[SK_FLAG]" cap m] cap by (simp add: wire_frame_parts)
  show ?thesis
    unfolding sk_frame_encode_step [OF p]
    using cap m loop by (simp add: wr_first wr_filled wire_frame_parts)
qed

lemma sk_frame_encode_full:
  assumes p: "sendable p" and cap: "cap < length (wire_frame p)" "cap \<le> length m"
  shows "\<exists>k\<le>cap. sk_frame_encode (Some (map Some p @ r)) (length p) (Some m) cap =
         Some (-1, Some (filled (take k (wire_frame p)) m))"
proof (cases "cap = 0")
  case True
  then show ?thesis unfolding sk_frame_encode_step [OF p] by simp
next
  case False
  then have m: "m \<noteq> []" using cap by auto
  let ?inner = "filled (inner_of p) (replicate 18 None)"
  let ?w = "[SK_FLAG] @ stuff (inner_of p)"
  show ?thesis
  proof (cases "length ?w \<le> cap")
    case True
    then have "stuff_loop ?inner 0 (length p + 2) 1 (filled [SK_FLAG] m) cap =
        Some (True, 1 + length (stuff (inner_of p)), filled ?w m)"
      unfolding inner_loop_args
      using stuff_loop_fits [of 0 "inner_of p" "[SK_FLAG]" cap m] cap by simp
    then have "sk_frame_encode (Some (map Some p @ r)) (length p) (Some m) cap =
        Some (-1, Some (filled (take (length ?w) (wire_frame p)) m))"
      unfolding sk_frame_encode_step [OF p]
      using cap m False by (simp add: wr_first wire_frame_parts)
    then show ?thesis using True by blast
  next
    case out: False
    then obtain k where k: "k \<le> cap" "stuff_loop ?inner 0 (length p + 2) 1 (filled [SK_FLAG] m) cap =
        Some (False, k, filled (take k ?w) m)"
      unfolding inner_loop_args
      using stuff_loop_full [of 0 "inner_of p" "[SK_FLAG]" cap m] False cap by auto
    moreover have "take k ?w = take k (wire_frame p)"
      using k(1) out unfolding wire_frame_parts take_append by simp
    ultimately show ?thesis
      unfolding sk_frame_encode_step [OF p] using m False by (auto simp: wr_first)
  qed
qed

lemma sk_frame_encode_room:
  assumes "sendable p" and "SK_FRAME_MAX \<le> cap" and "cap \<le> length m"
  shows "sk_frame_encode (Some (map Some p @ r)) (length p) (Some m) cap =
         Some (int (length (wire_frame p)), Some (filled (wire_frame p) m))"
  using assms length_wire_frame [of p] by (intro sk_frame_encode_fits) (auto simp: sendable_def)

lemma sk_frame_encode_rejects:
  assumes "payload = None \<or> out = None \<or> plen < 6 \<or> 16 < plen"
  shows "sk_frame_encode payload plen out cap = Some (-1, out)"
  using assms by (auto simp: sk_frame_encode_def split: option.split)

section \<open>Properties\<close>

text \<open>
  C11: the encoder is right. For every payload of 6 to 16 bytes and every buffer with room for
  its frame, the encoder returns the length of the frame and has written the reference
  frame (flag, stuffed payload and checksum, flag) to the front of the buffer and nothing
  behind it.
\<close>

theorem encode_writes_frame:
  assumes "6 \<le> length p" and "length p \<le> 16"
    and "length (wire_frame p) \<le> cap" and "cap \<le> length m"
  shows "sk_frame_encode (Some (map Some p @ r)) (length p) (Some m) cap =
         Some (int (length (wire_frame p)),
               Some (map Some (wire_frame p) @ drop (length (wire_frame p)) m))"
  using sk_frame_encode_fits [of p cap m r] assms by (simp add: sendable_def filled_def)

theorem encode_writes_frame_witness:
  "sk_frame_encode (Some (map Some [1, 2, 0, 0, 0x7E, 0x7D] @ [])) (length [1, 2, 0, 0, 0x7E, 0x7D :: u8])
     (Some (replicate 38 None)) 38 =
   Some (int (length (wire_frame [1, 2, 0, 0, 0x7E, 0x7D])),
         Some (map Some (wire_frame [1, 2, 0, 0, 0x7E, 0x7D]) @
               drop (length (wire_frame [1, 2, 0, 0, 0x7E, 0x7D])) (replicate 38 None)))"
  by (rule encode_writes_frame) (simp_all, code_simp)

text \<open>
  C12: the encoder never overruns. When the capacity is smaller than the frame, whatever the
  payload and wherever the frame breaks off, it returns -1; all it has written is an initial
  piece of the frame that ends within the capacity.
\<close>

theorem encode_no_room:
  assumes "6 \<le> length p" and "length p \<le> 16"
    and "cap < length (wire_frame p)" and "cap \<le> length m"
  shows "\<exists>k\<le>cap. sk_frame_encode (Some (map Some p @ r)) (length p) (Some m) cap =
           Some (-1, Some (map Some (take k (wire_frame p)) @ drop k m))"
proof -
  obtain k where k: "k \<le> cap" "sk_frame_encode (Some (map Some p @ r)) (length p) (Some m) cap =
      Some (-1, Some (filled (take k (wire_frame p)) m))"
    using sk_frame_encode_full [of p cap m r] assms by (auto simp: sendable_def)
  then have "length (take k (wire_frame p)) = k" using assms(3) by simp
  then show ?thesis using k unfolding filled_def by auto
qed

theorem encode_no_room_witness:
  "\<exists>k\<le>9. sk_frame_encode (Some (map Some [1, 2, 0, 0, 0x7E, 0x7D] @ [])) (length [1, 2, 0, 0, 0x7E, 0x7D :: u8])
     (Some (replicate 9 None)) 9 =
   Some (-1, Some (map Some (take k (wire_frame [1, 2, 0, 0, 0x7E, 0x7D])) @ drop k (replicate 9 None)))"
  by (rule encode_no_room) (simp_all, code_simp)

text \<open>
  Frame size. A buffer of the declared maximum, 38 bytes, is enough for every payload the
  encoder takes; no frame is shorter than its payload and four bytes more.
\<close>

lemma frame_max_enough:
  assumes "6 \<le> length p" and "length p \<le> 16"
  shows "length p + 4 \<le> length (wire_frame p) \<and> length (wire_frame p) \<le> SK_FRAME_MAX \<and>
         (\<exists>r. sk_frame_encode (Some (map Some p)) (length p) (Some (replicate SK_FRAME_MAX None))
                SK_FRAME_MAX = Some (int (length (wire_frame p)), r))"
  using sk_frame_encode_room [of p SK_FRAME_MAX "replicate SK_FRAME_MAX None" "[]"]
    length_wire_frame [of p] assms by (simp add: sendable_def)

text \<open>
  The maximum is no larger than it has to be: some payload whose checksum also needs escaping
  fills it, and a buffer one byte shorter is refused.
\<close>

lemma frame_max_reached:
  "map_option fst (sk_frame_encode (Some (map Some
       [0x7E, 0x7E, 0x7E, 0x7E, 0x7E, 0x7D, 0x7E, 0x7E, 0x7E, 0x7D, 0x7D, 0x7E, 0x7E, 0x7E, 0x7D, 0x7D]))
     16 (Some (replicate SK_FRAME_MAX None)) SK_FRAME_MAX) = Some (int SK_FRAME_MAX)"
  "map_option fst (sk_frame_encode (Some (map Some
       [0x7E, 0x7E, 0x7E, 0x7E, 0x7E, 0x7D, 0x7E, 0x7E, 0x7E, 0x7D, 0x7D, 0x7E, 0x7E, 0x7E, 0x7D, 0x7D]))
     16 (Some (replicate SK_FRAME_MAX None)) (SK_FRAME_MAX - 1)) = Some (-1)"
  by code_simp+

text \<open>
  C29: transparency. In what the encoder writes for a payload, the flag byte stands at the two
  ends and nowhere else, and an escape byte is always followed by an escaped flag or an
  escaped escape.
\<close>

theorem frame_transparent:
  assumes "6 \<le> length p" and "length p \<le> 16" and "SK_FRAME_MAX \<le> cap" and "cap \<le> length m"
  shows "\<exists>body b. sk_frame_encode (Some (map Some p)) (length p) (Some m) cap =
             Some (int (length body + 2), Some b) \<and>
           take (length body + 2) b = map Some ([SK_FLAG] @ body @ [SK_FLAG]) \<and>
           SK_FLAG \<notin> set body \<and>
           (\<forall>i<length body. body ! i = SK_ESC \<longrightarrow>
              i + 1 < length body \<and> body ! (i + 1) \<in> {SK_FLAG XOR SK_ESC_XOR, SK_ESC XOR SK_ESC_XOR})"
proof -
  let ?body = "stuff (inner_of p)"
  have w: "wire_frame p = [SK_FLAG] @ ?body @ [SK_FLAG]" by (simp add: wire_frame_parts)
  have "sk_frame_encode (Some (map Some p)) (length p) (Some m) cap =
      Some (int (length ?body + 2), Some (filled (wire_frame p) m))"
    using sk_frame_encode_room [of p cap m "[]"] assms by (simp add: sendable_def w)
  moreover have "take (length ?body + 2) (filled (wire_frame p) m) = map Some ([SK_FLAG] @ ?body @ [SK_FLAG])"
    unfolding filled_def w by simp
  moreover have "SK_FLAG \<notin> set ?body" using stuff_no_flag by (auto simp: SK_FLAG_def)
  ultimately show ?thesis using stuff_escapes by blast
qed

theorem frame_transparent_witness:
  "\<exists>body b. sk_frame_encode (Some (map Some [1, 2, 0, 0, 0x7E, 0x7D])) (length [1, 2, 0, 0, 0x7E, 0x7D :: u8])
       (Some (replicate 40 None)) 39 = Some (int (length body + 2), Some b) \<and>
     take (length body + 2) b = map Some ([SK_FLAG] @ body @ [SK_FLAG]) \<and>
     SK_FLAG \<notin> set body \<and>
     (\<forall>i<length body. body ! i = SK_ESC \<longrightarrow>
        i + 1 < length body \<and> body ! (i + 1) \<in> {SK_FLAG XOR SK_ESC_XOR, SK_ESC XOR SK_ESC_XOR})"
  by (rule frame_transparent) simp_all

text \<open>
  Refused calls. Given a null pointer, or a payload of fewer than 6 or more than 16 bytes,
  the encoder returns -1 and leaves the output as it was.
\<close>

lemma encode_refused:
  assumes "payload = None \<or> out = None \<or> plen < 6 \<or> 16 < plen"
  shows "sk_frame_encode payload plen out cap = Some (-1, out)"
  by (rule sk_frame_encode_rejects [OF assms])

end
