(* ===== verification/Frame_Decode.thy ===== *)
theory Frame_Decode
  imports Frame_Encode
begin

text \<open>
  The incremental decoder of \<open>protocol/src/protocol.c\<close> (\<open>sk_decoder_t\<close>, \<open>sk_decoder_init\<close>,
  \<open>decoder_finish\<close>, \<open>sk_decoder_feed\<close>), an abstract decoder that collects without bound, the
  simulation between the two, and what a whole byte stream decodes to.
\<close>

section \<open>The state machine\<close>

definition SK_DEC_MORE :: int where "SK_DEC_MORE = 0"
definition SK_DEC_ERR_LEN :: int where "SK_DEC_ERR_LEN = -1"
definition SK_DEC_ERR_CRC :: int where "SK_DEC_ERR_CRC = -2"
definition SK_DEC_ERR_OFLOW :: int where "SK_DEC_ERR_OFLOW = -3"

lemmas dec_codes = SK_DEC_MORE_def SK_DEC_ERR_LEN_def SK_DEC_ERR_CRC_def SK_DEC_ERR_OFLOW_def

record sk_decoder =
  st_in_frame :: u8
  st_esc :: u8
  st_overflow :: u8
  st_count :: u16
  st_buf :: mem

text \<open>The reset leaves \<open>buf\<close> as it is.\<close>

definition sk_decoder_init :: "sk_decoder option \<Rightarrow> sk_decoder option" where
  "sk_decoder_init st =
     map_option (\<lambda>s. s\<lparr>st_in_frame := 0, st_esc := 0, st_overflow := 0, st_count := 0\<rparr>) st"

definition decoder_finish :: "sk_decoder \<Rightarrow> mem option \<Rightarrow> nat \<Rightarrow> (int \<times> mem option) option" where
  "decoder_finish st out cap =
     (if st_overflow st \<noteq> 0 \<or> unat (st_count st) > SK_FRAME_INNER
      then Some (SK_DEC_ERR_OFLOW, out)
      else if unat (st_count st) < SK_PAYLOAD_MIN + SK_CRC_LEN
      then Some (SK_DEC_ERR_LEN, out)
      else do {
        let payload_len = unat (st_count st) - SK_CRC_LEN;
        crc \<leftarrow> crc16_ccitt_false (Some (st_buf st)) payload_len;
        hi \<leftarrow> rd (st_buf st) payload_len;
        lo \<leftarrow> rd (st_buf st) (payload_len + 1);
        if crc \<noteq> be16 hi lo then Some (SK_DEC_ERR_CRC, out)
        else (case out of
                None \<Rightarrow> Some (SK_DEC_ERR_LEN, out)
              | Some ob \<Rightarrow>
                  if cap < payload_len then Some (SK_DEC_ERR_LEN, out)
                  else do {
                    ob \<leftarrow> copy_loop (st_buf st) ob 0 payload_len;
                    Some (int payload_len, Some ob)
                  })
      })"

definition sk_decoder_feed ::
  "sk_decoder option \<Rightarrow> u8 \<Rightarrow> mem option \<Rightarrow> nat \<Rightarrow>
   (int \<times> sk_decoder option \<times> mem option) option" where
  "sk_decoder_feed stp byte out cap =
     (case stp of
        None \<Rightarrow> Some (SK_DEC_ERR_LEN, None, out)
      | Some st \<Rightarrow>
          if byte = SK_FLAG
          then do {
            (result, out) \<leftarrow>
              (if st_in_frame st \<noteq> 0 \<and> st_count st > 0
               then decoder_finish st out cap
               else Some (SK_DEC_MORE, out));
            Some (result,
                  Some (st\<lparr>st_in_frame := 1, st_esc := 0, st_overflow := 0, st_count := 0\<rparr>),
                  out)
          }
          else if st_in_frame st = 0 then Some (SK_DEC_MORE, Some st, out)
          else if byte = SK_ESC then Some (SK_DEC_MORE, Some (st\<lparr>st_esc := 1\<rparr>), out)
          else do {
            let (b, st) = (if st_esc st \<noteq> 0 then (byte XOR SK_ESC_XOR, st\<lparr>st_esc := 0\<rparr>)
                           else (byte, st));
            if unat (st_count st) < SK_FRAME_INNER
            then do {
              m \<leftarrow> wr (st_buf st) (unat (st_count st)) b;
              Some (SK_DEC_MORE, Some (st\<lparr>st_buf := m, st_count := st_count st + 1\<rparr>), out)
            }
            else Some (SK_DEC_MORE, Some (st\<lparr>st_overflow := 1\<rparr>), out)
          })"

section \<open>The abstract decoder\<close>

text \<open>Hunting for a flag, or collecting: the bytes so far and whether an escape is pending.\<close>

datatype astate = Hunting | Collecting "u8 list" bool

datatype verdict = Payload "u8 list" | Err_len | Err_crc | Err_oflow

text \<open>The verdict on a closed frame, for a receiver with room for \<open>room\<close> payload bytes.\<close>

definition judge :: "nat \<Rightarrow> u8 list \<Rightarrow> verdict" where
  "judge room xs =
     (if 18 < length xs then Err_oflow
      else if length xs < 8 then Err_len
      else if \<not> crc_valid xs then Err_crc
      else if room < length xs - 2 then Err_len
      else Payload (take (length xs - 2) xs))"

fun afeed :: "nat \<Rightarrow> astate \<Rightarrow> u8 \<Rightarrow> astate \<times> verdict list" where
  "afeed room Hunting b = (if b = 0x7E then Collecting [] False else Hunting, [])"
| "afeed room (Collecting xs e) b =
     (if b = 0x7E then (Collecting [] False, if xs = [] then [] else [judge room xs])
      else if b = 0x7D then (Collecting xs True, [])
      else (Collecting (xs @ [if e then b XOR 0x20 else b]) False, []))"

text \<open>The C result of a verdict, and the bytes it delivers.\<close>

fun code :: "verdict \<Rightarrow> int" where
  "code (Payload p) = int (length p)"
| "code Err_len = SK_DEC_ERR_LEN"
| "code Err_crc = SK_DEC_ERR_CRC"
| "code Err_oflow = SK_DEC_ERR_OFLOW"

fun bytes :: "verdict \<Rightarrow> u8 list" where
  "bytes (Payload p) = p"
| "bytes _ = []"

definition room_of :: "mem option \<Rightarrow> nat \<Rightarrow> nat" where
  "room_of out cap = (case out of None \<Rightarrow> 0 | Some _ \<Rightarrow> cap)"

text \<open>The output buffer after a step with these verdicts (none, or the one just reached).\<close>

definition deliver :: "verdict list \<Rightarrow> mem option \<Rightarrow> mem option" where
  "deliver vs out = map_option (filled (concat (map bytes vs))) out"

definition result_of :: "verdict list \<Rightarrow> int" where
  "result_of vs = (case vs of [] \<Rightarrow> SK_DEC_MORE | v # _ \<Rightarrow> code v)"

section \<open>The simulation\<close>

text \<open>
  The concrete state keeps the first 18 collected bytes, their number, and one flag for the
  rest. A decoder whose buffer has its declared size is in relation with some abstract
  state, whatever its fields hold.
\<close>

definition dec_rel :: "sk_decoder \<Rightarrow> astate \<Rightarrow> bool" where
  "dec_rel st a \<longleftrightarrow>
     length (st_buf st) = 18 \<and>
     (case a of
        Hunting \<Rightarrow> st_in_frame st = 0
      | Collecting xs e \<Rightarrow>
          st_in_frame st \<noteq> 0 \<and>
          (st_esc st \<noteq> 0 \<longleftrightarrow> e) \<and>
          (st_overflow st \<noteq> 0 \<longleftrightarrow> 18 < length xs) \<and>
          unat (st_count st) = min 18 (length xs) \<and>
          take (min 18 (length xs)) (st_buf st) = map Some (take 18 xs))"

definition out_ok :: "mem option \<Rightarrow> nat \<Rightarrow> bool" where
  "out_ok out cap = (case out of None \<Rightarrow> True | Some m \<Rightarrow> cap \<le> length m)"

lemma crc16_prefix:
  assumes "n \<le> length xs"
  shows "crc16_ccitt_false (Some (map Some xs @ r)) n = Some (crc_of (take n xs))"
proof -
  have "map Some xs @ r = map Some (take n xs) @ map Some (drop n xs) @ r"
    by (metis append.assoc append_take_drop_id map_append)
  then show ?thesis using crc16_bytes [of "take n xs"] assms by simp
qed

lemma deliver_nothing [simp]: "bytes v = [] \<Longrightarrow> deliver [v] out = out"
  by (cases out) (simp_all add: deliver_def)

lemma deliver_None [simp]: "deliver vs out = None \<longleftrightarrow> out = None"
  by (simp add: deliver_def)

lemma deliver_Nil [simp]: "deliver [] out = out"
  by (cases out) (simp_all add: deliver_def)

lemma finish_judge:
  assumes rel: "dec_rel st (Collecting xs e)" and out: "out_ok out cap"
  shows "decoder_finish st out cap =
         Some (code (judge (room_of out cap) xs), deliver [judge (room_of out cap) xs] out)"
proof (cases "18 < length xs")
  case True
  with rel show ?thesis by (simp add: decoder_finish_def dec_rel_def judge_def)
next
  case False
  then have len: "length xs \<le> 18" by simp
  define r where "r = drop (length xs) (st_buf st)"
  have buf: "st_buf st = map Some xs @ r"
  proof -
    have "take (length xs) (st_buf st) = map Some xs"
      using rel len by (simp add: dec_rel_def min_absorb2)
    then show ?thesis unfolding r_def by (metis append_take_drop_id)
  qed
  have count: "unat (st_count st) = length xs" and ov: "st_overflow st = 0"
    using rel len by (auto simp: dec_rel_def)
  show ?thesis
  proof (cases "length xs < 8")
    case True
    then show ?thesis by (simp add: decoder_finish_def judge_def count ov)
  next
    case False
    let ?n = "length xs - 2"
    have n: "?n < length xs" "Suc ?n = length xs - 1" "Suc ?n < length xs" using False by auto
    have rds: "rd (st_buf st) ?n = Some (xs ! ?n)"
      "rd (st_buf st) (Suc ?n) = Some (xs ! (length xs - 1))"
      unfolding buf using n rd_map_Some by metis+
    have crc: "crc16_ccitt_false (Some (st_buf st)) ?n = Some (crc_of (take ?n xs))"
      unfolding buf using n by (intro crc16_prefix) simp
    have cp: "copy_loop (st_buf st) m 0 ?n = Some (filled (take ?n xs) m)" if "?n \<le> length m" for m
      unfolding buf using that n by (intro copy_loop_all) auto
    show ?thesis
      using len False out rds crc cp
      by (cases out)
        (auto simp: decoder_finish_def judge_def count ov room_of_def out_ok_def crc_valid_def
          deliver_def)
  qed
qed

lemma count_up: "unat c < 18 \<Longrightarrow> unat (c + 1) = Suc (unat c)" for c :: u16
  by (simp add: unat_word_ariths)

lemma rel_fresh: "length (st_buf st) = 18 \<Longrightarrow>
  dec_rel (st\<lparr>st_in_frame := 1, st_esc := 0, st_overflow := 0, st_count := 0\<rparr>) (Collecting [] False)"
  by (simp add: dec_rel_def)

text \<open>Collecting one more byte, in the two forms the code has.\<close>

lemma rel_push:
  assumes rel: "dec_rel st (Collecting xs e)" and short: "length xs < 18"
  shows "wr (st_buf st) (unat (st_count st)) b = Some ((st_buf st)[length xs := Some b])"
    and "dec_rel (st\<lparr>st_esc := 0, st_buf := (st_buf st)[length xs := Some b],
                     st_count := st_count st + 1\<rparr>) (Collecting (xs @ [b]) False)"
proof -
  have c: "unat (st_count st) = length xs" and l: "length (st_buf st) = 18"
    and t: "take (length xs) (st_buf st) = map Some xs"
    using rel short by (simp_all add: dec_rel_def)
  show "wr (st_buf st) (unat (st_count st)) b = Some ((st_buf st)[length xs := Some b])"
    using c l short by (simp add: wr_def)
  have "take (Suc (length xs)) ((st_buf st)[length xs := Some b]) = map Some (xs @ [b])"
    using t l short by (simp add: take_Suc_conv_app_nth)
  then show "dec_rel (st\<lparr>st_esc := 0, st_buf := (st_buf st)[length xs := Some b],
                     st_count := st_count st + 1\<rparr>) (Collecting (xs @ [b]) False)"
    using rel short c count_up [of "st_count st"] by (simp add: dec_rel_def min_absorb2)
qed

lemma rel_overflow:
  assumes "dec_rel st (Collecting xs e)" and "\<not> length xs < 18"
  shows "dec_rel (st\<lparr>st_esc := 0, st_overflow := 1\<rparr>) (Collecting (xs @ [b]) False)"
  using assms by (simp add: dec_rel_def)

lemma count_short: "dec_rel st (Collecting xs e) \<Longrightarrow> unat (st_count st) < 18 \<longleftrightarrow> length xs < 18"
  by (auto simp: dec_rel_def)

lemma count_pos: "dec_rel st (Collecting xs e) \<Longrightarrow> st_count st > 0 \<longleftrightarrow> xs \<noteq> []"
  by (auto simp: dec_rel_def word_gt_0 unat_eq_zero min_def split: if_splits)

lemma feed_sim_collect:
  assumes rel: "dec_rel st (Collecting xs e)" and b: "b \<noteq> 0x7E" "b \<noteq> 0x7D"
  shows "\<exists>st'. sk_decoder_feed (Some st) b out cap = Some (SK_DEC_MORE, Some st', out) \<and>
           dec_rel st' (Collecting (xs @ [if e then b XOR 0x20 else b]) False)"
proof -
  let ?b = "if e then b XOR 0x20 else b"
  have in_frame: "st_in_frame st \<noteq> 0" and esc: "st_esc st \<noteq> 0 \<longleftrightarrow> e"
    using rel by (simp_all add: dec_rel_def)
  have clear: "st\<lparr>st_esc := 0\<rparr> = st" if "\<not> e" using that esc by simp
  show ?thesis
  proof (cases "length xs < 18")
    case True
    show ?thesis
      using rel_push [OF rel True, of ?b] count_short [OF rel] True in_frame esc b clear
      by (auto simp: sk_decoder_feed_def SK_FLAG_def SK_ESC_def SK_ESC_XOR_def)
  next
    case False
    show ?thesis
      using rel_overflow [OF rel False, of ?b] count_short [OF rel] False in_frame esc b clear
      by (auto simp: sk_decoder_feed_def SK_FLAG_def SK_ESC_def SK_ESC_XOR_def)
  qed
qed

lemma feed_sim:
  assumes rel: "dec_rel st a" and out: "out_ok out cap"
    and step: "afeed (room_of out cap) a b = (a', vs)"
  shows "\<exists>st'. sk_decoder_feed (Some st) b out cap =
           Some (result_of vs, Some st', deliver vs out) \<and> dec_rel st' a'"
proof (cases a)
  case Hunting
  with rel step rel_fresh [of st] show ?thesis
    by (auto simp: sk_decoder_feed_def SK_FLAG_def dec_rel_def result_of_def split: if_splits)
next
  case (Collecting xs e)
  note rel = rel [unfolded Collecting]
  show ?thesis
  proof (cases "b = 0x7E")
    case True
    have "length (st_buf st) = 18" "st_in_frame st \<noteq> 0" using rel by (simp_all add: dec_rel_def)
    with True step rel_fresh [of st] finish_judge [OF rel out] count_pos [OF rel]
    show ?thesis
      by (auto simp: Collecting sk_decoder_feed_def SK_FLAG_def result_of_def)
  next
    case not_flag: False
    show ?thesis
    proof (cases "b = 0x7D")
      case True
      with step rel show ?thesis
        by (auto simp: Collecting sk_decoder_feed_def SK_FLAG_def SK_ESC_def dec_rel_def
            result_of_def)
    next
      case False
      with step not_flag feed_sim_collect [OF rel not_flag False, of out cap] show ?thesis
        by (auto simp: Collecting result_of_def)
    qed
  qed
qed

section \<open>The decoder's invariant\<close>

definition dec_ok :: "sk_decoder \<Rightarrow> bool" where
  "dec_ok st \<longleftrightarrow>
     length (st_buf st) = 18 \<and> unat (st_count st) \<le> 18 \<and>
     list_all (\<lambda>c. c \<noteq> None) (take (unat (st_count st)) (st_buf st)) \<and>
     (st_overflow st \<noteq> 0 \<longrightarrow> unat (st_count st) = 18)"

lemma all_Some: "list_all (\<lambda>c. c \<noteq> None) m \<Longrightarrow> m = map Some (map the m)"
  by (induction m) auto

lemma ok_rel_collecting:
  assumes "dec_ok st" and "st_in_frame st \<noteq> 0"
  shows "\<exists>xs e. dec_rel st (Collecting xs e)"
proof -
  let ?c = "unat (st_count st)"
  define ys where "ys = map the (take ?c (st_buf st))"
  have ys: "take ?c (st_buf st) = map Some ys" "length ys = ?c"
    using assms(1) all_Some [of "take ?c (st_buf st)"] by (simp_all add: dec_ok_def ys_def)
  have "dec_rel st (Collecting (ys @ (if st_overflow st \<noteq> 0 then [0] else [])) (st_esc st \<noteq> 0))"
    using assms ys by (auto simp: dec_ok_def dec_rel_def)
  then show ?thesis by blast
qed

lemma dec_ok_rel: "dec_ok st \<Longrightarrow> \<exists>a. dec_rel st a"
proof (cases "st_in_frame st = 0")
  case True
  moreover assume "dec_ok st"
  ultimately have "dec_rel st Hunting" by (simp add: dec_rel_def dec_ok_def)
  then show ?thesis by blast
next
  case False
  moreover assume "dec_ok st"
  ultimately show ?thesis using ok_rel_collecting by blast
qed

lemma rel_ok: "dec_rel st (Collecting xs e) \<Longrightarrow> dec_ok st"
  by (auto simp: dec_rel_def dec_ok_def list_all_iff)

lemma judge_payload:
  "judge room xs = Payload p \<Longrightarrow> 6 \<le> length p \<and> length p \<le> 16 \<and> length p \<le> room"
  by (auto simp: judge_def split: if_splits)

lemma afeed_verdicts: "afeed room a b = (a', vs) \<Longrightarrow> vs = [] \<or> (\<exists>xs. vs = [judge room xs])"
  by (cases a) (auto split: if_splits)

lemma code_range:
  "code (judge room xs) \<in> {-3, -2, -1} \<or>
   6 \<le> code (judge room xs) \<and> code (judge room xs) \<le> 16 \<and> code (judge room xs) \<le> int room"
  using judge_payload [of room xs] by (cases "judge room xs") (auto simp: dec_codes)

lemma out_ok_judge:
  assumes "out_ok out cap"
  shows "out_ok (deliver [judge (room_of out cap) xs] out) cap"
proof (cases out)
  case (Some m)
  then show ?thesis using assms judge_payload [of cap xs]
    by (cases "judge cap xs") (auto simp: out_ok_def deliver_def room_of_def)
qed (simp add: out_ok_def deliver_def)

lemma out_ok_deliver:
  "afeed (room_of out cap) a b = (a', vs) \<Longrightarrow> out_ok out cap \<Longrightarrow> out_ok (deliver vs out) cap"
  using afeed_verdicts [of "room_of out cap" a b a' vs] out_ok_judge by auto

lemma room_deliver [simp]: "room_of (deliver vs out) cap = room_of out cap"
  by (cases out) (simp_all add: room_of_def deliver_def)

lemma feed_total:
  assumes ok: "dec_ok st" and out: "out_ok out cap"
  shows "\<exists>r st' out'. sk_decoder_feed (Some st) b out cap = Some (r, Some st', out') \<and>
           dec_ok st' \<and> out_ok out' cap \<and>
           (r \<in> {-3, -2, -1, 0} \<or> 6 \<le> r \<and> r \<le> 16 \<and> r \<le> int (room_of out cap))"
proof (cases "st_in_frame st = 0")
  case True
  have "dec_ok (st\<lparr>st_in_frame := 1, st_esc := 0, st_overflow := 0, st_count := 0\<rparr>)"
    using ok by (simp add: dec_ok_def)
  then show ?thesis using True ok out
    by (simp add: sk_decoder_feed_def dec_codes)
next
  case False
  with ok obtain xs e where rel: "dec_rel st (Collecting xs e)"
    using ok_rel_collecting by blast
  obtain a' vs where step: "afeed (room_of out cap) (Collecting xs e) b = (a', vs)"
    by (cases "afeed (room_of out cap) (Collecting xs e) b")
  obtain st' where feed: "sk_decoder_feed (Some st) b out cap =
      Some (result_of vs, Some st', deliver vs out)" and rel': "dec_rel st' a'"
    using feed_sim [OF rel out step] by blast
  have "a' \<noteq> Hunting" using step by (auto split: if_splits)
  then have "dec_ok st'" using rel' by (cases a') (auto dest: rel_ok)
  moreover have "result_of vs \<in> {-3, -2, -1, 0} \<or>
      6 \<le> result_of vs \<and> result_of vs \<le> 16 \<and> result_of vs \<le> int (room_of out cap)"
  proof (cases "vs = []")
    case False
    then obtain xs where "vs = [judge (room_of out cap) xs]" using afeed_verdicts [OF step] by blast
    then show ?thesis using code_range [of "room_of out cap" xs] by (auto simp: result_of_def)
  qed (simp add: result_of_def dec_codes)
  ultimately show ?thesis using feed out_ok_deliver [OF step out] by blast
qed

section \<open>Byte streams\<close>

text \<open>
  A receiver feeds the bytes one by one and looks at every result that is not
  \<open>SK_DEC_MORE\<close>, together with the bytes the result says were delivered.
\<close>

primrec feed_all ::
  "sk_decoder option \<Rightarrow> mem option \<Rightarrow> nat \<Rightarrow> u8 list \<Rightarrow>
   ((int \<times> mem) list \<times> sk_decoder option \<times> mem option) option" where
  "feed_all st out cap [] = Some ([], st, out)"
| "feed_all st out cap (b # bs) = do {
     (r, st1, out1) \<leftarrow> sk_decoder_feed st b out cap;
     (rs, st2, out2) \<leftarrow> feed_all st1 out1 cap bs;
     Some ((if r = SK_DEC_MORE then []
            else [(r, take (nat r) (case out1 of None \<Rightarrow> [] | Some m \<Rightarrow> m))]) @ rs, st2, out2)
   }"

primrec afeed_all :: "nat \<Rightarrow> astate \<Rightarrow> u8 list \<Rightarrow> astate \<times> verdict list" where
  "afeed_all room a [] = (a, [])"
| "afeed_all room a (b # bs) =
     (let (a1, vs) = afeed room a b; (a2, ws) = afeed_all room a1 bs in (a2, vs @ ws))"

text \<open>What the receiver sees of a verdict.\<close>

definition seen :: "verdict \<Rightarrow> int \<times> mem" where
  "seen v = (code v, map Some (bytes v))"

lemma afeed_all_append:
  "afeed_all room a (xs @ ys) =
   (let (a1, vs) = afeed_all room a xs; (a2, ws) = afeed_all room a1 ys in (a2, vs @ ws))"
  by (induction xs arbitrary: a) (simp_all add: case_prod_unfold Let_def)

lemma seen_judge:
  assumes "v = judge (room_of out cap) xs"
  shows "result_of [v] \<noteq> SK_DEC_MORE"
    and "(result_of [v], take (nat (result_of [v]))
           (case deliver [v] out of None \<Rightarrow> [] | Some m \<Rightarrow> m)) = seen v"
proof -
  show "result_of [v] \<noteq> SK_DEC_MORE"
    using code_range [of "room_of out cap" xs] assms by (auto simp: result_of_def dec_codes)
  show "(result_of [v], take (nat (result_of [v]))
           (case deliver [v] out of None \<Rightarrow> [] | Some m \<Rightarrow> m)) = seen v"
  proof (cases v)
    case (Payload p)
    then have "6 \<le> length p" "length p \<le> room_of out cap"
      using judge_payload [of "room_of out cap" xs p] assms by simp_all
    with Payload show ?thesis
      by (cases out) (simp_all add: result_of_def seen_def deliver_def filled_def room_of_def)
  qed (simp_all add: result_of_def seen_def dec_codes)
qed

lemma feed_all_sim:
  "dec_rel st a \<Longrightarrow> out_ok out cap \<Longrightarrow> afeed_all (room_of out cap) a bs = (a', vs) \<Longrightarrow>
   \<exists>st' out'. feed_all (Some st) out cap bs = Some (map seen vs, Some st', out') \<and>
     dec_rel st' a' \<and> out_ok out' cap \<and> (out' = None \<longleftrightarrow> out = None)"
proof (induction bs arbitrary: st a out vs)
  case Nil
  then show ?case by auto
next
  case (Cons b bs)
  obtain a1 us where step: "afeed (room_of out cap) a b = (a1, us)"
    by (cases "afeed (room_of out cap) a b")
  obtain ws where rest: "afeed_all (room_of out cap) a1 bs = (a', ws)" and vs: "vs = us @ ws"
    using Cons.prems(3) step by (auto split: prod.splits)
  let ?out1 = "deliver us out"
  obtain st1 where feed: "sk_decoder_feed (Some st) b out cap = Some (result_of us, Some st1, ?out1)"
    and rel1: "dec_rel st1 a1"
    using feed_sim [OF Cons.prems(1,2) step] by blast
  have out1: "out_ok ?out1 cap" using out_ok_deliver [OF step Cons.prems(2)] .
  obtain st' out' where all: "feed_all (Some st1) ?out1 cap bs = Some (map seen ws, Some st', out')"
    and fin: "dec_rel st' a'" "out_ok out' cap" "out' = None \<longleftrightarrow> out = None"
    using Cons.IH [OF rel1 out1] rest by auto
  have "(if result_of us = SK_DEC_MORE then []
         else [(result_of us, take (nat (result_of us))
                 (case ?out1 of None \<Rightarrow> [] | Some m \<Rightarrow> m))]) = map seen us"
    using afeed_verdicts [OF step]
  proof
    assume "us = []"
    then show ?thesis by (simp add: result_of_def)
  next
    assume "\<exists>xs. us = [judge (room_of out cap) xs]"
    then show ?thesis using seen_judge by auto
  qed
  then show ?case using feed all fin by (auto simp: vs)
qed

subsection \<open>What a stream means\<close>

text \<open>The stream cut at its flags, and a chunk with its escapes undone.\<close>

fun chunks :: "u8 list \<Rightarrow> u8 list list" where
  "chunks [] = [[]]"
| "chunks (b # bs) =
     (if b = 0x7E then [] # chunks bs
      else (b # hd (chunks bs)) # tl (chunks bs))"

fun unstuff :: "bool \<Rightarrow> u8 list \<Rightarrow> u8 list" where
  "unstuff e [] = []"
| "unstuff e (b # bs) =
     (if b = 0x7D then unstuff True bs
      else (if e then b XOR 0x20 else b) # unstuff False bs)"

definition judge_all :: "nat \<Rightarrow> u8 list list \<Rightarrow> verdict list" where
  "judge_all room xss = map (judge room) (filter (\<lambda>xs. xs \<noteq> []) xss)"

text \<open>
  The meaning of a stream: what lies before the first flag and after the last one is not a
  frame; every chunk between two flags is unstuffed and, unless it is empty, judged.
\<close>

definition stream_verdicts :: "nat \<Rightarrow> u8 list \<Rightarrow> verdict list" where
  "stream_verdicts room bs =
     judge_all room (map (unstuff False) (butlast (tl (chunks bs))))"

lemma chunks_nonempty [simp]: "chunks bs \<noteq> []"
  by (cases bs) auto

lemma judge_all_Cons [simp]:
  "judge_all room (x # xss) = (if x = [] then [] else [judge room x]) @ judge_all room xss"
  by (simp add: judge_all_def)

lemma judge_all_Nil [simp]: "judge_all room [] = []"
  by (simp add: judge_all_def)

lemma collecting_verdicts:
  "snd (afeed_all room (Collecting xs e) bs) =
   (case chunks bs of c # cs \<Rightarrow>
      judge_all room (butlast ((xs @ unstuff e c) # map (unstuff False) cs)))"
proof (induction bs arbitrary: xs e)
  case Nil
  then show ?case by simp
next
  case (Cons b bs)
  obtain c cs where chunks: "chunks bs = c # cs" by (cases "chunks bs") auto
  show ?case
    using Cons.IH [of "[]" False] Cons.IH [of xs True]
      Cons.IH [of "xs @ [if e then b XOR 0x20 else b]" False] chunks
    by (auto simp: case_prod_unfold Let_def)
qed

lemma hunting_verdicts: "snd (afeed_all room Hunting bs) = stream_verdicts room bs"
proof (induction bs)
  case Nil
  then show ?case by (simp add: stream_verdicts_def)
next
  case (Cons b bs)
  obtain c cs where "chunks bs = c # cs" by (cases "chunks bs") auto
  then show ?case using Cons collecting_verdicts [of room "[]" False bs]
    by (auto simp: case_prod_unfold Let_def stream_verdicts_def map_butlast split: if_splits)
qed

lemma init_hunting: "length (st_buf st) = 18 \<Longrightarrow>
  \<exists>st'. sk_decoder_init (Some st) = Some st' \<and> dec_rel st' Hunting"
  by (simp add: sk_decoder_init_def dec_rel_def)

lemma feed_all_stream:
  assumes "length (st_buf st) = 18" and "out_ok out cap"
  shows "\<exists>st' out'. feed_all (sk_decoder_init (Some st)) out cap bs =
           Some (map seen (stream_verdicts (room_of out cap) bs), Some st', out')"
proof -
  obtain st0 where st0: "sk_decoder_init (Some st) = Some st0" "dec_rel st0 Hunting"
    using init_hunting [OF assms(1)] by blast
  show ?thesis
    using feed_all_sim [OF st0(2) assms(2), of bs] hunting_verdicts [of "room_of out cap" bs]
    by (cases "afeed_all (room_of out cap) Hunting bs") (auto simp: st0(1))
qed

section \<open>Properties\<close>

text \<open>
  C6: what a byte stream means. A decoder that is initialised and then fed any bytes whatever
  reports, in order, one result for each chunk between two flags that is not empty: the
  chunk with its escapes undone is refused when it is longer than 18 bytes, shorter than 8,
  fails the checksum or does not fit the receiver's buffer, and its payload is delivered
  otherwise. What lies before the first flag or after the last one is not reported.
\<close>

theorem stream_meaning:
  assumes "length (st_buf st) = 18" and "out_ok out cap"
  shows "\<exists>st' out'. feed_all (sk_decoder_init (Some st)) out cap bs =
           Some (map seen (stream_verdicts (room_of out cap) bs), Some st', out')"
  by (rule feed_all_stream [OF assms])

theorem stream_meaning_witness:
  "\<exists>st' out'. feed_all (sk_decoder_init (Some \<lparr>st_in_frame = 9, st_esc = 9, st_overflow = 9,
       st_count = 99, st_buf = replicate 18 None\<rparr>)) (Some (replicate 16 None)) 16 [1, 0x7E, 2, 0x7D, 3, 0x7E] =
     Some (map seen (stream_verdicts (room_of (Some (replicate 16 (None :: u8 option))) 16)
             [1, 0x7E, 2, 0x7D, 3, 0x7E]), Some st', out')"
  by (rule stream_meaning) (simp_all add: out_ok_def)

text \<open>
  C15: safety of the decoder. In every state that satisfies the invariant, every byte is
  consumed without undefined behaviour, the invariant holds again, and the result is one of
  the four codes or a payload length from 6 to 16 that fits the receiver's buffer.
\<close>

theorem decoder_safe:
  assumes "dec_ok st" and "out_ok out cap"
  shows "\<exists>r st' out'. sk_decoder_feed (Some st) b out cap = Some (r, Some st', out') \<and>
           dec_ok st' \<and> out_ok out' cap \<and>
           (r \<in> {SK_DEC_ERR_OFLOW, SK_DEC_ERR_CRC, SK_DEC_ERR_LEN, SK_DEC_MORE} \<or>
            6 \<le> r \<and> r \<le> 16 \<and> r \<le> int (room_of out cap))"
  using feed_total [OF assms, of b] unfolding dec_codes .

theorem decoder_safe_witness:
  "\<exists>r st' out'. sk_decoder_feed (Some \<lparr>st_in_frame = 1, st_esc = 1, st_overflow = 0, st_count = 2,
        st_buf = [Some 1, Some 2] @ replicate 16 None\<rparr>) 0x7E (Some [None]) 1 = Some (r, Some st', out') \<and>
     dec_ok st' \<and> out_ok out' 1 \<and>
     (r \<in> {SK_DEC_ERR_OFLOW, SK_DEC_ERR_CRC, SK_DEC_ERR_LEN, SK_DEC_MORE} \<or>
      6 \<le> r \<and> r \<le> 16 \<and> r \<le> int (room_of (Some [None :: u8 option]) 1))"
  by (rule decoder_safe) (simp_all add: dec_ok_def out_ok_def)

text \<open>
  Every flag resets. Whatever the decoder holds, a flag leaves it at the start of a
  frame, with no escape pending, no overflow noted and no byte collected; every other byte
  yields \<open>SK_DEC_MORE\<close> and delivers nothing.
\<close>

lemma flag_resets:
  assumes "sk_decoder_feed (Some st) b out cap = Some (r, st', out')"
  shows "if b = SK_FLAG
         then st' = Some (st\<lparr>st_in_frame := 1, st_esc := 0, st_overflow := 0, st_count := 0\<rparr>)
         else r = SK_DEC_MORE \<and> out' = out"
  using assms
  by (auto simp: sk_decoder_feed_def Let_def split: if_splits bind_splits)

end
