(* ===== verification/Codec.thy ===== *)
theory Codec
  imports Frame_Decode
begin

text \<open>
  Encoder and decoder together: the contract of a framed link as an interface, its
  interpretation on \<open>sk_frame_encode\<close> and \<open>sk_decoder_feed\<close>, and the facts a sender and a
  receiver at the two ends of a byte stream rely on: round trip, resynchronisation,
  rejection of damaged frames.
\<close>

section \<open>The interface\<close>

text \<open>
  A link sends messages (\<open>enc\<close>) over a byte stream; the receiver is a state machine that may
  fault (\<open>None\<close>) and hands out messages as it goes. The laws: consuming a stream is
  compositional, and a frame that starts when nothing is pending arrives, whole and alone.
  \<open>idle\<close> bytes are those that the receiver ignores while nothing is pending.
\<close>

locale framed_link =
  fixes enc :: "'m \<Rightarrow> 'b list"
    and ok :: "'m \<Rightarrow> bool"
    and dec :: "'s \<Rightarrow> 'b list \<Rightarrow> ('s \<times> 'm list) option"
    and quiet :: "'s \<Rightarrow> bool"
    and hunting :: "'s \<Rightarrow> bool"
    and noise :: "'b \<Rightarrow> bool"
  assumes dec_Nil: "dec s [] = Some (s, [])"
    and dec_append: "dec s xs = Some (s1, ms) \<Longrightarrow> dec s1 ys = Some (s2, ns) \<Longrightarrow>
          dec s (xs @ ys) = Some (s2, ms @ ns)"
    and dec_frame: "quiet s \<Longrightarrow> ok m \<Longrightarrow> \<exists>s1. dec s (enc m) = Some (s1, [m]) \<and> quiet s1"
    and hunting_quiet: "hunting s \<Longrightarrow> quiet s"
    and dec_noise: "hunting s \<Longrightarrow> noise b \<Longrightarrow> \<exists>s1. dec s [b] = Some (s1, []) \<and> hunting s1"
begin

lemma dec_frames:
  assumes "quiet s" and "\<forall>m\<in>set ms. ok m"
  shows "\<exists>s1. dec s (concat (map enc ms)) = Some (s1, ms) \<and> quiet s1"
  using assms
proof (induction ms arbitrary: s)
  case Nil
  then show ?case by (simp add: dec_Nil)
next
  case (Cons m ms)
  then obtain s1 where s1: "dec s (enc m) = Some (s1, [m])" "quiet s1" using dec_frame by force
  then obtain s2 where "dec s1 (concat (map enc ms)) = Some (s2, ms)" "quiet s2"
    using Cons by force
  with dec_append [OF s1(1)] show ?case by force
qed

lemma dec_noises:
  assumes "hunting s" and "\<forall>b\<in>set bs. noise b"
  shows "\<exists>s1. dec s bs = Some (s1, []) \<and> hunting s1"
  using assms
proof (induction bs arbitrary: s)
  case Nil
  then show ?case by (simp add: dec_Nil)
next
  case (Cons b bs)
  then obtain s1 where s1: "dec s [b] = Some (s1, [])" "hunting s1" using dec_noise by force
  then obtain s2 where "dec s1 bs = Some (s2, [])" "hunting s2" using Cons by force
  with dec_append [OF s1(1)] show ?case by force
qed

text \<open>A receiver that starts hunting skips a banner and then gets every message, in order.\<close>

lemma dec_banner_frames:
  assumes "hunting s" and "\<forall>b\<in>set bs. noise b" and "\<forall>m\<in>set ms. ok m"
  shows "\<exists>s1. dec s (bs @ concat (map enc ms)) = Some (s1, ms) \<and> quiet s1"
proof -
  obtain s1 where s1: "dec s bs = Some (s1, [])" "hunting s1"
    using dec_noises [OF assms(1,2)] by blast
  obtain s2 where "dec s1 (concat (map enc ms)) = Some (s2, ms)" "quiet s2"
    using dec_frames [OF hunting_quiet [OF s1(2)] assms(3)] by blast
  then show ?thesis using dec_append [OF s1(1)] by force
qed

end

section \<open>Frames through the abstract decoder\<close>

lemma stuff_collect:
  "afeed_all room (Collecting ys False) (stuff xs) = (Collecting (ys @ xs) False, [])"
proof (induction xs arbitrary: ys)
  case Nil
  then show ?case by simp
next
  case (Cons x xs)
  have "x XOR 0x20 \<noteq> 0x7E \<and> x XOR 0x20 \<noteq> 0x7D" if "x = 0x7E \<or> x = 0x7D" using that by auto
  moreover have "(x XOR 0x20) XOR 0x20 = x" by (simp add: xor.assoc)
  ultimately show ?case using Cons [of "ys @ [x]"] by auto
qed

lemma judge_inner:
  assumes "sendable p" and "length p \<le> room"
  shows "judge room (inner_of p) = Payload p"
  using assms inner_of_valid [of p]
  by (simp add: judge_def sendable_def) (simp add: inner_of_def)

text \<open>What is pending when a frame starts is judged by its opening flag.\<close>

fun pending :: "nat \<Rightarrow> astate \<Rightarrow> verdict list" where
  "pending room Hunting = []"
| "pending room (Collecting xs e) = (if xs = [] then [] else [judge room xs])"

lemma afeed_flag: "afeed room a 0x7E = (Collecting [] False, pending room a)"
  by (cases a) auto

lemma stuff_frame_verdicts:
  "afeed_all room a (stuff_frame xs) =
     (Collecting [] False, pending room a @ (if xs = [] then [] else [judge room xs]))"
  using stuff_collect [of room "[]" xs]
  by (simp add: stuff_frame_def afeed_flag afeed_all_append)

lemma frame_verdicts:
  assumes "sendable p" and "length p \<le> room"
  shows "afeed_all room a (wire_frame p) = (Collecting [] False, pending room a @ [Payload p])"
  using judge_inner [OF assms]
  by (simp add: wire_frame_def stuff_frame_verdicts) (simp add: inner_of_def)

section \<open>The link of the program\<close>

text \<open>
  The receiver of the tests and of the gateway: a decoder and an output buffer of capacity
  \<open>cap\<close>; the messages are the payloads of the positive results.
\<close>

definition payloads :: "(int \<times> mem) list \<Rightarrow> u8 list list" where
  "payloads rs = map (\<lambda>(r, m). map the m) (filter (\<lambda>(r, m). 0 < r) rs)"

definition receive ::
  "nat \<Rightarrow> sk_decoder \<times> mem \<Rightarrow> u8 list \<Rightarrow> ((sk_decoder \<times> mem) \<times> u8 list list) option" where
  "receive cap s bs =
     (case feed_all (Some (fst s)) (Some (snd s)) cap bs of
        Some (rs, Some st, Some out) \<Rightarrow> Some ((st, out), payloads rs)
      | _ \<Rightarrow> None)"

definition hunting_rx :: "nat \<Rightarrow> sk_decoder \<times> mem \<Rightarrow> bool" where
  "hunting_rx cap s \<longleftrightarrow> dec_rel (fst s) Hunting \<and> 16 \<le> cap \<and> cap \<le> length (snd s)"

definition quiet_rx :: "nat \<Rightarrow> sk_decoder \<times> mem \<Rightarrow> bool" where
  "quiet_rx cap s \<longleftrightarrow>
     (dec_rel (fst s) Hunting \<or> dec_rel (fst s) (Collecting [] False)) \<and>
     16 \<le> cap \<and> cap \<le> length (snd s)"

lemma feed_all_append:
  "feed_all st out cap (xs @ ys) = do {
     (rs, st1, out1) \<leftarrow> feed_all st out cap xs;
     (qs, st2, out2) \<leftarrow> feed_all st1 out1 cap ys;
     Some (rs @ qs, st2, out2)
   }"
proof (induction xs arbitrary: st out)
  case Nil
  then show ?case by (cases "feed_all st out cap ys") auto
next
  case (Cons x xs)
  show ?case
    by (cases "sk_decoder_feed st x out cap") (auto simp: Cons split: bind_split prod.splits)
qed

lemma payloads_append [simp]: "payloads (rs @ qs) = payloads rs @ payloads qs"
  by (simp add: payloads_def)

lemma payloads_Nil [simp]: "payloads [] = []"
  by (simp add: payloads_def)

lemma payloads_one: "p \<noteq> [] \<Longrightarrow> payloads [seen (Payload p)] = [p]"
  by (simp add: payloads_def seen_def comp_def)

text \<open>The receiver follows the abstract decoder.\<close>

lemma receive_sim:
  assumes "dec_rel st a" and "cap \<le> length out" and "afeed_all cap a bs = (a', vs)"
  shows "\<exists>st' out'. receive cap (st, out) bs = Some ((st', out'), payloads (map seen vs)) \<and>
           dec_rel st' a' \<and> cap \<le> length out'"
proof -
  obtain st' o' where "feed_all (Some st) (Some out) cap bs = Some (map seen vs, Some st', o')"
    and "dec_rel st' a'" and "out_ok o' cap" and "o' \<noteq> None"
    using feed_all_sim [OF assms(1), of "Some out" cap bs a' vs] assms(2,3)
    by (auto simp: out_ok_def room_of_def)
  then show ?thesis by (auto simp: receive_def out_ok_def)
qed

lemma receive_append:
  assumes "receive cap s xs = Some (s1, ms)" and "receive cap s1 ys = Some (s2, ns)"
  shows "receive cap s (xs @ ys) = Some (s2, ms @ ns)"
  using assms unfolding receive_def feed_all_append
  by (auto split: option.splits prod.splits)

lemma rx_cases:
  assumes "quiet_rx cap s"
  obtains a where "dec_rel (fst s) a" "pending cap a = []" "16 \<le> cap" "cap \<le> length (snd s)"
  using assms by (auto simp: quiet_rx_def)

interpretation link: framed_link wire_frame sendable "receive cap" "quiet_rx cap" "hunting_rx cap"
  "\<lambda>b. b \<noteq> 0x7E" for cap
proof unfold_locales
  show "receive cap s [] = Some (s, [])" for s
    by (simp add: receive_def payloads_def)
  show "receive cap s (xs @ ys) = Some (s2, ms @ ns)"
    if "receive cap s xs = Some (s1, ms)" "receive cap s1 ys = Some (s2, ns)" for s xs s1 ms ys s2 ns
    using that by (rule receive_append)
  show "\<exists>s1. receive cap s (wire_frame p) = Some (s1, [p]) \<and> quiet_rx cap s1"
    if q: "quiet_rx cap s" and p: "sendable p" for s p
  proof -
    obtain a where a: "dec_rel (fst s) a" "pending cap a = []" "16 \<le> cap" "cap \<le> length (snd s)"
      using q by (rule rx_cases)
    have run: "afeed_all cap a (wire_frame p) = (Collecting [] False, [Payload p])"
      using frame_verdicts [OF p, of cap a] p a by (simp add: sendable_def)
    have "p \<noteq> []" using p by (auto simp: sendable_def)
    then show ?thesis
      using receive_sim [OF a(1,4) run] a(3)
      by (cases s) (auto simp: quiet_rx_def payloads_one)
  qed
  show "quiet_rx cap s" if "hunting_rx cap s" for s
    using that by (simp add: hunting_rx_def quiet_rx_def)
  show "\<exists>s1. receive cap s [b] = Some (s1, []) \<and> hunting_rx cap s1"
    if h: "hunting_rx cap s" and b: "b \<noteq> 0x7E" for s b
  proof -
    have run: "afeed_all cap Hunting [b] = (Hunting, [])" using b by simp
    show ?thesis
      using h receive_sim [of "fst s" Hunting cap "snd s", OF _ _ run]
      by (cases s) (auto simp: hunting_rx_def payloads_one)
  qed
qed

section \<open>A stream that is cut off\<close>

text \<open>Nothing is judged before the next flag, so a frame that is cut off delivers nothing.\<close>

lemma afeed_all_no_flag:
  assumes "\<forall>b\<in>set bs. b \<noteq> 0x7E" shows "snd (afeed_all room a bs) = []"
  using assms
proof (induction bs arbitrary: a)
  case Nil
  then show ?case by simp
next
  case (Cons b bs)
  then have "snd (afeed room a b) = []" by (cases a) auto
  with Cons show ?case by (simp add: case_prod_unfold Let_def)
qed

lemma cut_frame_verdicts:
  assumes "k < length (wire_frame p)"
  shows "snd (afeed_all room a (take k (wire_frame p))) = (if k = 0 then [] else pending room a)"
proof (cases k)
  case (Suc j)
  let ?bs = "take j (stuff (inner_of p))"
  have cut: "take k (wire_frame p) = 0x7E # ?bs"
    using assms(1) by (simp add: wire_frame_def stuff_frame_def Suc)
  have "\<forall>b\<in>set ?bs. b \<noteq> 0x7E" using stuff_no_flag by (auto dest: in_set_takeD)
  then have "snd (afeed_all room (Collecting [] False) ?bs) = []" by (rule afeed_all_no_flag)
  then show ?thesis unfolding cut using Suc by (simp add: afeed_flag case_prod_unfold Let_def)
qed simp

lemma cut_frame:
  assumes q: "quiet_rx cap s" and k: "k < length (wire_frame p)"
  shows "\<exists>s1. receive cap s (take k (wire_frame p)) = Some (s1, [])"
proof -
  obtain a where a: "dec_rel (fst s) a" "pending cap a = []" "16 \<le> cap" "cap \<le> length (snd s)"
    using q by (rule rx_cases)
  obtain a' where "afeed_all cap a (take k (wire_frame p)) = (a', [])"
    using cut_frame_verdicts [OF k, of cap a] a(2) by (metis prod.collapse)
  then show ?thesis using receive_sim [OF a(1,4)] by (cases s) fastforce
qed

section \<open>Resynchronisation and damage\<close>

text \<open>
  Whatever a decoder in good order has seen before, a frame that follows is delivered: at
  most one other result, the verdict on what was pending, comes before it.
\<close>

lemma resync:
  assumes st: "dec_ok st" and room: "16 \<le> cap" "cap \<le> length out" and p: "sendable p"
  shows "\<exists>rs st' out'. feed_all (Some st) (Some out) cap (wire_frame p) =
           Some (rs @ [(int (length p), map Some p)], Some st', Some out') \<and> length rs \<le> 1"
proof -
  obtain a where rel: "dec_rel st a" using dec_ok_rel [OF st] by blast
  have run: "afeed_all (room_of (Some out) cap) a (wire_frame p) =
      (Collecting [] False, pending cap a @ [Payload p])"
    using frame_verdicts [OF p, of cap a] p room by (simp add: sendable_def room_of_def)
  have "out_ok (Some out) cap" using room by (simp add: out_ok_def)
  from feed_all_sim [OF rel this run]
  have "\<exists>st' out'. feed_all (Some st) (Some out) cap (wire_frame p) =
      Some (map seen (pending cap a) @ [(int (length p), map Some p)], Some st', Some out')"
    by (auto simp: seen_def)
  moreover have "length (map seen (pending cap a)) \<le> 1" by (cases a) auto
  ultimately show ?thesis by blast
qed

text \<open>A body of the right length that is not the one sent.\<close>

definition damaged :: "u8 list \<Rightarrow> u8 list \<Rightarrow> bool" where
  "damaged p bad \<longleftrightarrow> length bad = length p + 2 \<and> bad \<noteq> inner_of p"

lemma judge_damaged:
  assumes p: "sendable p" and bad: "damaged p bad"
    and err: "hamming bad (inner_of p) < 4 \<or> odd (hamming bad (inner_of p)) \<or>
              within_burst i bad (inner_of p)"
  shows "judge room bad = Err_crc"
proof -
  have len: "length bad = length (inner_of p)" and neq: "bad \<noteq> inner_of p"
    using bad by (simp_all add: damaged_def)
  have "\<not> crc_valid bad"
  proof
    assume v: "crc_valid bad"
    note facts = len v inner_of_valid [of p]
    show False
      using err neq valid_distance [OF len _ v inner_of_valid] valid_odd_distance [OF facts]
        valid_burst [OF facts] p by (auto simp: sendable_def)
  qed
  then show ?thesis using p len by (simp add: judge_def sendable_def)
qed

lemma damaged_result:
  assumes "dec_rel st a" and "pending (room_of out cap) a = []" and "out_ok out cap"
    and "sendable p" and "damaged p bad"
    and "hamming bad (inner_of p) < 4 \<or> odd (hamming bad (inner_of p)) \<or>
         within_burst i bad (inner_of p)"
  shows "\<exists>st' out'. feed_all (Some st) out cap (stuff_frame bad) =
           Some ([(SK_DEC_ERR_CRC, [])], Some st', out')"
proof -
  have "bad \<noteq> []" using assms(5) by (auto simp: damaged_def)
  then have "afeed_all (room_of out cap) a (stuff_frame bad) = (Collecting [] False, [Err_crc])"
    using judge_damaged [OF assms(4-6)] assms(2) by (simp add: stuff_frame_verdicts)
  then show ?thesis
    using feed_all_sim [OF assms(1,3)] by (fastforce simp: seen_def)
qed

section \<open>Properties\<close>

text \<open>A receiver just reset, with room for every payload, is hunting.\<close>

lemma reset_hunting:
  "length (st_buf st) = 18 \<Longrightarrow> 16 \<le> cap \<Longrightarrow> cap \<le> length out \<Longrightarrow>
   hunting_rx cap (the (sk_decoder_init (Some st)), out)"
  by (simp add: hunting_rx_def sk_decoder_init_def dec_rel_def)

text \<open>
  The round trip of the link. A decoder that is reset and then fed a banner without
  flags, followed by the frames the encoder writes for any payloads of 6 to 16 bytes, hands
  out exactly these payloads, in order, and nothing else.
\<close>

lemma link_in_order:
  assumes "length (st_buf st) = 18" and "16 \<le> cap" and "cap \<le> length out"
    and "\<forall>b\<in>set noise. b \<noteq> SK_FLAG" and "\<forall>p\<in>set ps. 6 \<le> length p \<and> length p \<le> 16"
  shows "\<exists>rx. receive cap (the (sk_decoder_init (Some st)), out) (noise @ concat (map wire_frame ps)) =
           Some (rx, ps)"
  using link.dec_banner_frames [OF reset_hunting [OF assms(1-3)], of noise ps] assms(4,5)
  by (auto simp: sendable_def SK_FLAG_def)

text \<open>A frame up to its closing flag gives no result; the closing flag delivers.\<close>

lemma frame_fed:
  assumes "dec_rel st Hunting" and p: "sendable p" "length p \<le> cap" and "cap \<le> length out"
  shows "\<exists>st1 out1 st2 out2.
           feed_all (Some st) (Some out) cap (butlast (wire_frame p)) = Some ([], Some st1, Some out1) \<and>
           sk_decoder_feed (Some st1) 0x7E (Some out1) cap = Some (int (length p), Some st2, Some out2) \<and>
           take (length p) out2 = map Some p"
proof -
  have ok: "out_ok (Some out) cap" and room: "room_of (Some out) cap = cap"
    using assms(4) by (simp_all add: out_ok_def room_of_def)
  have "butlast (wire_frame p) = 0x7E # stuff (inner_of p)"
    by (simp add: wire_frame_def stuff_frame_def butlast_append)
  then have run: "afeed_all (room_of (Some out) cap) Hunting (butlast (wire_frame p)) =
      (Collecting (inner_of p) False, [])"
    using stuff_collect [of cap "[]" "inner_of p"] by (simp add: room)
  obtain st1 out1 where feed: "feed_all (Some st) (Some out) cap (butlast (wire_frame p)) =
      Some ([], Some st1, Some out1)" and rel: "dec_rel st1 (Collecting (inner_of p) False)"
    and out1: "out_ok (Some out1) cap"
    using feed_all_sim [OF assms(1) ok run] by auto
  have room1: "room_of (Some out1) cap = cap" by (simp add: room_of_def)
  have flag: "afeed (room_of (Some out1) cap) (Collecting (inner_of p) False) 0x7E =
      (Collecting [] False, [Payload p])"
    using judge_inner [OF p] by (simp add: room1) (simp add: inner_of_def)
  obtain st2 where "sk_decoder_feed (Some st1) 0x7E (Some out1) cap =
      Some (int (length p), Some st2, Some (filled p out1))"
    using feed_sim [OF rel out1 flag] by (auto simp: result_of_def deliver_def)
  then show ?thesis using feed by (fastforce simp: filled_def)
qed

text \<open>
  C10: one payload through both routines. Of what \<open>sk_frame_encode\<close> has written for a payload,
  every byte but the last, fed to a reset decoder, makes \<open>sk_decoder_feed\<close> return
  \<open>SK_DEC_MORE\<close> (\<open>feed_all\<close> collects the results that are not); at the last byte it returns the
  payload's length, with the payload in the receiver's buffer.
\<close>

theorem codec_roundtrip:
  assumes "6 \<le> length p" and "length p \<le> 16" and "SK_FRAME_MAX \<le> cap" and "cap \<le> length m"
    and "length (st_buf st) = 18" and "length p \<le> rcap" and "rcap \<le> length out"
  shows "\<exists>n b st1 out1 st2 out2.
           sk_frame_encode (Some (map Some p)) (length p) (Some m) cap = Some (int (Suc n), Some b) \<and>
           feed_all (sk_decoder_init (Some st)) (Some out) rcap (map the (take n b)) =
             Some ([], st1, out1) \<and>
           sk_decoder_feed st1 (the (b ! n)) out1 rcap = Some (int (length p), st2, Some out2) \<and>
           take (length p) out2 = map Some p"
proof -
  have p: "sendable p" using assms by (simp add: sendable_def)
  let ?n = "length (wire_frame p) - 1" and ?b = "filled (wire_frame p) m"
  have n: "length (wire_frame p) = Suc ?n" by (simp add: wire_frame_def stuff_frame_def)
  have enc: "sk_frame_encode (Some (map Some p)) (length p) (Some m) cap = Some (int (Suc ?n), Some ?b)"
    using sk_frame_encode_room [OF p assms(3,4), of "[]"] n by simp
  have wire: "map the (take ?n ?b) = butlast (wire_frame p)"
    by (simp add: filled_def comp_def take_map butlast_conv_take)
  have flag: "the (?b ! ?n) = 0x7E" by (simp add: filled_def nth_append wire_frame_def stuff_frame_def)
  obtain st0 where st0: "sk_decoder_init (Some st) = Some st0" "dec_rel st0 Hunting"
    using init_hunting [OF assms(5)] by blast
  from frame_fed [OF st0(2) p assms(6,7)] show ?thesis
    using enc wire flag st0(1) by metis
qed

theorem codec_roundtrip_witness:
  "\<exists>n b st1 out1 st2 out2.
     sk_frame_encode (Some (map Some [1, 2, 0, 0, 0x7E, 0x7D])) (length [1, 2, 0, 0, 0x7E, 0x7D :: u8])
       (Some (replicate 38 None)) 38 = Some (int (Suc n), Some b) \<and>
     feed_all (sk_decoder_init (Some \<lparr>st_in_frame = 0, st_esc = 0, st_overflow = 0, st_count = 0,
         st_buf = replicate 18 None\<rparr>)) (Some (replicate 16 None)) 16 (map the (take n b)) =
       Some ([], st1, out1) \<and>
     sk_decoder_feed st1 (the (b ! n)) out1 16 =
       Some (int (length [1, 2, 0, 0, 0x7E, 0x7D :: u8]), st2, Some out2) \<and>
     take (length [1, 2, 0, 0, 0x7E, 0x7D :: u8]) out2 = map Some [1, 2, 0, 0, 0x7E, 0x7D]"
  by (rule codec_roundtrip) simp_all

text \<open>
  Resynchronisation. Whatever a decoder in good order has been fed before, noise, half a
  frame or an overlong one, the next complete frame is delivered; before it comes at most
  one other result, the verdict on what was pending.
\<close>

lemma decoder_resyncs:
  assumes "dec_ok st" and "16 \<le> cap" and "cap \<le> length out"
    and "6 \<le> length p" and "length p \<le> 16"
  shows "\<exists>rs st' out'. feed_all (Some st) (Some out) cap (wire_frame p) =
           Some (rs @ [(int (length p), map Some p)], Some st', Some out') \<and> length rs \<le> 1"
  using resync [OF assms(1-3), of p] assms(4,5) by (simp add: sendable_def)

text \<open>
  Damage is reported. A frame whose body (payload and checksum) was changed in one, two,
  three or any odd number of bits, or only within sixteen consecutive bits, and then framed
  again, is answered with \<open>SK_DEC_ERR_CRC\<close>; nothing of it is delivered.
\<close>

lemma damage_rejected:
  assumes "length (st_buf st) = 18" and "out_ok out cap"
    and "6 \<le> length p" and "length p \<le> 16"
    and "length bad = length p + 2" and "bad \<noteq> inner_of p"
    and "hamming bad (inner_of p) < 4 \<or> odd (hamming bad (inner_of p)) \<or>
         within_burst i bad (inner_of p)"
  shows "\<exists>st' out'. feed_all (sk_decoder_init (Some st)) out cap (stuff_frame bad) =
           Some ([(SK_DEC_ERR_CRC, [])], Some st', out')"
proof -
  obtain st0 where st0: "sk_decoder_init (Some st) = Some st0" "dec_rel st0 Hunting"
    using init_hunting [OF assms(1)] by blast
  show ?thesis unfolding st0(1)
    using damaged_result [OF st0(2) _ assms(2) _ _ assms(7)] assms(3-6)
    by (simp add: sendable_def damaged_def)
qed

text \<open>
  A bad escape is not reported. A frame that ends in an escape byte right before its
  closing flag, an escape that escapes nothing, is delivered like the sound frame, and the
  results show no error.
\<close>

lemma bad_escape_accepted:
  assumes "length (st_buf st) = 18" and "6 \<le> length p" and "length p \<le> 16"
    and "length p \<le> cap" and "cap \<le> length out"
  shows "\<exists>st' out'. feed_all (sk_decoder_init (Some st)) (Some out) cap
             ([SK_FLAG] @ stuff (inner_of p) @ [SK_ESC, SK_FLAG]) =
           Some ([(int (length p), map Some p)], Some st', out')"
proof -
  have p: "sendable p" using assms by (simp add: sendable_def)
  obtain st0 where st0: "sk_decoder_init (Some st) = Some st0" "dec_rel st0 Hunting"
    using init_hunting [OF assms(1)] by blast
  have "inner_of p \<noteq> []" by (simp add: inner_of_def)
  then have run: "afeed_all (room_of (Some out) cap) Hunting
        ([SK_FLAG] @ stuff (inner_of p) @ [SK_ESC, SK_FLAG]) = (Collecting [] False, [Payload p])"
    using judge_inner [OF p assms(4)]
    by (simp add: afeed_all_append stuff_collect SK_FLAG_def SK_ESC_def room_of_def)
  have "out_ok (Some out) cap" using assms(5) by (simp add: out_ok_def)
  from feed_all_sim [OF st0(2) this run] show ?thesis by (fastforce simp: seen_def st0(1))
qed

end
