(* ===== verification/Uart.thy ===== *)
theory Uart
  imports Mmio
begin

text \<open>
  The polled UART0 driver of \<open>firmware/uart.c\<close> over a memory-mapped device, the documented
  behaviour of such a device, and the interface the rest of the firmware uses: a sink that
  takes bytes in order.
\<close>

section \<open>Registers\<close>

definition UART0_BASE :: u32 where [simp]: "UART0_BASE = 0x4000C000"
definition UART_DR :: u32 where "UART_DR = UART0_BASE + 0x000"
definition UART_FR :: u32 where "UART_FR = UART0_BASE + 0x018"
definition UART_IBRD :: u32 where "UART_IBRD = UART0_BASE + 0x024"
definition UART_FBRD :: u32 where "UART_FBRD = UART0_BASE + 0x028"
definition UART_LCRH :: u32 where "UART_LCRH = UART0_BASE + 0x02C"
definition UART_CTL :: u32 where "UART_CTL = UART0_BASE + 0x030"
definition SYSCTL_RCGC1 :: u32 where "SYSCTL_RCGC1 = SYSCTL_BASE + 0x104"

definition UART_FR_RXFE :: u32 where "UART_FR_RXFE = push_bit 4 1"
definition UART_FR_TXFF :: u32 where "UART_FR_TXFF = push_bit 5 1"
definition UART_LCRH_FEN :: u32 where "UART_LCRH_FEN = push_bit 4 1"
definition UART_LCRH_WLEN_8 :: u32 where "UART_LCRH_WLEN_8 = push_bit 5 3"
definition UART_CTL_UARTEN :: u32 where "UART_CTL_UARTEN = push_bit 0 1"
definition UART_CTL_TXE :: u32 where "UART_CTL_TXE = push_bit 8 1"
definition UART_CTL_RXE :: u32 where "UART_CTL_RXE = push_bit 9 1"
definition SYSCTL_RCGC1_UART0 :: u32 where "SYSCTL_RCGC1_UART0 = push_bit 0 1"
definition UART_IBRD_115200 :: u32 where "UART_IBRD_115200 = 6"
definition UART_FBRD_115200 :: u32 where "UART_FBRD_115200 = 33"

lemmas uart_regs =
  UART_DR_def UART_FR_def UART_IBRD_def UART_FBRD_def UART_LCRH_def UART_CTL_def SYSCTL_RCGC1_def

section \<open>The driver\<close>

definition uart_init :: "'d mmio \<Rightarrow> 'd \<Rightarrow> 'd" where
  "uart_init dev d =
     (let d = or_reg dev SYSCTL_RCGC1 SYSCTL_RCGC1_UART0 d;
          d = snd (load_reg dev d SYSCTL_RCGC1);
          d = store_reg dev d UART_CTL 0;
          d = store_reg dev d UART_IBRD UART_IBRD_115200;
          d = store_reg dev d UART_FBRD UART_FBRD_115200;
          d = store_reg dev d UART_LCRH (UART_LCRH_WLEN_8 OR UART_LCRH_FEN)
      in store_reg dev d UART_CTL (UART_CTL_UARTEN OR UART_CTL_TXE OR UART_CTL_RXE))"

text \<open>A \<open>char\<close> is its bit pattern, which is what \<open>(uint32_t)(uint8_t)c\<close> sends.\<close>

definition uart_putc :: "'d mmio \<Rightarrow> 'd \<Rightarrow> u8 \<Rightarrow> 'd option" where
  "uart_putc dev d c = do {
     d \<leftarrow> spin dev UART_FR UART_FR_TXFF d;
     Some (store_reg dev d UART_DR (ucast c))
   }"

text \<open>\<open>i\<close> is how far \<open>s\<close> has moved. A string without its terminator is read past its end.\<close>

function uart_puts :: "'d mmio \<Rightarrow> mem \<Rightarrow> nat \<Rightarrow> 'd \<Rightarrow> 'd option" where
  "uart_puts dev s i d =
     (if i < length s
      then (case s ! i of
              None \<Rightarrow> None
            | Some c \<Rightarrow>
                if c \<noteq> 0
                then (case uart_putc dev d c of
                        None \<Rightarrow> None
                      | Some d \<Rightarrow> uart_puts dev s (Suc i) d)
                else Some d)
      else None)"
  by pat_completeness auto
termination
  by (relation "measure (\<lambda>(dev, s, i, d). length s - i)") auto

function uart_write_loop :: "'d mmio \<Rightarrow> mem \<Rightarrow> nat \<Rightarrow> nat \<Rightarrow> 'd \<Rightarrow> 'd option" where
  "uart_write_loop dev data i len d =
     (if i < len
      then do {
        b \<leftarrow> rd data i;
        d \<leftarrow> uart_putc dev d b;
        uart_write_loop dev data (Suc i) len d
      }
      else Some d)"
  by pat_completeness auto
termination
  by (relation "measure (\<lambda>(dev, data, i, len, d). len - i)") auto

declare uart_puts.simps [simp del] uart_write_loop.simps [simp del]

definition uart_write :: "'d mmio \<Rightarrow> mem \<Rightarrow> nat \<Rightarrow> 'd \<Rightarrow> 'd option" where
  "uart_write dev data len d = uart_write_loop dev data 0 len d"

definition uart_try_getc :: "'d mmio \<Rightarrow> 'd \<Rightarrow> int \<times> 'd" where
  "uart_try_getc dev d =
     (let (v, d) = load_reg dev d UART_FR in
      if v AND UART_FR_RXFE \<noteq> 0 then (-1, d)
      else let (w, d) = load_reg dev d UART_DR in (uint (w AND 0xFF), d))"

text \<open>The low byte of a register is what a cast to eight bits keeps.\<close>

lemma low_byte_value: "uint (w AND 0xFF) = uint (ucast w :: u8)" for w :: u32
proof -
  have "(0xFF :: u32) = mask 8" by (simp add: mask_numeral)
  then show ?thesis
    by (simp only: flip: take_bit_eq_mask) (simp add: unsigned_take_bit_eq unsigned_ucast_eq)
qed

section \<open>The device\<close>

text \<open>
  The documented behaviour of UART0 (LM3S6965 data sheet): \<open>conf\<close> is what its configuration
  registers hold, \<open>sent\<close> what has entered the transmit FIFO so far, \<open>good\<close> delimits the
  states. Loads other than of \<open>DR\<close> and stores to configuration registers transmit nothing.
  While the unit is clocked, enabled for transmission, has a baud rate and eight data bits,
  a full FIFO drains as time passes (\<open>level\<close>), and a byte stored in \<open>DR\<close> when the FIFO was
  seen not full is transmitted behind the earlier ones.
\<close>

definition operational :: "(u32 \<Rightarrow> u32) \<Rightarrow> bool" where
  "operational regs \<longleftrightarrow>
     bit (regs SYSCTL_RCGC1) 0 \<and> bit (regs UART_CTL) 0 \<and> bit (regs UART_CTL) 8 \<and>
     regs UART_IBRD \<noteq> 0 \<and> regs UART_LCRH AND 0x60 = 0x60"

definition uart_device ::
  "'d mmio \<Rightarrow> ('d \<Rightarrow> bool) \<Rightarrow> ('d \<Rightarrow> u32 \<Rightarrow> u32) \<Rightarrow> ('d \<Rightarrow> nat) \<Rightarrow> ('d \<Rightarrow> u8 list) \<Rightarrow> bool" where
  "uart_device dev good conf level sent \<longleftrightarrow>
     (\<forall>d a. good d \<and> a \<noteq> UART_DR \<longrightarrow>
        (let d' = snd (load_reg dev d a) in good d' \<and> conf d' = conf d \<and> sent d' = sent d)) \<and>
     (\<forall>d a v. good d \<and> a \<in> {SYSCTL_RCGC1, UART_CTL, UART_IBRD, UART_FBRD, UART_LCRH} \<longrightarrow>
        (let d' = store_reg dev d a v in good d' \<and> conf d' = (conf d)(a := v) \<and> sent d' = sent d)) \<and>
     (\<forall>d. good d \<and> operational (conf d) \<longrightarrow>
        (let (v, d') = load_reg dev d UART_FR in
         if v AND UART_FR_TXFF \<noteq> 0 then level d' < level d
         else \<forall>w. (let d2 = store_reg dev d' UART_DR w in
                    good d2 \<and> conf d2 = conf d' \<and> sent d2 = sent d' @ [ucast w])))"

text \<open>A unit that behaves so and is configured to transmit.\<close>

definition uart_ready ::
  "'d mmio \<Rightarrow> ('d \<Rightarrow> bool) \<Rightarrow> ('d \<Rightarrow> u32 \<Rightarrow> u32) \<Rightarrow> ('d \<Rightarrow> nat) \<Rightarrow> ('d \<Rightarrow> u8 list) \<Rightarrow> 'd \<Rightarrow> bool" where
  "uart_ready dev good conf level sent d \<longleftrightarrow>
     uart_device dev good conf level sent \<and> good d \<and> operational (conf d)"

section \<open>The interface\<close>

text \<open>A sink takes one byte at a time, always returns, and keeps the order.\<close>

locale byte_sink =
  fixes put :: "'d \<Rightarrow> u8 \<Rightarrow> 'd option"
    and ready :: "'d \<Rightarrow> bool"
    and sent :: "'d \<Rightarrow> u8 list"
  assumes put_ok: "ready d \<Longrightarrow> \<exists>d'. put d b = Some d' \<and> ready d' \<and> sent d' = sent d @ [b]"

primrec put_all :: "('d \<Rightarrow> u8 \<Rightarrow> 'd option) \<Rightarrow> u8 list \<Rightarrow> 'd \<Rightarrow> 'd option" where
  "put_all put [] d = Some d"
| "put_all put (b # bs) d = do { d \<leftarrow> put d b; put_all put bs d }"

context byte_sink
begin

lemma put_all_ok:
  "ready d \<Longrightarrow> \<exists>d'. put_all put bs d = Some d' \<and> ready d' \<and> sent d' = sent d @ bs"
proof (induction bs arbitrary: d)
  case Nil
  then show ?case by simp
next
  case (Cons b bs)
  obtain d1 where d1: "put d b = Some d1" "ready d1" "sent d1 = sent d @ [b]"
    using put_ok [OF Cons.prems] by blast
  then show ?case using Cons.IH [OF d1(2)] by auto
qed

end

section \<open>The driver is a sink\<close>

lemma uart_load:
  assumes "uart_device dev good conf level sent" and "good d" and "a \<noteq> UART_DR"
  shows "good (snd (load_reg dev d a))" "conf (snd (load_reg dev d a)) = conf d"
    "sent (snd (load_reg dev d a)) = sent d"
  using assms unfolding uart_device_def Let_def by simp_all

lemma uart_store:
  assumes "uart_device dev good conf level sent" and "good d"
    and "a \<in> {SYSCTL_RCGC1, UART_CTL, UART_IBRD, UART_FBRD, UART_LCRH}"
  shows "good (store_reg dev d a v)" "conf (store_reg dev d a v) = (conf d)(a := v)"
    "sent (store_reg dev d a v) = sent d"
  using assms(1) [unfolded uart_device_def Let_def, THEN conjunct2, THEN conjunct1, rule_format,
      OF conjI, OF assms(2,3)] by simp_all

lemma uart_settles:
  assumes "uart_device dev good conf level sent"
  shows "settles dev UART_FR UART_FR_TXFF
    (\<lambda>d. good d \<and> operational (conf d) \<and> sent d = s) level"
  using assms
  by (fastforce simp: settles_def uart_device_def uart_regs case_prod_unfold Let_def
      split: if_splits)

lemma uart_putc_ok:
  assumes "uart_ready dev good conf level sent d"
  shows "\<exists>d'. uart_putc dev d b = Some d' \<and> uart_ready dev good conf level sent d' \<and>
           sent d' = sent d @ [b]"
proof -
  have dev: "uart_device dev good conf level sent" and d: "good d" "operational (conf d)"
    using assms by (simp_all add: uart_ready_def)
  obtain d0 where d0: "good d0" "operational (conf d0)" "sent d0 = sent d"
    "fst (load_reg dev d0 UART_FR) AND UART_FR_TXFF = 0"
    "spin dev UART_FR UART_FR_TXFF d = Some (snd (load_reg dev d0 UART_FR))"
    using spin_returns [OF uart_settles [OF dev, of "sent d"]] d by blast
  let ?d1 = "snd (load_reg dev d0 UART_FR)"
  have d1: "conf ?d1 = conf d0" "sent ?d1 = sent d0"
    using dev d0(1) unfolding uart_device_def Let_def by (auto simp: uart_regs)
  have "good (store_reg dev ?d1 UART_DR w) \<and> conf (store_reg dev ?d1 UART_DR w) = conf ?d1 \<and>
        sent (store_reg dev ?d1 UART_DR w) = sent ?d1 @ [ucast w]" for w
    using dev d0(1,2,4) unfolding uart_device_def Let_def by (auto simp: case_prod_unfold)
  then show ?thesis
    using dev d0 d1 by (simp add: uart_putc_def uart_ready_def)
qed

interpretation uart: byte_sink "uart_putc dev" "uart_ready dev good conf level sent" sent
  for dev good conf level sent
  by unfold_locales (rule uart_putc_ok)

lemma uart_write_put_all:
  "i \<le> length p \<Longrightarrow>
   uart_write_loop dev (map Some p @ r) i (length p) d = put_all (uart_putc dev) (drop i p) d"
proof (induction "length p - i" arbitrary: i d)
  case 0
  then show ?case by (simp add: uart_write_loop.simps)
next
  case (Suc k)
  then have i: "i < length p" by simp
  then have "drop i p = p ! i # drop (Suc i) p" by (simp add: Cons_nth_drop_Suc)
  then show ?case using i Suc
    by (subst uart_write_loop.simps) (simp add: rd_map_Some cong: bind_option_cong)
qed

lemma uart_puts_put_all:
  "i \<le> length p \<Longrightarrow> 0 \<notin> set p \<Longrightarrow>
   uart_puts dev (map Some p @ Some 0 # r) i d = put_all (uart_putc dev) (drop i p) d"
proof (induction "length p - i" arbitrary: i d)
  case 0
  then show ?case by (simp add: uart_puts.simps nth_append)
next
  case (Suc k)
  then have i: "i < length p" by simp
  then have "drop i p = p ! i # drop (Suc i) p" by (simp add: Cons_nth_drop_Suc)
  moreover have "p ! i \<noteq> 0" using i Suc.prems(2) by (metis nth_mem)
  ultimately show ?case using i Suc
    by (subst uart_puts.simps) (auto simp: nth_append split: option.split)
qed

lemma uart_write_sends:
  assumes "uart_ready dev good conf level sent d"
  shows "\<exists>d'. uart_write dev (map Some p @ r) (length p) d = Some d' \<and>
           uart_ready dev good conf level sent d' \<and> sent d' = sent d @ p"
  using uart.put_all_ok [OF assms, of p] uart_write_put_all [of 0 p dev r d]
  by (simp add: uart_write_def)

lemma uart_puts_sends:
  assumes "uart_ready dev good conf level sent d" and "0 \<notin> set p"
  shows "\<exists>d'. uart_puts dev (map Some p @ Some 0 # r) 0 d = Some d' \<and>
           uart_ready dev good conf level sent d' \<and> sent d' = sent d @ p"
  using uart.put_all_ok [OF assms(1), of p] uart_puts_put_all [OF _ assms(2), of 0 dev r d]
  by simp

text \<open>The configuration sequence leaves the unit ready, with nothing sent.\<close>

lemma uart_init_ready:
  assumes dev: "uart_device dev good conf level sent" and d: "good d"
  shows "uart_ready dev good conf level sent (uart_init dev d) \<and> sent (uart_init dev d) = sent d"
proof -
  note ld = uart_load [OF dev] and st = uart_store [OF dev]
  have rcgc1: "SYSCTL_RCGC1 \<noteq> UART_DR" by (simp add: uart_regs)
  define v where "v = fst (load_reg dev d SYSCTL_RCGC1) OR SYSCTL_RCGC1_UART0"
  define regs where "regs = (conf d)(SYSCTL_RCGC1 := v, UART_CTL := 0,
      UART_IBRD := UART_IBRD_115200, UART_FBRD := UART_FBRD_115200,
      UART_LCRH := UART_LCRH_WLEN_8 OR UART_LCRH_FEN,
      UART_CTL := UART_CTL_UARTEN OR UART_CTL_TXE OR UART_CTL_RXE)"
  have run: "good (uart_init dev d)" "conf (uart_init dev d) = regs" "sent (uart_init dev d) = sent d"
    using d by (simp_all add: uart_init_def or_reg_def Let_def case_prod_unfold ld rcgc1 st regs_def v_def)
  have "bit v 0" by (simp add: v_def bit_or_iff SYSCTL_RCGC1_UART0_def)
  then have "operational regs"
    by (simp add: regs_def operational_def uart_regs UART_IBRD_115200_def UART_CTL_UARTEN_def
        UART_CTL_TXE_def UART_CTL_RXE_def UART_LCRH_WLEN_8_def UART_LCRH_FEN_def)
  then show ?thesis using run dev by (simp add: uart_ready_def)
qed

section \<open>A device that behaves so\<close>

text \<open>
  A unit with a transmit FIFO of sixteen bytes, which sends one byte per poll of the flags:
  it shows that the documented behaviour can be met.
\<close>

record fifo_uart =
  fu_regs :: "u32 \<Rightarrow> u32"
  fu_fifo :: "u8 list"
  fu_line :: "u8 list"

definition fifo_dev :: "fifo_uart mmio" where
  "fifo_dev =
     \<lparr>load_reg = \<lambda>d a.
        if a = UART_FR
        then (if length (fu_fifo d) \<ge> 16 then UART_FR_TXFF OR UART_FR_RXFE else UART_FR_RXFE,
              d\<lparr>fu_fifo := tl (fu_fifo d), fu_line := fu_line d @ take 1 (fu_fifo d)\<rparr>)
        else (fu_regs d a, d),
      store_reg = \<lambda>d a v.
        if a = UART_DR then d\<lparr>fu_fifo := fu_fifo d @ [ucast v]\<rparr>
        else d\<lparr>fu_regs := (fu_regs d)(a := v)\<rparr>\<rparr>"

definition fifo_sent :: "fifo_uart \<Rightarrow> u8 list" where
  "fifo_sent d = fu_line d @ fu_fifo d"

definition fifo_start :: fifo_uart where
  "fifo_start = \<lparr>fu_regs = \<lambda>_. 0, fu_fifo = [], fu_line = []\<rparr>"

lemma take1_tl: "take (Suc 0) xs @ tl xs = xs"
  by (cases xs) auto

lemma fifo_uart_device:
  "uart_device fifo_dev (\<lambda>_. True) fu_regs (\<lambda>d. length (fu_fifo d)) fifo_sent"
proof -
  have full: "(UART_FR_TXFF OR UART_FR_RXFE) AND UART_FR_TXFF \<noteq> 0"
    "UART_FR_RXFE AND UART_FR_TXFF = 0"
    by (simp_all add: UART_FR_TXFF_def UART_FR_RXFE_def)
  have "fu_regs (snd (load_reg fifo_dev d a)) = fu_regs d \<and>
      fifo_sent (snd (load_reg fifo_dev d a)) = fifo_sent d" for d a
    by (auto simp: fifo_dev_def fifo_sent_def take1_tl split: if_splits)
  moreover have "a \<noteq> UART_DR \<Longrightarrow>
      fu_regs (store_reg fifo_dev d a v) = (fu_regs d)(a := v) \<and>
      fifo_sent (store_reg fifo_dev d a v) = fifo_sent d" for d a v
    by (simp add: fifo_dev_def fifo_sent_def)
  moreover have "fu_regs (store_reg fifo_dev d UART_DR w) = fu_regs d \<and>
      fifo_sent (store_reg fifo_dev d UART_DR w) = fifo_sent d @ [ucast w]" for d w
    by (simp add: fifo_dev_def fifo_sent_def)
  moreover have "UART_DR \<notin> {SYSCTL_RCGC1, UART_CTL, UART_IBRD, UART_FBRD, UART_LCRH}"
    by (simp add: uart_regs)
  moreover have "case load_reg fifo_dev d UART_FR of (v, d') \<Rightarrow>
      v AND UART_FR_TXFF \<noteq> 0 \<longrightarrow> length (fu_fifo d') < length (fu_fifo d)" for d
    using full by (auto simp: fifo_dev_def)
  ultimately show ?thesis
    unfolding uart_device_def Let_def
    by (intro conjI allI impI) (auto simp: case_prod_unfold)
qed

section \<open>Properties\<close>

text \<open>
  The calls that transmit: of \<open>uart_putc\<close> with a byte, of \<open>uart_puts\<close> with a string and
  what follows its terminator in memory, of \<open>uart_write\<close> with a buffer and what follows it; a program that makes any of them one after the other, and what it asks for.
\<close>

datatype transmission = Putc u8 | Puts "u8 list" mem | Write_bytes "u8 list" mem

fun transmit :: "'d mmio \<Rightarrow> transmission \<Rightarrow> 'd \<Rightarrow> 'd option" where
  "transmit dev (Putc c) d = uart_putc dev d c"
| "transmit dev (Puts txt r) d = uart_puts dev (map Some txt @ Some 0 # r) 0 d"
| "transmit dev (Write_bytes p r) d = uart_write dev (map Some p @ r) (length p) d"

primrec transmit_all :: "'d mmio \<Rightarrow> transmission list \<Rightarrow> 'd \<Rightarrow> 'd option" where
  "transmit_all dev [] d = Some d"
| "transmit_all dev (t # ts) d = do { d \<leftarrow> transmit dev t d; transmit_all dev ts d }"

fun asked :: "transmission \<Rightarrow> u8 list" where
  "asked (Putc c) = [c]"
| "asked (Puts txt r) = txt"
| "asked (Write_bytes p r) = p"

fun well_formed :: "transmission \<Rightarrow> bool" where
  "well_formed (Puts txt r) \<longleftrightarrow> 0 \<notin> set txt"
| "well_formed t \<longleftrightarrow> True"

lemma transmit_sends:
  assumes "uart_ready dev good conf level sent d" and "well_formed t"
  shows "\<exists>d'. transmit dev t d = Some d' \<and> uart_ready dev good conf level sent d' \<and>
           sent d' = sent d @ asked t"
  using uart_putc_ok [OF assms(1)] uart_puts_sends [OF assms(1)] uart_write_sends [OF assms(1)] assms(2)
  by (cases t) auto

lemma transmit_all_sends:
  "uart_ready dev good conf level sent d \<Longrightarrow> \<forall>t\<in>set ts. well_formed t \<Longrightarrow>
   \<exists>d'. transmit_all dev ts d = Some d' \<and> uart_ready dev good conf level sent d' \<and>
     sent d' = sent d @ concat (map asked ts)"
proof (induction ts arbitrary: d)
  case (Cons t ts)
  obtain d1 where d1: "transmit dev t d = Some d1" "uart_ready dev good conf level sent d1"
    "sent d1 = sent d @ asked t"
    using transmit_sends [OF Cons.prems(1)] Cons.prems(2) by auto
  then show ?case using Cons.IH [OF d1(2)] Cons.prems(2) by auto
qed simp

text \<open>
  C35: transmission. On every UART that behaves as documented, \<open>uart_init\<close> makes the unit
  ready without sending anything; from then on any number of calls of \<open>uart_putc\<close>, \<open>uart_puts\<close>
  and \<open>uart_write\<close> in any order all return and send exactly the bytes they were asked to
  send, a string up to its terminator, in order, none lost to a full FIFO; and the unit is
  ready for more.
\<close>

theorem uart_transmits:
  assumes "uart_device dev good conf level sent" and "good d" and "\<forall>t\<in>set ts. well_formed t"
  shows "sent (uart_init dev d) = sent d \<and> uart_ready dev good conf level sent (uart_init dev d) \<and>
         (\<exists>d'. transmit_all dev ts (uart_init dev d) = Some d' \<and>
            sent d' = sent d @ concat (map asked ts) \<and> uart_ready dev good conf level sent d')"
proof -
  note start = uart_init_ready [OF assms(1,2)]
  show ?thesis
    using start transmit_all_sends [OF conjunct1 [OF start] assms(3)] by auto
qed

theorem uart_transmits_witness:
  "fifo_sent (uart_init fifo_dev fifo_start) = fifo_sent fifo_start \<and>
   uart_ready fifo_dev (\<lambda>_. True) fu_regs (\<lambda>d. length (fu_fifo d)) fifo_sent (uart_init fifo_dev fifo_start) \<and>
   (\<exists>d'. transmit_all fifo_dev [Puts [0x4F, 0x4B] [], Write_bytes (replicate 40 0) [None], Putc 7, Puts [] [None],
         Write_bytes [1] []] (uart_init fifo_dev fifo_start) = Some d' \<and>
      fifo_sent d' = fifo_sent fifo_start @ concat (map asked [Puts [0x4F, 0x4B] [],
        Write_bytes (replicate 40 0) [None], Putc 7, Puts [] [None], Write_bytes [1] []]) \<and>
      uart_ready fifo_dev (\<lambda>_. True) fu_regs (\<lambda>d. length (fu_fifo d)) fifo_sent d')"
  by (rule uart_transmits [OF fifo_uart_device]) simp_all

text \<open>
  Configuration. On any device, \<open>uart_init\<close> makes these stores in this order and no
  other: the clock gate (its other bits kept), the unit off, both divisors, the line control
  that latches them (eight bits, FIFOs), and only then the unit on; and 6 + 33/64 is the
  64th nearest to the divisor of 115200 baud at 12 MHz.
\<close>

lemma uart_configuration:
  "\<exists>v d'. uart_init (logged {} dev) (d, []) =
     (d', [Wr SYSCTL_RCGC1 (v OR 1), Wr UART_CTL 0, Wr UART_IBRD 6, Wr UART_FBRD 33,
           Wr UART_LCRH 0x70, Wr UART_CTL 0x301]) \<and>
   v = fst (load_reg dev d SYSCTL_RCGC1) \<and>
   abs ((64 * 12000000 :: int) - (64 * uint UART_IBRD_115200 + uint UART_FBRD_115200) * (16 * 115200))
     * 2 \<le> 16 * 115200"
  by (simp add: uart_init_def or_reg_def Let_def case_prod_unfold SYSCTL_RCGC1_UART0_def
      UART_IBRD_115200_def UART_FBRD_115200_def UART_LCRH_WLEN_8_def UART_LCRH_FEN_def
      UART_CTL_UARTEN_def UART_CTL_TXE_def UART_CTL_RXE_def)

text \<open>
  Reception does not block. On any device \<open>uart_try_getc\<close> loads the flags once; it
  returns -1 without touching the data register when they say that the receive FIFO is
  empty, and otherwise the low byte of one load of the data register.
\<close>

lemma uart_try_getc_polls:
  "\<exists>d' v w. uart_try_getc (logged {UART_FR, UART_DR} dev) (d, []) =
     (if v AND UART_FR_RXFE \<noteq> 0 then (-1, d', [Rd UART_FR v])
      else (uint (ucast w :: u8), d', [Rd UART_FR v, Rd UART_DR w]))"
  by (simp only: uart_try_getc_def logged_simps case_prod_conv low_byte_value) auto

end
