(* ===== verification/Node_Main.thy ===== *)
theory Node_Main
  imports Codec Adxl345 Uart
begin

text \<open>
  The super-loop of \<open>firmware/main.c\<close>: boot, then for ever sample, pack, encode, transmit.
  The loop does not end, so the model runs it for a number of turns; the theorems hold for
  every number.
\<close>

section \<open>The program\<close>

text \<open>A C string literal, with its terminator.\<close>

definition chars :: "string \<Rightarrow> u8 list" where
  "chars s = map (\<lambda>c. of_nat (of_char c)) s"

definition c_string :: "string \<Rightarrow> mem" where
  "c_string s = map Some (chars s) @ [Some 0]"

definition newline :: string where
  "newline = [CHR 0x0D, CHR 0x0A]"

definition banner :: string where
  "banner = ''Sharak node online'' @ newline"

definition init_failed :: string where
  "init_failed = ''ERROR: ADXL345 init failed; halting'' @ newline"

definition read_failed :: string where
  "read_failed = ''ERROR: ADXL345 read failed; halting'' @ newline"

text \<open>The empty pacing loop over a \<open>volatile uint32_t\<close>; the value it ends with.\<close>

function delay_loop :: "u32 \<Rightarrow> u32" where
  "delay_loop n = (if n < 200000 then delay_loop (n + 1) else n)"
  by pat_completeness auto
termination
proof (relation "measure (\<lambda>n. 200000 - unat n)")
  fix n :: u32 assume "n < 200000"
  then have "unat n < 200000" by (simp add: word_less_nat_alt)
  moreover then have "unat (n + 1) = Suc (unat n)" by (simp add: unat_word_ariths)
  ultimately show "(n + 1, n) \<in> measure (\<lambda>n. 200000 - unat n)" by simp
qed simp

declare delay_loop.simps [simp del]

definition delay_pace :: u32 where
  "delay_pace = delay_loop 0"

text \<open>
  The static objects of \<open>main\<close> and its loop variable. The simulator is the object behind
  \<open>bus.ctx\<close>, which is the only way the loop reaches it. Statics start as zeros.
\<close>

record node =
  n_bus :: "i2c_sim option i2c_bus"
  n_sample :: adxl345_accel
  n_payload :: mem
  n_frame :: mem
  n_seq :: u16

definition sim_static :: i2c_sim where
  "sim_static = \<lparr>sim_regs = replicate 58 (Some 0), sim_ptr = 0, sim_phase = 0\<rparr>"

definition bus_static :: "i2c_sim option i2c_bus" where
  "bus_static = \<lparr>bus_write = None, bus_write_read = None, ctx = None\<rparr>"

definition node_static :: node where
  "node_static =
     \<lparr>n_bus = bus_static, n_sample = \<lparr>x_mg = 0, y_mg = 0, z_mg = 0\<rparr>,
      n_payload = replicate SK_PAYLOAD_LEN (Some 0), n_frame = replicate SK_FRAME_MAX (Some 0),
      n_seq = 0\<rparr>"

text \<open>Halted in one of the two empty loops, or at the head of the main loop.\<close>

datatype 'd node_state = Halted 'd | Running node 'd

text \<open>Boot, from what the static objects hold when \<open>main\<close> is entered.\<close>

definition node_boot :: "node \<Rightarrow> i2c_sim \<Rightarrow> 'd mmio \<Rightarrow> 'd \<Rightarrow> 'd node_state option" where
  "node_boot st sim dev d = do {
     let d = uart_init dev d;
     d \<leftarrow> uart_puts dev (c_string banner) 0 d;
     sim \<leftarrow> i2c_sim_init (Some sim);
     let bus = i2c_sim_bind (Some (n_bus st)) sim;
     (rc, bus) \<leftarrow> adxl345_init bus;
     if rc \<noteq> ADXL345_OK
     then do { d \<leftarrow> uart_puts dev (c_string init_failed) 0 d; Some (Halted d) }
     else do { b \<leftarrow> bus; Some (Running (st\<lparr>n_bus := b\<rparr>) d) }
   }"

text \<open>One turn of the main loop. The pacing loop near its end touches nothing.\<close>

definition node_step :: "'d mmio \<Rightarrow> node \<Rightarrow> 'd \<Rightarrow> 'd node_state option" where
  "node_step dev s d = do {
     (rc, bus, sample) \<leftarrow> adxl345_read (Some (n_bus s)) (Some (n_sample s));
     if rc \<noteq> ADXL345_OK
     then do { d \<leftarrow> uart_puts dev (c_string read_failed) 0 d; Some (Halted d) }
     else do {
       b \<leftarrow> bus;
       a \<leftarrow> sample;
       (plen, payload) \<leftarrow> sk_payload_pack (Some (n_payload s)) SK_PAYLOAD_LEN (n_seq s)
                            (x_mg a) (y_mg a) (z_mg a);
       p \<leftarrow> payload;
       (frame, d) \<leftarrow>
         (if plen = int SK_PAYLOAD_LEN
          then do {
            (flen, frame) \<leftarrow> sk_frame_encode payload (nat plen) (Some (n_frame s)) SK_FRAME_MAX;
            f \<leftarrow> frame;
            if flen > 0
            then do { d \<leftarrow> uart_write dev f (nat flen) d; Some (f, d) }
            else Some (f, d)
          }
          else Some (n_frame s, d));
       let seq = n_seq s + 1;
       let spun = delay_pace;
       Some (Running \<lparr>n_bus = b, n_sample = a, n_payload = p, n_frame = frame, n_seq = seq\<rparr> d)
     }
   }"

text \<open>Boot and the first \<open>n\<close> turns.\<close>

primrec node_run_from ::
  "node \<Rightarrow> i2c_sim \<Rightarrow> 'd mmio \<Rightarrow> nat \<Rightarrow> 'd \<Rightarrow> 'd node_state option" where
  "node_run_from st sim dev 0 d = node_boot st sim dev d"
| "node_run_from st sim dev (Suc n) d = do {
     r \<leftarrow> node_run_from st sim dev n d;
     case r of
       Halted d \<Rightarrow> Some (Halted d)
     | Running s d \<Rightarrow> node_step dev s d
   }"

definition node_run :: "'d mmio \<Rightarrow> nat \<Rightarrow> 'd \<Rightarrow> 'd node_state option" where
  "node_run dev n d = node_run_from node_static sim_static dev n d"

section \<open>What the node sends\<close>

text \<open>The payload of turn \<open>k\<close>: the driver's reading of sample \<open>k\<close> under sequence number \<open>k\<close>.\<close>

definition node_payload :: "nat \<Rightarrow> u8 list" where
  "node_payload k =
     (case adxl345_decode (map Some (sample_bytes (of_nat k))) of
        None \<Rightarrow> []
      | Some a \<Rightarrow> accel_payload (of_nat k) (x_mg a) (y_mg a) (z_mg a))"

definition node_payloads :: "nat \<Rightarrow> u8 list list" where
  "node_payloads n = map node_payload [0..<n]"

definition node_stream :: "nat \<Rightarrow> u8 list" where
  "node_stream n = chars banner @ concat (map wire_frame (node_payloads n))"

lemma node_stream_Suc: "node_stream (Suc n) = node_stream n @ wire_frame (node_payload n)"
  by (simp add: node_stream_def node_payloads_def)

lemma decode_sample: "\<exists>a. adxl345_decode (map Some (sample_bytes t)) = Some a"
  using decode_bytes [of "sample_bytes t"] by auto

lemma node_payload_accel: "\<exists>x y z. node_payload k = accel_payload (of_nat k) x y z"
proof -
  obtain a where "adxl345_decode (map Some (sample_bytes (of_nat k))) = Some a"
    using decode_sample by blast
  then have "node_payload k = accel_payload (of_nat k) (x_mg a) (y_mg a) (z_mg a)"
    by (simp add: node_payload_def)
  then show ?thesis by blast
qed

lemma node_payload_sendable [simp]: "sendable (node_payload k)"
proof -
  obtain x y z where "node_payload k = accel_payload (of_nat k) x y z"
    using node_payload_accel by blast
  then show ?thesis by (simp add: sendable_def)
qed

section \<open>The invariant of the loop\<close>

text \<open>At the head of the loop after \<open>n\<close> turns: the chip measures and is at sample \<open>n\<close>.\<close>

definition node_inv :: "nat \<Rightarrow> node \<Rightarrow> bool" where
  "node_inv n s \<longleftrightarrow>
     (case ctx (n_bus s) of
        None \<Rightarrow> False
      | Some sim \<Rightarrow>
          n_bus s = chip_bus sim_write sim_write_read (Some sim) \<and>
          chip_inv (Some sim) \<and> bit (chip_reg (Some sim) 0x2D) 3 \<and>
          chip_clock (Some sim) = of_nat n) \<and>
     length (n_payload s) = 16 \<and> length (n_frame s) = 38 \<and> n_seq s = of_nat n"

lemma node_invE:
  assumes "node_inv n s"
  obtains c where "n_bus s = chip_bus sim_write sim_write_read c" "chip_inv c"
    "bit (chip_reg c 0x2D) 3" "chip_clock c = of_nat n"
  using assms by (auto simp: node_inv_def split: option.splits)

lemma node_invI:
  assumes "n_bus s = chip_bus sim_write sim_write_read c" "chip_inv c"
    "bit (chip_reg c 0x2D) 3" "chip_clock c = of_nat n"
    "length (n_payload s) = 16" "length (n_frame s) = 38" "n_seq s = of_nat n"
  shows "node_inv n s"
  using assms by (cases c) (auto simp: node_inv_def chip_inv_def)

lemma banner_text: "0 \<notin> set (chars banner)"
  by (simp add: chars_def banner_def newline_def of_char_def)

lemma boot_chip:
  "\<exists>c. adxl345_init (Some (chip_bus sim_write sim_write_read (Some power_on))) =
         Some (ADXL345_OK, Some (chip_bus sim_write sim_write_read c)) \<and>
       chip_inv c \<and> bit (chip_reg c 0x2D) 3 \<and> chip_clock c = 0"
proof -
  have on: "chip_inv (Some power_on)" "chip_reg (Some power_on) 0 = 0xE5" "chip_clock (Some power_on) = 0"
    using power_on_ok by (simp_all add: chip_defs) (simp add: power_on_def)
  show ?thesis using simchip.init_good [OF on(1,2)] on(3) by (auto simp: configured_def)
qed

definition static_sizes :: "node \<Rightarrow> i2c_sim \<Rightarrow> bool" where
  "static_sizes st sim \<longleftrightarrow>
     length (n_payload st) = 16 \<and> length (n_frame st) = 38 \<and> n_seq st = 0 \<and> length (sim_regs sim) = 58"

lemma static_sizes_static: "static_sizes node_static sim_static"
  by (simp add: static_sizes_def node_static_def sim_static_def)

lemma node_boot_ok:
  assumes "uart_device dev good conf level sent" and "good d" and st: "static_sizes st sim"
  shows "\<exists>s d'. node_boot st sim dev d = Some (Running s d') \<and> node_inv 0 s \<and>
           uart_ready dev good conf level sent d' \<and> sent d' = sent d @ chars banner"
proof -
  note boot = uart_init_ready [OF assms(1,2)]
  obtain d1 where d1: "uart_puts dev (c_string banner) 0 (uart_init dev d) = Some d1"
    "uart_ready dev good conf level sent d1" "sent d1 = sent d @ chars banner"
    using uart_puts_sends [OF conjunct1 [OF boot] banner_text, of "[]"] boot
    by (auto simp: c_string_def)
  obtain c where c: "adxl345_init (Some (chip_bus sim_write sim_write_read (Some power_on))) =
      Some (ADXL345_OK, Some (chip_bus sim_write sim_write_read c))"
    "chip_inv c" "bit (chip_reg c 0x2D) 3" "chip_clock c = 0"
    using boot_chip by blast
  have bind: "i2c_sim_bind (Some (n_bus st)) (Some power_on) =
      Some (chip_bus sim_write sim_write_read (Some power_on))"
    by (simp add: i2c_sim_bind_def chip_bus_def)
  have init: "i2c_sim_init (Some sim) = Some (Some power_on)"
    by (rule i2c_sim_init_run) (use st in \<open>simp add: static_sizes_def\<close>)
  show ?thesis
    using c d1(2,3) st
    by (auto simp: node_boot_def d1(1) init bind static_sizes_def intro!: node_invI)
qed

lemma node_step_ok:
  assumes s: "node_inv n s" and d: "uart_ready dev good conf level sent d"
  shows "\<exists>s' d'. node_step dev s d = Some (Running s' d') \<and> node_inv (Suc n) s' \<and>
           uart_ready dev good conf level sent d' \<and> sent d' = sent d @ wire_frame (node_payload n)"
proof -
  obtain c where c: "n_bus s = chip_bus sim_write sim_write_read c" "chip_inv c"
    "bit (chip_reg c 0x2D) 3" "chip_clock c = of_nat n"
    using s by (rule node_invE)
  have len: "length (n_payload s) = 16" "length (n_frame s) = 38" "n_seq s = of_nat n"
    using s by (simp_all add: node_inv_def)
  obtain c' a where read:
    "adxl345_read (Some (chip_bus sim_write sim_write_read c)) (Some (n_sample s)) =
       Some (ADXL345_OK, Some (chip_bus sim_write sim_write_read c'), Some a)"
    "adxl345_decode (map Some (sample_bytes (of_nat n))) = Some a" "chip_inv c'"
    "\<forall>r. plain_reg r \<longrightarrow> chip_reg c' r = chip_reg c r" "chip_clock c' = of_nat n + 1"
    using simchip.read_good [OF c(2,3), of "n_sample s"] unfolding c(4) by blast
  let ?p = "node_payload n"
  have p: "?p = accel_payload (of_nat n) (x_mg a) (y_mg a) (z_mg a)"
    using read(2) by (simp add: node_payload_def)
  let ?f = "wire_frame ?p"
  have pack: "sk_payload_pack (Some (n_payload s)) 16 (of_nat n) (x_mg a) (y_mg a) (z_mg a) =
      Some (16, Some (map Some ?p))"
    using sk_payload_pack_ok [of 16 "n_payload s"] len by (simp add: p filled_def)
  have enc: "sk_frame_encode (Some (map Some ?p)) 16 (Some (n_frame s)) 38 =
      Some (int (length ?f), Some (filled ?f (n_frame s)))"
    using sk_frame_encode_room [OF node_payload_sendable, of 38 "n_frame s" n "[]"] len
    by (simp add: p)
  have "20 \<le> length ?f" and short: "length ?f \<le> 38"
    using length_wire_frame [of ?p] by (simp_all add: p)
  then have pos: "0 < length ?f" by linarith
  obtain d' where d': "uart_write dev (filled ?f (n_frame s)) (length ?f) d = Some d'"
    "uart_ready dev good conf level sent d'" "sent d' = sent d @ ?f"
    using uart_write_sends [OF d, of ?f] unfolding filled_def by blast
  have plain: "plain_reg 0x2D" by (simp add: plain_reg_def)
  let ?s = "\<lparr>n_bus = chip_bus sim_write sim_write_read c', n_sample = a,
      n_payload = map Some ?p, n_frame = filled ?f (n_frame s), n_seq = n_seq s + 1\<rparr>"
  have "node_step dev s d = Some (Running ?s d')"
    using read(1) pack enc d'(1) pos len(3) by (simp add: node_step_def c(1))
  moreover have "node_inv (Suc n) ?s"
    by (rule node_invI [of _ c'])
      (use read(3-5) c(3) plain len short in \<open>auto simp: p add.commute\<close>)
  ultimately show ?thesis using d'(2,3) by blast
qed

lemma node_run_from_ok:
  assumes "uart_device dev good conf level sent" and "good d" and "static_sizes st sim"
  shows "\<exists>s d'. node_run_from st sim dev n d = Some (Running s d') \<and> node_inv n s \<and>
           uart_ready dev good conf level sent d' \<and> sent d' = sent d @ node_stream n"
proof (induction n)
  case 0
  then show ?case using node_boot_ok [OF assms] by (simp add: node_stream_def node_payloads_def)
next
  case (Suc n)
  then obtain s d1 where run: "node_run_from st sim dev n d = Some (Running s d1)" "node_inv n s"
    "uart_ready dev good conf level sent d1" "sent d1 = sent d @ node_stream n"
    by blast
  show ?case using node_step_ok [OF run(2,3)] run(1,4) by (auto simp: node_stream_Suc)
qed

lemmas node_run_ok = node_run_from_ok [OF _ _ static_sizes_static, folded node_run_def]

text \<open>
  The states that \<open>main\<close> is in, after boot and at the head of its loop, as a step relation.
  Running it for a number of turns reaches these and no others.
\<close>

inductive node_reach :: "'d mmio \<Rightarrow> 'd \<Rightarrow> 'd node_state \<Rightarrow> bool" for dev d where
  reach_boot: "node_boot node_static sim_static dev d = Some r \<Longrightarrow> node_reach dev d r"
| reach_turn: "node_reach dev d (Running s d1) \<Longrightarrow> node_step dev s d1 = Some r \<Longrightarrow> node_reach dev d r"

lemma node_run_simps:
  "node_run dev 0 d = node_boot node_static sim_static dev d"
  "node_run dev (Suc n) d = do {
     r \<leftarrow> node_run dev n d;
     case r of Halted d \<Rightarrow> Some (Halted d) | Running s d \<Rightarrow> node_step dev s d
   }"
  by (simp_all add: node_run_def)

lemma node_reach_run: "node_reach dev d r \<longleftrightarrow> (\<exists>n. node_run dev n d = Some r)"
proof
  show "node_reach dev d r \<Longrightarrow> \<exists>n. node_run dev n d = Some r"
  proof (induction rule: node_reach.induct)
    case (reach_boot r)
    then show ?case by (auto simp: node_run_simps intro: exI [of _ 0])
  next
    case (reach_turn s d1 r)
    then obtain n where "node_run dev n d = Some (Running s d1)" by blast
    with reach_turn have "node_run dev (Suc n) d = Some r" by (simp add: node_run_simps)
    then show ?case ..
  qed
next
  have "node_run dev n d = Some r \<Longrightarrow> node_reach dev d r" for n
  proof (induction n arbitrary: r)
    case (Suc n)
    then obtain q where q: "node_run dev n d = Some q" "node_reach dev d q"
      by (cases "node_run dev n d") (auto simp: node_run_simps)
    with Suc.prems show ?case
      by (cases q) (auto simp: node_run_simps intro: reach_turn)
  qed (simp add: node_run_simps reach_boot)
  then show "\<exists>n. node_run dev n d = Some r \<Longrightarrow> node_reach dev d r" by blast
qed

text \<open>No state in which \<open>main\<close> halts is ever reached, and from every state it goes on.\<close>

lemma node_reach_running:
  assumes "uart_device dev good conf level sent" and "good d" and "node_reach dev d r"
  shows "\<exists>n s d'. r = Running s d' \<and> node_inv n s \<and> uart_ready dev good conf level sent d' \<and>
           sent d' = sent d @ node_stream n \<and> (\<exists>r'. node_step dev s d' = Some r')"
  using assms(3)
proof (induction rule: node_reach.induct)
  case (reach_boot r)
  then show ?case
    using node_boot_ok [OF assms(1,2) static_sizes_static] node_step_ok
    by (fastforce simp: node_stream_def node_payloads_def)
next
  case (reach_turn s d1 r)
  then obtain n where n: "node_inv n s" "uart_ready dev good conf level sent d1" "sent d1 = sent d @ node_stream n"
    by blast
  obtain s' d' where s': "r = Running s' d'" "node_inv (Suc n) s'" "uart_ready dev good conf level sent d'"
    "sent d' = sent d @ node_stream (Suc n)"
    using node_step_ok [OF n(1,2)] n(3) reach_turn.hyps(2) by (auto simp: node_stream_Suc)
  then show ?case using node_step_ok [OF s'(2,3)] by blast
qed

text \<open>
  Fail-stop. When the chip refuses the read of a turn, the node sends its error line, no
  frame, and halts; it is then halted in every later turn.
\<close>

lemma node_read_refused:
  assumes "uart_ready dev good conf level sent d" and "n_bus s = chip_bus fw fr c"
    and "fr c ADXL345_I2C_ADDR (Some [Some ADXL345_REG_DATAX0]) 1 (Some (replicate 6 None)) 6 = Some (rc, c', buf)"
    and "rc \<noteq> I2C_OK"
  shows "\<exists>d'. node_step dev s d = Some (Halted d') \<and> sent d' = sent d @ chars read_failed"
proof -
  have no_nul: "0 \<notin> set (chars read_failed)"
    by (simp add: chars_def read_failed_def newline_def of_char_def)
  obtain d' where d': "uart_puts dev (c_string read_failed) 0 d = Some d'" "sent d' = sent d @ chars read_failed"
    using uart_puts_sends [OF assms(1) no_nul, of "[]"] by (auto simp: c_string_def)
  have "\<exists>b. adxl345_read (Some (n_bus s)) (Some (n_sample s)) = Some (ADXL345_E_BUS, b, Some (n_sample s))"
    using assms(2-4) by (auto simp: adxl345_read_def bus_ok_def chip_bus_def)
  then show ?thesis using d' by (auto simp: node_step_def ADXL345_E_BUS_def ADXL345_OK_def)
qed

lemma node_halted_for_good:
  "node_run dev n d = Some (Halted d') \<Longrightarrow> node_run dev (n + k) d = Some (Halted d')"
  by (induction k) (simp_all add: node_run_simps)

text \<open>A receiver that starts from reset gets every payload of the stream, in order.\<close>

lemma banner_no_flag: "\<forall>b\<in>set (chars banner). b \<noteq> 0x7E"
  by (simp add: chars_def banner_def newline_def of_char_def)

lemma node_stream_received:
  assumes "hunting_rx cap rx"
  shows "\<exists>rx'. receive cap rx (node_stream n) = Some (rx', node_payloads n)"
proof -
  have "\<forall>p\<in>set (node_payloads n). sendable p" by (auto simp: node_payloads_def)
  then show ?thesis
    using link.dec_banner_frames [OF assms banner_no_flag] unfolding node_stream_def by blast
qed

section \<open>Properties\<close>

lemma first_frame_bytes:
  "wire_frame (node_payload 0) =
     [0x7E, 0x01, 0x01, 0x00, 0x00, 0x00, 0x00, 0x00, 0x00, 0x3E, 0x00, 0x00, 0x00,
      0xE8, 0x03, 0x00, 0x00, 0xEC, 0x66, 0x7E]"
proof -
  have a: "adxl345_decode (map Some (sample_bytes 0)) = Some \<lparr>x_mg = 0, y_mg = 62, z_mg = 1000\<rparr>"
    by code_simp
  have p: "node_payload 0 = [0x01, 0x01, 0x00, 0x00, 0x00, 0x00, 0x00, 0x00, 0x3E, 0x00, 0x00, 0x00,
      0xE8, 0x03, 0x00, 0x00]"
    using a by (simp add: node_payload_def layout_defs byte_at_def)
  show ?thesis unfolding p by code_simp
qed

text \<open>
  C1: the node as a whole. On every UART that behaves as documented, for every number of
  turns, boot and the turns return, the node is at the head of its loop (it has halted
  nowhere), and what it has sent is the banner and one frame per turn, the reference frame
  of the driver's reading of that turn's sample under its sequence number, and nothing else.
\<close>

theorem node_sends_stream:
  assumes "uart_device dev good conf level sent" and "good d"
  shows "\<exists>s d'. node_run dev n d = Some (Running s d') \<and> node_inv n s \<and>
           sent d' = sent d @ chars banner @ concat (map (\<lambda>k. wire_frame (node_payload k)) [0..<n])"
  using node_run_ok [OF assms, of n] by (auto simp: node_stream_def node_payloads_def comp_def)

theorem node_sends_stream_witness:
  "\<exists>s d'. node_run fifo_dev 70000 fifo_start = Some (Running s d') \<and> node_inv 70000 s \<and>
     fifo_sent d' = fifo_sent fifo_start @ chars banner @
       concat (map (\<lambda>k. wire_frame (node_payload k)) [0..<70000])"
  by (rule node_sends_stream [OF fifo_uart_device]) simp

text \<open>
  C2: end to end. A decoder that is reset and then fed everything a node sends from boot on
  hands out exactly one payload per turn, in order and each whole; the banner disturbs
  nothing.
\<close>

theorem node_to_receiver:
  assumes "uart_device dev good conf level sent" and "good d" and "sent d = []"
    and "length (st_buf st) = 18" and "16 \<le> cap" and "cap \<le> length out"
  shows "\<exists>s d' rx. node_run dev n d = Some (Running s d') \<and>
           receive cap (the (sk_decoder_init (Some st)), out) (sent d') =
             Some (rx, map node_payload [0..<n])"
  using node_run_ok [OF assms(1,2), of n]
    node_stream_received [OF reset_hunting [OF assms(4-6)], of n] assms(3)
  by (auto simp: node_payloads_def)

theorem node_to_receiver_witness:
  "\<exists>s d' rx. node_run fifo_dev 1000 fifo_start = Some (Running s d') \<and>
     receive 16 (the (sk_decoder_init (Some \<lparr>st_in_frame = 1, st_esc = 0, st_overflow = 0,
         st_count = 3, st_buf = replicate 18 None\<rparr>)), replicate 16 None) (fifo_sent d') =
       Some (rx, map node_payload [0..<1000])"
  by (rule node_to_receiver [OF fifo_uart_device]) (simp_all add: fifo_sent_def fifo_start_def)

text \<open>
  C21: what the payloads say. The payload of turn \<open>k\<close> unpacks to version 1, type 1, sequence
  number \<open>k\<close> modulo 65536, and three values that are the scaled wobble of phase \<open>k\<close>, the
  wobble a quarter period later, and 1000 milli-g.
\<close>

theorem node_payload_contents:
  "\<exists>x y z. sk_payload_unpack (Some (map Some (node_payload k))) 16 (Some v0) (Some t0) (Some s0)
       (Some x0) (Some y0) (Some z0) =
     Some (0, Some SK_VER, Some SK_TYPE_ACCEL, Some (of_nat k), Some x, Some y, Some z) \<and>
   unat (of_nat k :: u16) = k mod 65536 \<and>
   sint x = mg_of (wobble ! (k mod 16)) \<and> sint y = mg_of (wobble ! ((k + 4) mod 16)) \<and>
   sint z = 1000"
proof -
  obtain a where a: "adxl345_decode (map Some (sample_bytes (of_nat k))) = Some a"
    using decode_sample by blast
  have p: "node_payload k = accel_payload (of_nat k) (x_mg a) (y_mg a) (z_mg a)"
    using a by (simp add: node_payload_def)
  have phase: "unat (of_nat k AND 15 :: u32) = k mod 16" for k
  proof -
    have m: "(15 :: u32) = mask 4" by (simp add: mask_numeral)
    show ?thesis
      by (simp only: m unsigned_take_bit_eq flip: take_bit_eq_mask)
        (simp add: take_bit_eq_mod unat_of_nat mod_mod_cancel)
  qed
  have "sint (x_mg a) = mg_of (wobble ! (k mod 16))"
    "sint (y_mg a) = mg_of (wobble ! ((k + 4) mod 16))" "sint (z_mg a) = 1000"
    using sample_axes [OF a] phase [of k] phase [of "k + 4"] by (simp_all add: add.commute)
  moreover have "unat (of_nat k :: u16) = k mod 65536" by (simp add: unat_of_nat)
  ultimately show ?thesis
    using sk_payload_unpack_ok [of 16 "of_nat k" "x_mg a" "y_mg a" "z_mg a" "[]"]
    by (auto simp: p out_val_def)
qed

text \<open>
  The first frame. On every UART that behaves as documented, boot and one turn send the
  banner and these twenty bytes: the second axis is 62 milli-g (\<open>3E 00 00 00\<close>), the scaled
  value of the raw sample 16, and the third 1000 (\<open>E8 03 00 00\<close>).
\<close>

lemma first_frame:
  assumes "uart_device dev good conf level sent" and "good d"
  shows "\<exists>s d'. node_run dev 1 d = Some (Running s d') \<and>
     sent d' = sent d @ chars banner @
       [0x7E, 0x01, 0x01, 0x00, 0x00, 0x00, 0x00, 0x00, 0x00, 0x3E, 0x00, 0x00, 0x00,
        0xE8, 0x03, 0x00, 0x00, 0xEC, 0x66, 0x7E]"
  using node_run_ok [OF assms, of 1]
  by (auto simp: node_stream_def node_payloads_def first_frame_bytes)

text \<open>
  Pacing. The delay loop over the 32-bit counter ends, at 200000.
\<close>

lemma delay_ends:
  "delay_pace = 200000"
proof -
  have "n \<le> 200000 \<Longrightarrow> delay_loop n = 200000" for n :: u32
  proof (induction "200000 - unat n" arbitrary: n rule: less_induct)
    case less
    show ?case
    proof (cases "n < 200000")
      case True
      then have "unat n < 200000" by (simp add: word_less_nat_alt)
      moreover then have "unat (n + 1) = Suc (unat n)" by (simp add: unat_word_ariths)
      ultimately have "delay_loop (n + 1) = 200000"
        by (intro less.hyps) (simp_all add: word_le_nat_alt)
      then show ?thesis using True by (simp add: delay_loop.simps [of n])
    next
      case False
      then have "n = 200000" using less.prems by simp
      then show ?thesis by (simp add: delay_loop.simps [of 200000])
    qed
  qed
  then show ?thesis by (simp add: delay_pace_def)
qed

end
