(* ===== verification/Power_On.thy ===== *)
theory Power_On
  imports Link_Script Node_Main
begin

text \<open>
  From power-on to the stream: the processor takes its entry from the vector table, the reset
  handler establishes the C runtime, \<open>main\<close> finds its static objects in \<open>.bss\<close>. Where each
  object lies is what the linker script makes of the sections it is given.
\<close>

section \<open>Objects in memory\<close>

text \<open>The address of each static object of \<open>main\<close>, structs member by member.\<close>

record placement =
  a_regs :: nat
  a_ptr :: nat
  a_phase :: nat
  a_write :: nat
  a_write_read :: nat
  a_ctx :: nat
  a_sample :: nat
  a_payload :: nat
  a_frame :: nat

text \<open>Memory is addressed by bytes, four to a word, low byte first.\<close>

definition mem_byte :: "word_mem \<Rightarrow> nat \<Rightarrow> u8" where
  "mem_byte m a = byte_at (m (a - a mod 4)) (8 * (a mod 4))"

definition mem_bytes :: "word_mem \<Rightarrow> nat \<Rightarrow> nat \<Rightarrow> mem" where
  "mem_bytes m a n = map (\<lambda>i. Some (mem_byte m (a + i))) [0..<n]"

definition mem_word :: "word_mem \<Rightarrow> nat \<Rightarrow> u32" where
  "mem_word m a = join32 (mem_byte m a) (mem_byte m (a + 1)) (mem_byte m (a + 2)) (mem_byte m (a + 3))"

text \<open>A pointer in memory is null when its word is zero; \<open>target\<close> is what others point to.\<close>

definition mem_ptr :: "(u32 \<Rightarrow> 'a) \<Rightarrow> word_mem \<Rightarrow> nat \<Rightarrow> 'a option" where
  "mem_ptr target m a = (if mem_word m a = 0 then None else Some (target (mem_word m a)))"

definition load_sim :: "placement \<Rightarrow> word_mem \<Rightarrow> i2c_sim" where
  "load_sim P m =
     \<lparr>sim_regs = mem_bytes m (a_regs P) I2C_SIM_NREGS, sim_ptr = mem_byte m (a_ptr P),
      sim_phase = mem_word m (a_phase P)\<rparr>"

definition load_node ::
  "(u32 \<Rightarrow> i2c_sim option write_fn) \<Rightarrow> (u32 \<Rightarrow> i2c_sim option write_read_fn) \<Rightarrow> (u32 \<Rightarrow> i2c_sim) \<Rightarrow>
   placement \<Rightarrow> word_mem \<Rightarrow> node" where
  "load_node fw fr fs P m =
     \<lparr>n_bus = \<lparr>bus_write = mem_ptr fw m (a_write P), bus_write_read = mem_ptr fr m (a_write_read P),
        ctx = mem_ptr fs m (a_ctx P)\<rparr>,
      n_sample = \<lparr>x_mg = mem_word m (a_sample P), y_mg = mem_word m (a_sample P + 4),
        z_mg = mem_word m (a_sample P + 8)\<rparr>,
      n_payload = mem_bytes m (a_payload P) SK_PAYLOAD_LEN,
      n_frame = mem_bytes m (a_frame P) SK_FRAME_MAX,
      n_seq = 0\<rparr>"

text \<open>
  The processor enters where entry 1 of the vector table says, with the stack pointer of
  entry 0; the reset handler prepares memory and calls \<open>main\<close>, here for \<open>n\<close> turns.
\<close>

definition power_on_run ::
  "linker_symbols \<Rightarrow> (u32 \<Rightarrow> i2c_sim option write_fn) \<Rightarrow> (u32 \<Rightarrow> i2c_sim option write_read_fn) \<Rightarrow>
   (u32 \<Rightarrow> i2c_sim) \<Rightarrow> placement \<Rightarrow> 'd mmio \<Rightarrow> nat \<Rightarrow> word_mem \<Rightarrow> 'd \<Rightarrow> 'd node_state option" where
  "power_on_run L fw fr fs P dev n m d =
     (if g_vectors ! 0 = Estack \<and> g_vectors ! 1 = Reset_Handler_entry
      then let m = Reset_Handler L m in node_run_from (load_node fw fr fs P m) (load_sim P m) dev n d
      else Default_Handler (Halted d))"

section \<open>The static objects are zero\<close>

text \<open>Sections in whole words, apart from each other; the objects inside \<open>.bss\<close>.\<close>

definition linked :: "linker_symbols \<Rightarrow> bool" where
  "linked L \<longleftrightarrow>
     (\<exists>n k. edata L = sdata L + 4 * n \<and> ebss L = sbss L + 4 * k \<and>
        (sidata L + 4 * n \<le> sdata L \<or> edata L \<le> sidata L)) \<and>
     (edata L \<le> sbss L \<or> ebss L \<le> sdata L) \<and> 4 dvd sbss L"

definition inside_bss :: "linker_symbols \<Rightarrow> nat \<times> nat \<Rightarrow> bool" where
  "inside_bss L o' \<longleftrightarrow> sbss L \<le> fst o' \<and> fst o' + snd o' \<le> ebss L"

definition placed :: "linker_symbols \<Rightarrow> placement \<Rightarrow> bool" where
  "placed L P \<longleftrightarrow>
     list_all (inside_bss L)
       [(a_regs P, 58), (a_ptr P, 1), (a_phase P, 4), (a_write P, 4), (a_write_read P, 4), (a_ctx P, 4),
        (a_sample P, 12), (a_payload P, 16), (a_frame P, 38)]"

lemma bss_word_zero:
  assumes "linked L" and "sbss L \<le> a" and "a < ebss L" and "4 dvd a"
  shows "Reset_Handler L m a = 0"
proof -
  obtain n k where L: "edata L = sdata L + 4 * n" "ebss L = sbss L + 4 * k"
    "sidata L + 4 * n \<le> sdata L \<or> edata L \<le> sidata L"
    using assms(1) by (auto simp: linked_def)
  have "4 dvd a - sbss L" using assms by (auto simp: linked_def intro: dvd_diff_nat)
  then have "a \<in> set (words (sbss L) k)" using assms(2,3) L(2) by (simp add: words_iff)
  then show ?thesis
    using zero_bss_words [of _ "sbss L" k] L(2) by (simp add: Reset_Handler_def)
qed

lemma bss_byte_zero:
  assumes L: "linked L" and "sbss L \<le> a" and "a < ebss L"
  shows "mem_byte (Reset_Handler L m) a = 0"
proof -
  let ?w = "a - a mod 4"
  have "4 dvd sbss L" using L by (simp add: linked_def)
  then have "sbss L \<le> ?w" using assms(2) by (auto elim!: dvdE) presburger
  moreover have "?w < ebss L" using assms(3) by simp
  moreover have "4 dvd ?w" by (simp add: dvd_minus_mod)
  ultimately have "Reset_Handler L m ?w = 0" by (rule bss_word_zero [OF L])
  then show ?thesis by (simp add: mem_byte_def byte_at_def)
qed

lemma bss_bytes_zero:
  assumes "linked L" and "inside_bss L (a, n)"
  shows "mem_bytes (Reset_Handler L m) a n = replicate n (Some 0)"
  using assms by (intro replicate_eqI) (auto simp: mem_bytes_def inside_bss_def bss_byte_zero)

lemma bss_word32_zero:
  assumes "linked L" and "inside_bss L (a, 4)"
  shows "mem_word (Reset_Handler L m) a = 0"
  using assms by (simp add: mem_word_def inside_bss_def bss_byte_zero join32_def)

lemma statics_zero:
  assumes "linked L" and "placed L P"
  shows "load_node fw fr fs P (Reset_Handler L m) = node_static" "load_sim P (Reset_Handler L m) = sim_static"
proof -
  have s: "inside_bss L (a_sample P, 4)" "inside_bss L (a_sample P + 4, 4)" "inside_bss L (a_sample P + 8, 4)"
    using assms(2) by (simp_all add: placed_def inside_bss_def)
  show "load_node fw fr fs P (Reset_Handler L m) = node_static"
    using assms s by (simp add: load_node_def node_static_def bus_static_def mem_ptr_def placed_def
        bss_bytes_zero bss_word32_zero)
  show "load_sim P (Reset_Handler L m) = sim_static"
    using assms bss_byte_zero [OF assms(1), of "a_ptr P" m]
    by (simp add: load_sim_def sim_static_def placed_def inside_bss_def bss_bytes_zero bss_word32_zero)
qed

section \<open>In a linked image\<close>

lemma layout_linked:
  assumes "layout_ok img" shows "linked (symbols img)"
proof -
  let ?L = "symbols img"
  obtain n k where "edata ?L = sdata ?L + 4 * n" "ebss ?L = sbss ?L + 4 * k"
    using assms whole_words [of "sdata ?L" "edata ?L"] whole_words [of "sbss ?L" "ebss ?L"]
    by (auto simp: layout_ok_def)
  then show ?thesis using assms by (auto simp: linked_def layout_ok_def)
qed

text \<open>The address of an object, and of the members of \<open>main\<close>'s objects in the ABI's layout.\<close>

definition address_of :: "image \<Rightarrow> string \<Rightarrow> nat" where
  "address_of img n = the (map_of (map (\<lambda>(s, a). (sec_name s, a)) (zeroed img)) n)"

definition main_placement :: "image \<Rightarrow> placement" where
  "main_placement img =
     \<lparr>a_regs = address_of img ''sim'', a_ptr = address_of img ''sim'' + 58,
      a_phase = address_of img ''sim'' + 60,
      a_write = address_of img ''bus'', a_write_read = address_of img ''bus'' + 4,
      a_ctx = address_of img ''bus'' + 8,
      a_sample = address_of img ''sample'', a_payload = address_of img ''payload'',
      a_frame = address_of img ''frame''\<rparr>"

text \<open>The image contains the objects of \<open>main.c\<close>, and no two zeroed objects of one name.\<close>

definition has_main :: "link_input \<Rightarrow> bool" where
  "has_main inp \<longleftrightarrow>
     set main_objects \<subseteq> set (in_bss inp) \<and> distinct (map sec_name (in_bss inp @ in_common inp))"

lemma object_in_bss:
  assumes l: "link inp = Some img" and h: "has_main inp" and s: "s \<in> set main_objects"
  shows "sbss (symbols img) \<le> address_of img (sec_name s) \<and>
         address_of img (sec_name s) + sec_size s \<le> ebss (symbols img)"
proof -
  have z: "map fst (zeroed img) = in_bss inp @ in_common inp"
    "\<forall>p\<in>set (zeroed img). sbss (symbols img) \<le> snd p \<and> snd p + sec_size (fst p) \<le> ebss (symbols img)"
    using zeroed_objects [OF l] by auto
  have "s \<in> set (map fst (zeroed img))" using h s z(1) by (auto simp: has_main_def)
  then obtain a where a: "(s, a) \<in> set (zeroed img)" by auto
  have names: "map fst (map (\<lambda>(s, a). (sec_name s, a)) (zeroed img)) = map sec_name (map fst (zeroed img))"
    by (simp add: case_prod_unfold)
  have "map_of (map (\<lambda>(s, a). (sec_name s, a)) (zeroed img)) (sec_name s) = Some a"
    using a h unfolding has_main_def
    by (intro map_of_is_SomeI) (force simp: names z(1) simp del: map_map map_append)+
  then show ?thesis using z(2) a by (auto simp: address_of_def)
qed

lemma main_placed:
  assumes "link inp = Some img" and "has_main inp"
  shows "placed (symbols img) (main_placement img)"
  using object_in_bss [OF assms, of "obj ''sim'' 64 2"] object_in_bss [OF assms, of "obj ''bus'' 12 2"]
    object_in_bss [OF assms, of "obj ''sample'' 12 2"] object_in_bss [OF assms, of "obj ''payload'' 16 0"]
    object_in_bss [OF assms, of "obj ''frame'' 38 0"]
  by (simp add: placed_def inside_bss_def main_placement_def main_objects_def obj_def)

section \<open>Property\<close>

text \<open>
  C3: from power-on. Whatever memory holds when power comes, in every image that the linker
  makes of any sections with \<open>main\<close>'s objects among those to be zeroed: the processor enters
  the reset handler, \<open>main\<close> finds its static objects zero, and after any number of turns it has
  sent, over every UART that behaves as documented, the banner and one frame per turn, and
  nothing else.
\<close>

theorem power_on_streams:
  assumes "link inp = Some img" and "has_main inp"
    and "uart_device dev good conf level sent" and "good d"
  shows "load_node fw fr fs (main_placement img) (Reset_Handler (symbols img) m) = node_static \<and>
         load_sim (main_placement img) (Reset_Handler (symbols img) m) = sim_static \<and>
         (\<exists>s d'. power_on_run (symbols img) fw fr fs (main_placement img) dev n m d = Some (Running s d') \<and>
            sent d' = sent d @ chars banner @ concat (map (\<lambda>k. wire_frame (node_payload k)) [0..<n]))"
proof -
  note zero = statics_zero [OF layout_linked [OF link_layout_ok [OF assms(1)]] main_placed [OF assms(1,2)]]
  show ?thesis
    using zero(1) [of fw fr fs m] zero(2) [of m] node_run_ok [OF assms(3,4), of n]
    by (auto simp: power_on_run_def g_vectors_def node_run_def node_stream_def node_payloads_def comp_def)
qed

lemma demo_has_main: "has_main demo_input"
  by (simp add: has_main_def demo_input_def main_objects_def obj_def)

theorem power_on_streams_witness:
  "load_node (\<lambda>_. sim_write) (\<lambda>_. sim_write_read) (\<lambda>_. power_on) (main_placement demo_image)
       (Reset_Handler (symbols demo_image) of_nat) = node_static \<and>
     load_sim (main_placement demo_image) (Reset_Handler (symbols demo_image) of_nat) = sim_static \<and>
     (\<exists>s d'. power_on_run (symbols demo_image) (\<lambda>_. sim_write) (\<lambda>_. sim_write_read) (\<lambda>_. power_on)
          (main_placement demo_image) fifo_dev 1000 of_nat fifo_start = Some (Running s d') \<and>
        fifo_sent d' = fifo_sent fifo_start @ chars banner @
          concat (map (\<lambda>k. wire_frame (node_payload k)) [0..<1000]))"
  by (rule power_on_streams [OF demo_link demo_has_main fifo_uart_device]) simp

end
