(* ===== verification/Noisy_Line.thy ===== *)
theory Noisy_Line
  imports Node_Main "HOL-Library.Sublist"
begin

text \<open>
  The receiver behind a line that loses, inserts and flips: which frames get through whatever
  happens between them, and how faults inside frames show in the decoder's results.
\<close>

section \<open>Anything between the frames\<close>

text \<open>
  \<open>carried ps bs\<close>: among the bytes \<open>bs\<close> that arrive, the frames of the payloads \<open>ps\<close> are whole,
  in this order. What lies before, between and behind them is arbitrary: noise, pieces of
  other frames, flags or escapes.
\<close>

inductive carried :: "u8 list list \<Rightarrow> u8 list \<Rightarrow> bool" where
  carried_end: "carried [] junk"
| carried_frame: "carried ps bs \<Longrightarrow> carried (p # ps) (junk @ wire_frame p @ bs)"

inductive_cases carried_NilE: "carried [] bs"
inductive_cases carried_ConsE: "carried (p # ps) bs"

text \<open>The payloads among verdicts.\<close>

fun verdict_payload :: "verdict \<Rightarrow> u8 list option" where
  "verdict_payload (Payload p) = Some p"
| "verdict_payload _ = None"

definition delivered :: "verdict list \<Rightarrow> u8 list list" where
  "delivered vs = List.map_filter verdict_payload vs"

lemma delivered_simps [simp]:
  "delivered [] = []" "delivered (Payload p # vs) = p # delivered vs"
  "delivered (Err_len # vs) = delivered vs" "delivered (Err_crc # vs) = delivered vs"
  "delivered (Err_oflow # vs) = delivered vs" "delivered (vs @ ws) = delivered vs @ delivered ws"
  by (simp_all add: delivered_def List.map_filter_def)

text \<open>Every frame that is carried is delivered, in order, from any state on.\<close>

lemma carried_delivered:
  assumes "carried ps bs" and "\<forall>p\<in>set ps. sendable p" and "16 \<le> room"
  shows "subseq ps (delivered (snd (afeed_all room a bs)))"
  using assms
proof (induction arbitrary: a rule: carried.induct)
  case (carried_end junk)
  then show ?case by simp
next
  case (carried_frame ps bs p junk)
  obtain a' vs where junk: "afeed_all room a junk = (a', vs)" by fastforce
  have "length p \<le> room" using carried_frame.prems by (simp add: sendable_def)
  then have frame: "afeed_all room a' (wire_frame p) =
      (Collecting [] False, pending room a' @ [Payload p])"
    using carried_frame.prems by (intro frame_verdicts) auto
  have "subseq ps (delivered (snd (afeed_all room (Collecting [] False) bs)))"
    using carried_frame by simp
  then show ?case
    by (simp add: afeed_all_append junk frame case_prod_unfold Let_def list_emb_append2)
qed

lemma byte_at_be16: "byte_at (be16 h l) 8 = h" "byte_at (be16 h l) 0 = l"
  by (rule bit_word_eqI, simp add: bit_byte_at bit_be16)+

text \<open>What is delivered lay between two flags, complete with its checksum.\<close>

lemma valid_inner_of:
  assumes "crc_valid xs" shows "inner_of (take (length xs - 2) xs) = xs"
proof -
  have "2 \<le> length xs" using assms by (simp add: crc_valid_def)
  from split_last_two [OF this] obtain p h l where xs: "xs = p @ [h, l]" by blast
  then have "crc_of p = be16 h l" using assms by (simp add: crc_valid_append)
  then show ?thesis by (simp add: xs inner_of_def byte_at_be16)
qed

lemma judge_genuine: "judge room xs = Payload p \<Longrightarrow> xs = inner_of p \<and> sendable p"
  using valid_inner_of [of xs] by (auto simp: judge_def sendable_def split: if_splits)

lemma judged_genuine:
  "\<exists>cs'. subseq cs' cs \<and> map (unstuff False) cs' = map inner_of (delivered (judge_all room (map (unstuff False) cs)))"
proof (induction cs)
  case (Cons c cs)
  then obtain cs' where cs': "subseq cs' cs"
    "map (unstuff False) cs' = map inner_of (delivered (judge_all room (map (unstuff False) cs)))"
    by blast
  show ?case
  proof (cases "\<exists>p. unstuff False c \<noteq> [] \<and> judge room (unstuff False c) = Payload p")
    case True
    then obtain p where p: "unstuff False c \<noteq> []" "judge room (unstuff False c) = Payload p" by blast
    then have "unstuff False c = inner_of p" using judge_genuine by blast
    then show ?thesis using cs' p by (intro exI [of _ "c # cs'"]) auto
  next
    case False
    then have "delivered (judge_all room (map (unstuff False) (c # cs))) =
        delivered (judge_all room (map (unstuff False) cs))"
      by (cases "judge room (unstuff False c)") auto
    then show ?thesis using cs' by (intro exI [of _ cs']) auto
  qed
qed (simp add: judge_all_def)

lemma delivered_genuine:
  "\<exists>cs. subseq cs (butlast (tl (chunks bs))) \<and>
     map (unstuff False) cs = map inner_of (delivered (stream_verdicts room bs))"
  unfolding stream_verdicts_def by (rule judged_genuine)

lemma delivered_sendable: "p \<in> set (delivered (stream_verdicts room bs)) \<Longrightarrow> sendable p"
  using judge_genuine
  by (fastforce simp: stream_verdicts_def judge_all_def delivered_def List.map_filter_def
      elim!: verdict_payload.elims)

section \<open>Faults inside frames\<close>

text \<open>
  Bit errors on the line: what arrives between the flags has the length of what was sent, no
  flag arose, and escapes stand where they stood. The bytes then differ, once unstuffed, in
  as many bits as on the line.
\<close>

definition same_marks :: "u8 list \<Rightarrow> u8 list \<Rightarrow> bool" where
  "same_marks c w \<longleftrightarrow> list_all2 (\<lambda>b b'. b \<noteq> SK_FLAG \<and> (b = SK_ESC \<longleftrightarrow> b' = SK_ESC)) c w"

lemma hamming_Nil [simp]: "hamming [] [] = 0"
  by (simp add: hamming_def bit_errors_def)

definition flips :: "u8 \<Rightarrow> u8 \<Rightarrow> bool list" where
  "flips x y = map2 (\<noteq>) (bits8 x) (bits8 y)"

lemma nth_flips: "k < 8 \<Longrightarrow> flips x y ! k = bit (x XOR y) (7 - k)"
  by (auto simp: flips_def nth_bits8 bit_xor_iff)

lemma length_flips [simp]: "length (flips x y) = 8"
  by (simp add: flips_def)

lemma flips_same: "flips x x = replicate 8 False"
  by (rule nth_equalityI) (simp_all add: nth_flips)

lemma flips_escaped: "flips (x XOR m) (y XOR m) = flips x y"
proof (rule nth_equalityI)
  fix k assume "k < length (flips (x XOR m) (y XOR m))"
  then show "flips (x XOR m) (y XOR m) ! k = flips x y ! k"
    by (auto simp: nth_flips bit_xor_iff)
qed simp

lemma hamming_Cons: "hamming (x # xs) (y # ys) = length (filter id (flips x y)) + hamming xs ys"
  by (simp add: hamming_def bit_errors_def flips_def)

lemma unstuff_same_marks:
  assumes "same_marks c w"
  shows "length (unstuff e c) = length (unstuff e w) \<and> hamming (unstuff e c) (unstuff e w) = hamming c w"
  using assms unfolding same_marks_def
proof (induction arbitrary: e rule: list_all2_induct)
  case (Cons b bs b' bs')
  then show ?case
    by (cases "b = SK_ESC")
      (auto simp: SK_ESC_def hamming_Cons flips_same flips_escaped)
qed simp

lemma same_marks_refl: "\<forall>b\<in>set w. b \<noteq> SK_FLAG \<Longrightarrow> same_marks w w"
  by (simp add: same_marks_def list.rel_refl_strong)

lemma unstuff_stuff [simp]: "unstuff False (stuff xs) = xs"
proof (induction xs)
  case (Cons x xs)
  have "x XOR 0x20 \<noteq> 0x7D" if "x = 0x7E \<or> x = 0x7D" using that by auto
  with Cons show ?case by (auto simp: xor.assoc)
qed simp

text \<open>
  What can happen to a frame here: it arrives, it is lost without a trace, or between its
  flags arrive bytes \<open>c\<close> that differ from what was sent in one, two, three or any odd number
  of bits.
\<close>

datatype fate = Arrives "u8 list" | Lost "u8 list" | Garbled "u8 list" "u8 list"

fun payload_sent :: "fate \<Rightarrow> u8 list" where
  "payload_sent (Arrives p) = p"
| "payload_sent (Lost p) = p"
| "payload_sent (Garbled p c) = p"

fun fate_ok :: "fate \<Rightarrow> bool" where
  "fate_ok (Garbled p c) \<longleftrightarrow>
     (let w = stuff (inner_of p)
      in same_marks c w \<and> c \<noteq> w \<and> (hamming c w < 4 \<or> odd (hamming c w)))"
| "fate_ok _ \<longleftrightarrow> True"

fun at_receiver :: "fate \<Rightarrow> u8 list" where
  "at_receiver (Arrives p) = wire_frame p"
| "at_receiver (Lost p) = []"
| "at_receiver (Garbled p c) = [SK_FLAG] @ c @ [SK_FLAG]"

text \<open>What the decoder returns for it.\<close>

fun outcome :: "fate \<Rightarrow> (int \<times> mem) list" where
  "outcome (Arrives p) = [(int (length p), map Some p)]"
| "outcome (Lost p) = []"
| "outcome (Garbled p c) = [(SK_DEC_ERR_CRC, [])]"

fun verdicts_of :: "fate \<Rightarrow> verdict list" where
  "verdicts_of (Arrives p) = [Payload p]"
| "verdicts_of (Lost p) = []"
| "verdicts_of (Garbled p c) = [Err_crc]"

lemma outcome_seen: "outcome f = map seen (verdicts_of f)"
  by (cases f) (simp_all add: seen_def)

lemma no_hamming_same: "hamming xs xs = 0"
  by (induction xs) (simp_all add: hamming_Cons flips_same)

lemma hamming_0_iff: "length xs = length ys \<Longrightarrow> hamming xs ys = 0 \<longleftrightarrow> xs = ys"
  using no_errors_equal [of xs ys] no_hamming_same
  by (auto simp: hamming_def filter_empty_conv)

lemma collect_chunk:
  "\<forall>b\<in>set c. b \<noteq> 0x7E \<Longrightarrow>
   afeed_all room (Collecting xs e) (c @ [0x7E]) =
     (Collecting [] False, if xs @ unstuff e c = [] then [] else [judge room (xs @ unstuff e c)])"
  by (induction c arbitrary: xs e) auto

lemma judge_garbled:
  assumes "fate_ok (Garbled p c)" and "sendable p"
  shows "judge room (unstuff False c) = Err_crc"
proof -
  let ?w = "stuff (inner_of p)"
  have c: "same_marks c ?w" "c \<noteq> ?w" "hamming c ?w < 4 \<or> odd (hamming c ?w)"
    using assms(1) by (simp_all add: Let_def)
  have bits: "length (unstuff False c) = length (inner_of p)"
    "hamming (unstuff False c) (inner_of p) = hamming c ?w"
    using unstuff_same_marks [OF c(1), of False] by simp_all
  have "length c = length ?w" using c(1) by (simp add: same_marks_def list_all2_lengthD)
  then have "unstuff False c \<noteq> inner_of p"
    using c(2) bits hamming_0_iff no_hamming_same by metis
  then show ?thesis
    using judge_damaged [OF assms(2), of "unstuff False c" 0 room] bits c(3)
    by (auto simp: damaged_def)
qed

lemma fate_verdicts:
  assumes "fate_ok f" and "sendable (payload_sent f)" and "16 \<le> room" and "pending room a = []"
  shows "\<exists>a'. afeed_all room a (at_receiver f) = (a', verdicts_of f) \<and> pending room a' = []"
proof (cases f)
  case (Arrives p)
  then show ?thesis
    using frame_verdicts [of p room a] assms by (simp add: sendable_def)
next
  case (Garbled p c)
  have "\<forall>b\<in>set c. b \<noteq> 0x7E"
    using assms(1) Garbled by (auto simp: Let_def same_marks_def SK_FLAG_def list_all2_conv_all_nth in_set_conv_nth)
  moreover have "judge room (unstuff False c) = Err_crc"
    using judge_garbled assms(1,2) Garbled by simp
  moreover then have "unstuff False c \<noteq> []" by (auto simp: judge_def)
  ultimately show ?thesis
    using collect_chunk [of c room "[]" False] assms(4) by (simp add: Garbled SK_FLAG_def afeed_flag)
qed (use assms in simp)

lemma fates_verdicts:
  assumes "\<forall>f\<in>set fs. fate_ok f \<and> sendable (payload_sent f)" and "16 \<le> room" and "pending room a = []"
  shows "\<exists>a'. afeed_all room a (concat (map at_receiver fs)) = (a', concat (map verdicts_of fs)) \<and>
              pending room a' = []"
  using assms
proof (induction fs arbitrary: a)
  case (Cons f fs)
  obtain a1 where a1: "afeed_all room a (at_receiver f) = (a1, verdicts_of f)" "pending room a1 = []"
    using fate_verdicts [of f room a] Cons.prems by auto
  obtain a2 where "afeed_all room a1 (concat (map at_receiver fs)) = (a2, concat (map verdicts_of fs))"
      "pending room a2 = []"
    using Cons.IH [of a1] Cons.prems a1(2) by auto
  with a1(1) show ?case by (simp add: afeed_all_append)
qed simp

section \<open>Properties\<close>

lemma verdict_sendable: "Payload p \<in> set (snd (afeed_all room a bs)) \<Longrightarrow> sendable p"
proof (induction bs arbitrary: a)
  case (Cons b bs)
  have "Payload p \<in> set (snd (afeed room a b)) \<Longrightarrow> sendable p"
    using judge_payload by (cases a) (auto simp: sendable_def split: if_splits)
  then show ?case using Cons by (auto simp: case_prod_unfold Let_def)
qed simp

lemma payloads_delivered:
  "(\<And>p. Payload p \<in> set vs \<Longrightarrow> p \<noteq> []) \<Longrightarrow> payloads (map seen vs) = delivered vs"
proof (induction vs)
  case (Cons v vs)
  then show ?case
    by (cases v) (auto simp: payloads_def seen_def comp_def SK_DEC_ERR_LEN_def SK_DEC_ERR_CRC_def
        SK_DEC_ERR_OFLOW_def)
qed simp

text \<open>From any state in order the receiver hands out what the abstract decoder delivers.\<close>

lemma receive_delivered:
  assumes "dec_rel st a" and "cap \<le> length out"
  shows "\<exists>rx. receive cap (st, out) bs = Some (rx, delivered (snd (afeed_all cap a bs)))"
proof -
  let ?vs = "snd (afeed_all cap a bs)"
  have "payloads (map seen ?vs) = delivered ?vs"
    using verdict_sendable by (intro payloads_delivered) (force simp: sendable_def)
  then show ?thesis
    using receive_sim [OF assms, of bs "fst (afeed_all cap a bs)" ?vs] by auto
qed

text \<open>
  C7: whole frames survive anything. Whatever else arrives on the line, before, between and
  behind whole frames, a decoder that was reset hands out the payload of every whole frame,
  in order; and all it hands out, in this order, are the payloads of different stretches of the
  line between a flag and the next one that are complete with a right checksum. Nothing is
  invented or handed out twice and no input faults. (\<open>chunks\<close> cuts the line at its flags; its
  first part has no flag before it and its last none behind it.)
\<close>

theorem survivors_delivered:
  assumes "length (st_buf st) = 18" and "16 \<le> cap" and "cap \<le> length out"
    and "carried ps bs" and "\<forall>p\<in>set ps. 6 \<le> length p \<and> length p \<le> 16"
  shows "\<exists>rx ms. receive cap (the (sk_decoder_init (Some st)), out) bs = Some (rx, ms) \<and> subseq ps ms \<and>
           (\<forall>m\<in>set ms. 6 \<le> length m \<and> length m \<le> 16) \<and>
           (\<exists>cs. subseq cs (butlast (tl (chunks bs))) \<and> map (unstuff False) cs = map inner_of ms)"
proof -
  let ?vs = "stream_verdicts cap bs"
  obtain st0 where st0: "sk_decoder_init (Some st) = Some st0" "dec_rel st0 Hunting"
    using init_hunting [OF assms(1)] by blast
  obtain rx where "receive cap (the (sk_decoder_init (Some st)), out) bs = Some (rx, delivered ?vs)"
    using receive_delivered [OF st0(2) assms(3), of bs] st0(1) by (auto simp: hunting_verdicts)
  moreover have "subseq ps (delivered ?vs)"
    using carried_delivered [OF assms(4) _ assms(2), of Hunting] assms(5)
    by (simp add: hunting_verdicts sendable_def)
  moreover have "\<forall>m\<in>set (delivered ?vs). 6 \<le> length m \<and> length m \<le> 16"
    using delivered_sendable by (auto simp: sendable_def)
  ultimately show ?thesis using delivered_genuine by blast
qed

text \<open>Two frames with half a frame, an escape and stray flags about them.\<close>

theorem survivors_delivered_witness:
  "\<exists>rx ms. receive 16 (the (sk_decoder_init (Some \<lparr>st_in_frame = 1, st_esc = 1, st_overflow = 1,
        st_count = 7, st_buf = replicate 18 None\<rparr>)), replicate 16 None)
      ([0x7E, 1, 2, 0x7D] @ wire_frame [1, 2, 0, 0, 5, 6] @ [0x7E, 9] @ wire_frame (replicate 16 0x7E) @ [0x7E]) =
      Some (rx, ms) \<and> subseq [[1, 2, 0, 0, 5, 6], replicate 16 0x7E] ms \<and>
      (\<forall>m\<in>set ms. 6 \<le> length m \<and> length m \<le> 16) \<and>
      (\<exists>cs. subseq cs (butlast (tl (chunks ([0x7E, 1, 2, 0x7D] @ wire_frame [1, 2, 0, 0, 5, 6] @ [0x7E, 9] @
            wire_frame (replicate 16 0x7E) @ [0x7E])))) \<and> map (unstuff False) cs = map inner_of ms)"
proof (rule survivors_delivered)
  let ?a = "[1, 2, 0, 0, 5, 6]" and ?b = "replicate 16 0x7E :: u8 list"
  have "carried [?b] ([0x7E, 9] @ wire_frame ?b @ [0x7E])" by (intro carried.intros)
  then show "carried [?a, ?b] ([0x7E, 1, 2, 0x7D] @ wire_frame ?a @ [0x7E, 9] @ wire_frame ?b @ [0x7E])"
    by (rule carried_frame)
qed simp_all

lemma hunting_noise: "\<forall>b\<in>set bs. b \<noteq> 0x7E \<Longrightarrow> afeed_all room Hunting bs = (Hunting, [])"
  by (induction bs) auto

lemma fates_received:
  assumes "length (st_buf st) = 18" and "16 \<le> cap" and "cap \<le> length out"
    and "\<forall>b\<in>set noise. b \<noteq> 0x7E" and "\<forall>f\<in>set fs. fate_ok f \<and> sendable (payload_sent f)"
  shows "\<exists>st' out'. feed_all (sk_decoder_init (Some st)) (Some out) cap
             (noise @ concat (map at_receiver fs)) = Some (concat (map outcome fs), Some st', out')"
proof -
  obtain st0 where st0: "sk_decoder_init (Some st) = Some st0" "dec_rel st0 Hunting"
    using init_hunting [OF assms(1)] by blast
  obtain a' where "afeed_all (room_of (Some out) cap) Hunting (noise @ concat (map at_receiver fs)) =
      (a', concat (map verdicts_of fs))"
    using fates_verdicts [of fs cap Hunting] hunting_noise [OF assms(4)] assms(2,5)
    by (auto simp: room_of_def afeed_all_append)
  from feed_all_sim [OF st0(2) _ this] show ?thesis
    using assms(3) by (fastforce simp: out_ok_def st0(1) outcome_seen [abs_def] map_concat comp_def)
qed

text \<open>
  C8: faults are located. When every frame of a stream arrives, is lost without a trace, or
  arrives with bit errors between its flags (one, two, three or any odd number, creating no
  flag and moving no escape), the results are, in order, one per frame: the payload of a
  frame that arrived, \<open>SK_DEC_ERR_CRC\<close> for one that was garbled, nothing for a lost one.
\<close>

theorem errors_located:
  assumes "length (st_buf st) = 18" and "16 \<le> cap" and "cap \<le> length out"
    and "\<forall>b\<in>set noise. b \<noteq> SK_FLAG"
    and "\<forall>f\<in>set fs. fate_ok f \<and> 6 \<le> length (payload_sent f) \<and> length (payload_sent f) \<le> 16"
  shows "\<exists>st' out'. feed_all (sk_decoder_init (Some st)) (Some out) cap
             (noise @ concat (map at_receiver fs)) = Some (concat (map outcome fs), Some st', out')"
  using fates_received [OF assms(1-3), of noise fs] assms(4,5) by (simp add: sendable_def SK_FLAG_def)

text \<open>Three frames: one that arrives, one that is lost, one with one bit wrong.\<close>

definition demo_fates :: "fate list" where
  "demo_fates =
     [Arrives (replicate 16 0x7D), Lost [9, 9, 9, 9, 9, 9],
      Garbled [1, 2, 0, 0, 5, 6] ([3, 2, 0, 0, 5, 6] @ drop 6 (inner_of [1, 2, 0, 0, 5, 6]))]"

lemma demo_fates_ok: "list_all fate_ok demo_fates"
  by code_simp

theorem errors_located_witness:
  "\<exists>st' out'. feed_all (sk_decoder_init (Some \<lparr>st_in_frame = 0, st_esc = 0, st_overflow = 0,
         st_count = 0, st_buf = replicate 18 None\<rparr>)) (Some (replicate 16 None)) 16
       ([0x53, 0x0D] @ concat (map at_receiver demo_fates)) =
     Some (concat (map outcome demo_fates), Some st', out')"
proof (rule errors_located)
  show "\<forall>f\<in>set demo_fates. fate_ok f \<and> 6 \<le> length (payload_sent f) \<and> length (payload_sent f) \<le> 16"
    using demo_fates_ok by (auto simp: demo_fates_def list_all_iff)
qed (simp_all add: SK_FLAG_def)

text \<open>
  C4: the node over a bad line. Let each of its frames arrive, be lost without a trace, or be
  garbled between its flags in one, two, three or any odd number of bits, so that no flag
  arises and escapes stand where they stood. The node has sent one frame per turn behind its
  banner, and the receiver gets the payloads of exactly the turns whose frames arrived, in
  order, and one checksum error in the place of each garbled one. Of faults of other kinds
  this says nothing.
\<close>

theorem node_over_noisy_line:
  assumes "uart_device dev good conf level sent" and "good d"
    and "length (st_buf st) = 18" and "16 \<le> cap" and "cap \<le> length out"
    and "map payload_sent fs = map node_payload [0..<n]" and "\<forall>f\<in>set fs. fate_ok f"
  shows "\<exists>s d' st' out'. node_run dev n d = Some (Running s d') \<and>
           sent d' = sent d @ chars banner @ concat (map (wire_frame \<circ> payload_sent) fs) \<and>
           feed_all (sk_decoder_init (Some st)) (Some out) cap
             (chars banner @ concat (map at_receiver fs)) =
             Some (concat (map outcome fs), Some st', out')"
proof -
  have stream: "map (wire_frame \<circ> payload_sent) fs = map (\<lambda>k. wire_frame (node_payload k)) [0..<n]"
    using arg_cong [OF assms(6), of "map wire_frame"] by (simp add: comp_def)
  have "payload_sent f \<in> set (map node_payload [0..<n])" if "f \<in> set fs" for f
    using that unfolding assms(6) [symmetric] by simp
  then have "\<forall>f\<in>set fs. fate_ok f \<and> sendable (payload_sent f)"
    using assms(7) node_payload_sendable by fastforce
  moreover have "\<forall>b\<in>set (chars banner). b \<noteq> 0x7E" by (rule banner_no_flag)
  ultimately show ?thesis
    using node_run_ok [OF assms(1,2), of n] fates_received [OF assms(3-5), of "chars banner" fs]
    unfolding stream by (auto simp: node_stream_def node_payloads_def comp_def)
qed

text \<open>A thousand turns of which every seventh frame is lost and every tenth has a bit wrong.\<close>

lemma first_byte_garbled:
  assumes "p = 1 # q" shows "fate_ok (Garbled p (3 # stuff (tl (inner_of p))))"
proof -
  let ?r = "stuff (tl (inner_of p))"
  have w: "stuff (inner_of p) = 1 # ?r" by (simp add: assms inner_of_def)
  have "same_marks ?r ?r"
    using stuff_no_flag by (intro same_marks_refl) (auto simp: SK_FLAG_def)
  then have "same_marks (3 # ?r) (1 # ?r)" by (simp add: same_marks_def SK_FLAG_def SK_ESC_def)
  moreover have "hamming (3 # ?r) (1 # ?r) = 1"
  proof -
    have "length (filter id (flips 3 1)) = 1" by code_simp
    then show ?thesis by (simp add: hamming_Cons no_hamming_same)
  qed
  ultimately show ?thesis by (simp add: w Let_def)
qed

definition demo_line :: "nat \<Rightarrow> fate" where
  "demo_line k =
     (let p = node_payload k
      in if 7 dvd k then Lost p
         else if 10 dvd k then Garbled p (3 # stuff (tl (inner_of p)))
         else Arrives p)"

lemma demo_line_ok: "fate_ok (demo_line k)"
proof -
  have "\<exists>q. node_payload k = 1 # q"
    using node_payload_accel [of k] by (auto simp: accel_payload_def envelope_def)
  then show ?thesis
    using first_byte_garbled by (auto simp: demo_line_def Let_def simp del: fate_ok.simps(1))
qed

theorem node_over_noisy_line_witness:
  "\<exists>s d' st' out'. node_run fifo_dev 1000 fifo_start = Some (Running s d') \<and>
     fifo_sent d' = fifo_sent fifo_start @ chars banner @
       concat (map (wire_frame \<circ> payload_sent) (map demo_line [0..<1000])) \<and>
     feed_all (sk_decoder_init (Some \<lparr>st_in_frame = 0, st_esc = 0, st_overflow = 0,
         st_count = 0, st_buf = replicate 18 None\<rparr>)) (Some (replicate 16 None)) 16
       (chars banner @ concat (map at_receiver (map demo_line [0..<1000]))) =
     Some (concat (map outcome (map demo_line [0..<1000])), Some st', out')"
proof (rule node_over_noisy_line [OF fifo_uart_device])
  show "map payload_sent (map demo_line [0..<1000]) = map node_payload [0..<1000]"
    by (simp add: demo_line_def Let_def comp_def del: upt_Suc upt_rec_numeral) 
qed (simp_all add: demo_line_ok)

end
