(* ===== verification/Node_Restart.thy ===== *)
theory Node_Restart
  imports Noisy_Line
begin

text \<open>
  A node that loses power in the middle of its stream and starts again: the receiver is not
  told, it keeps whatever it was collecting. The banner is longer than any frame, so what a
  broken frame left behind runs over while the banner passes, and costs no frame.
\<close>

section \<open>The stream from any decoder state\<close>

text \<open>Bytes that are neither flag nor escape are collected one for one.\<close>

lemma plain_bytes:
  assumes "\<forall>b\<in>set bs. b \<noteq> 0x7E \<and> b \<noteq> 0x7D"
  shows "\<exists>ys. afeed_all room (Collecting xs e) bs = (Collecting (xs @ ys) (e \<and> bs = []), []) \<and>
              length ys = length bs"
  using assms
proof (induction bs arbitrary: xs e)
  case (Cons b bs)
  then show ?case
    using Cons.IH [of "xs @ [if e then b XOR 0x20 else b]" False] by (force simp: case_prod_unfold)
qed simp

lemma banner_plain: "\<forall>b\<in>set (chars banner). b \<noteq> 0x7E \<and> b \<noteq> 0x7D" "18 < length (chars banner)"
  by (simp_all add: chars_def banner_def newline_def of_char_def)

lemma banner_from_anywhere:
  "\<exists>a'. afeed_all room a (chars banner) = (a', []) \<and> delivered (pending room a') = []"
proof (cases a)
  case Hunting
  then show ?thesis using hunting_noise [of "chars banner" room] banner_no_flag by simp
next
  case (Collecting xs e)
  obtain ys e' where "afeed_all room a (chars banner) = (Collecting (xs @ ys) e', [])"
      "length ys = length (chars banner)"
    using plain_bytes [OF banner_plain(1), of room xs e] Collecting by auto
  then show ?thesis using banner_plain(2) by (simp add: judge_def)
qed

text \<open>Whatever was pending, the stream of a node that boots is delivered whole.\<close>

lemma stream_from_anywhere:
  assumes "16 \<le> room"
  shows "\<exists>a' vs. afeed_all room a (node_stream n) = (a', vs) \<and> delivered vs = node_payloads n \<and>
           delivered (pending room a') = []"
proof (induction n)
  case 0
  then show ?case
    using banner_from_anywhere [of room a] by (auto simp: node_stream_def node_payloads_def)
next
  case (Suc n)
  have "length (node_payload n) \<le> room"
    using node_payload_sendable [of n] assms by (simp add: sendable_def)
  then show ?case
    using Suc frame_verdicts [OF node_payload_sendable, of n room]
    by (auto simp: node_stream_Suc afeed_all_append node_payloads_def)
qed

section \<open>A stream that breaks off\<close>

text \<open>The turns whose frames are out when the line goes dead after \<open>k\<close> bytes.\<close>

definition turns_out :: "nat \<Rightarrow> nat \<Rightarrow> nat list" where
  "turns_out n k = filter (\<lambda>i. length (node_stream (Suc i)) \<le> k) [0..<n]"

lemma node_stream_grows: "i \<le> n \<Longrightarrow> length (node_stream i) \<le> length (node_stream n)"
  by (induction n) (auto simp: node_stream_Suc le_Suc_eq)

lemma turns_out_Suc:
  "turns_out (Suc n) k = turns_out n k @ (if length (node_stream (Suc n)) \<le> k then [n] else [])"
  by (simp add: turns_out_def)

lemma turns_out_all: "length (node_stream n) \<le> k \<Longrightarrow> turns_out n k = [0..<n]"
proof -
  assume k: "length (node_stream n) \<le> k"
  have "length (node_stream (Suc i)) \<le> k" if "i < n" for i
    using node_stream_grows [of "Suc i" n] that k by simp
  then show ?thesis by (simp add: turns_out_def)
qed

lemma cut_stream_delivers:
  assumes "16 \<le> room"
  shows "delivered (snd (afeed_all room a (take k (node_stream n)))) = map node_payload (turns_out n k)"
proof (induction n)
  case 0
  have "\<forall>b\<in>set (take k (chars banner)). b \<noteq> 0x7E" using banner_no_flag by (auto dest: in_set_takeD)
  then show ?case by (simp add: node_stream_def node_payloads_def turns_out_def afeed_all_no_flag)
next
  case (Suc n)
  let ?l = "length (node_stream n)" and ?f = "wire_frame (node_payload n)"
  obtain a' vs where run: "afeed_all room a (node_stream n) = (a', vs)" "delivered vs = node_payloads n"
    "delivered (pending room a') = []"
    using stream_from_anywhere [OF assms] by blast
  consider "k < ?l" | "?l \<le> k" "k < ?l + length ?f" | "?l + length ?f \<le> k" by linarith
  then show ?case
  proof cases
    case 1
    then show ?thesis using Suc by (simp add: turns_out_Suc) (simp add: node_stream_Suc)
  next
    case 2
    then have "k - ?l < length ?f" by simp
    from cut_frame_verdicts [OF this, of room a']
    have "delivered (snd (afeed_all room a' (take (k - ?l) ?f))) = []" using run(3) by simp
    then show ?thesis using 2 run(1,2)
      by (simp add: turns_out_Suc turns_out_all)
        (simp add: node_stream_Suc afeed_all_append case_prod_unfold Let_def node_payloads_def)
  next
    case 3
    then have all: "length (node_stream (Suc n)) \<le> k" by (simp add: node_stream_Suc)
    obtain b ws where "afeed_all room a (node_stream (Suc n)) = (b, ws)" "delivered ws = node_payloads (Suc n)"
      using stream_from_anywhere [OF assms] by blast
    then show ?thesis using all by (simp add: turns_out_all node_payloads_def)
  qed
qed

section \<open>Power cycles\<close>

text \<open>
  One power cycle \<open>(d, n, k)\<close>: the node boots on a board in state \<open>d\<close>, and of what it sends
  in \<open>n\<close> turns the first \<open>k\<close> bytes get out before the supply fails.
\<close>

definition cycle_bytes :: "'d mmio \<Rightarrow> ('d \<Rightarrow> u8 list) \<Rightarrow> 'd \<times> nat \<times> nat \<Rightarrow> u8 list option" where
  "cycle_bytes dev sent = (\<lambda>(d, n, k). do {
     r \<leftarrow> node_run dev n d;
     Some (take k (case r of Running s d' \<Rightarrow> sent d' | Halted d' \<Rightarrow> sent d'))
   })"

lemma cycles_delivered:
  assumes "uart_device dev good conf level sent" and "16 \<le> room"
    and "\<forall>(d, n, k)\<in>set cs. good d \<and> sent d = []"
  shows "\<exists>bss. those (map (cycle_bytes dev sent) cs) = Some bss \<and>
           delivered (snd (afeed_all room a (concat bss))) =
             concat (map (\<lambda>(d, n, k). map node_payload (turns_out n k)) cs)"
  using assms(3)
proof (induction cs arbitrary: a)
  case (Cons c cs)
  obtain d n k where c: "c = (d, n, k)" by (rule prod_cases3)
  then have "cycle_bytes dev sent c = Some (take k (node_stream n))"
    using node_run_ok [OF assms(1), of d n] Cons.prems by (auto simp: cycle_bytes_def)
  moreover obtain a' vs where first: "afeed_all room a (take k (node_stream n)) = (a', vs)" by fastforce
  moreover obtain bss where "those (map (cycle_bytes dev sent) cs) = Some bss"
      "delivered (snd (afeed_all room a' (concat bss))) =
        concat (map (\<lambda>(d, n, k). map node_payload (turns_out n k)) cs)"
    using Cons.IH [of a'] Cons.prems by auto
  ultimately show ?case
    using cut_stream_delivers [OF assms(2), of a k n]
    by (simp add: c afeed_all_append case_prod_unfold Let_def)
qed simp

text \<open>
  C5: power cycles. However often the node loses power, wherever in its banner or its frames
  the stream then breaks off, and whatever state the receiving decoder is in, once the node
  boots again the receiver gets, cycle after cycle, the payload of every frame that was out
  whole, in order, and nothing else: the remains of a broken frame neither come out as a
  payload nor cost one.
\<close>

theorem node_restarts:
  assumes "uart_device dev good conf level sent" and "\<forall>(d, n, k)\<in>set cs. good d \<and> sent d = []"
    and "dec_ok st" and "16 \<le> cap" and "cap \<le> length out"
  shows "\<exists>bss rx. those (map (cycle_bytes dev sent) cs) = Some bss \<and>
           receive cap (st, out) (concat bss) =
             Some (rx, concat (map (\<lambda>(d, n, k). map node_payload (turns_out n k)) cs))"
proof -
  obtain a where a: "dec_rel st a" using dec_ok_rel [OF assms(3)] by blast
  obtain bss where "those (map (cycle_bytes dev sent) cs) = Some bss"
    "delivered (snd (afeed_all cap a (concat bss))) =
      concat (map (\<lambda>(d, n, k). map node_payload (turns_out n k)) cs)"
    using cycles_delivered [OF assms(1,4,2)] by blast
  then show ?thesis using receive_delivered [OF a assms(5), of "concat bss"] by auto
qed

text \<open>
  Three cycles: a thousand turns cut off after 500 bytes, one cut off in the banner, fifty
  turns to the end; the decoder starts in the middle of a frame.
\<close>

theorem node_restarts_witness:
  "\<exists>bss rx. those (map (cycle_bytes fifo_dev fifo_sent)
       [(fifo_start, 1000, 500), (fifo_start, 3, 7), (fifo_start, 50, 10000)]) = Some bss \<and>
     receive 16 (\<lparr>st_in_frame = 1, st_esc = 1, st_overflow = 0, st_count = 7,
         st_buf = replicate 18 (Some 0x20)\<rparr>, replicate 16 None) (concat bss) =
     Some (rx, concat (map (\<lambda>(d, n, k). map node_payload (turns_out n k))
       [(fifo_start, 1000, 500), (fifo_start, 3, 7), (fifo_start, 50, 10000)]))"
  by (rule node_restarts [OF fifo_uart_device])
    (simp_all add: dec_ok_def list_all_iff fifo_sent_def fifo_start_def)

end
