(* ===== verification/Uart_Receive.thy ===== *)
theory Uart_Receive
  imports Uart "HOL-Library.Sublist"
begin

text \<open>
  The receiving half of \<open>firmware/uart.c\<close>: \<open>uart_try_getc\<close> as a source of bytes that never
  blocks, over every UART whose receive FIFO behaves as documented.
\<close>

section \<open>The interface\<close>

text \<open>
  A source is asked for a byte at a time and answers at once. \<open>arrived\<close> is everything that has
  entered the FIFO so far, \<open>taken\<close> how much of it has been handed out; more may arrive at any
  moment. A request hands out the oldest byte not yet taken, or -1, and that only when
  there was none.
\<close>

locale byte_source =
  fixes get :: "'d \<Rightarrow> int \<times> 'd"
    and good :: "'d \<Rightarrow> bool"
    and arrived :: "'d \<Rightarrow> u8 list"
    and taken :: "'d \<Rightarrow> nat"
  assumes get_good: "good d \<Longrightarrow> get d = (r, d') \<Longrightarrow> good d'"
    and get_grows: "good d \<Longrightarrow> get d = (r, d') \<Longrightarrow> prefix (arrived d) (arrived d')"
    and get_cases: "good d \<Longrightarrow> get d = (r, d') \<Longrightarrow>
          (r = -1 \<and> taken d' = taken d \<and> taken d = length (arrived d)) \<or>
          (taken d < length (arrived d') \<and> r = uint (arrived d' ! taken d) \<and> taken d' = Suc (taken d))"

primrec polls :: "('d \<Rightarrow> int \<times> 'd) \<Rightarrow> nat \<Rightarrow> 'd \<Rightarrow> int list \<times> 'd" where
  "polls get 0 d = ([], d)"
| "polls get (Suc n) d = (let (r, d) = get d; (rs, d) = polls get n d in (r # rs, d))"

text \<open>The bytes among the results.\<close>

definition bytes_got :: "int list \<Rightarrow> int list" where
  "bytes_got rs = filter (\<lambda>r. r \<noteq> -1) rs"

context byte_source
begin

lemma polls_grow:
  "good d \<Longrightarrow> polls get n d = (rs, d') \<Longrightarrow>
   good d' \<and> prefix (arrived d) (arrived d') \<and> taken d \<le> taken d'"
proof (induction n arbitrary: d rs)
  case (Suc n)
  obtain r d1 where d1: "get d = (r, d1)" by fastforce
  obtain rs1 where rest: "polls get n d1 = (rs1, d')" using Suc.prems(2) d1 by (auto simp: Let_def split: prod.splits)
  show ?case
    using Suc.IH [OF get_good [OF Suc.prems(1) d1] rest] get_grows [OF Suc.prems(1) d1]
      get_cases [OF Suc.prems(1) d1] prefix_order.trans by fastforce
qed simp

text \<open>Nothing is lost, doubled or reordered, and no more than \<open>n\<close> requests are needed for \<open>n\<close> bytes.\<close>

lemma polls_take:
  assumes "good d" and "polls get n d = (rs, d')" and "taken d \<le> length (arrived d)"
  shows "bytes_got rs = map uint (take (taken d' - taken d) (drop (taken d) (arrived d'))) \<and>
         taken d' \<le> length (arrived d') \<and> length rs = n \<and>
         min (length (arrived d)) (taken d + n) \<le> taken d'"
  using assms
proof (induction n arbitrary: d rs)
  case 0
  then show ?case by (auto simp: bytes_got_def)
next
  case (Suc n)
  obtain r d1 where d1: "get d = (r, d1)" by fastforce
  obtain rs1 where rest: "polls get n d1 = (rs1, d')" and rs: "rs = r # rs1"
    using Suc.prems(2) d1 by (auto simp: Let_def split: prod.splits)
  note good1 = get_good [OF Suc.prems(1) d1] and grow = get_grows [OF Suc.prems(1) d1]
  note later = polls_grow [OF good1 rest]
  have len: "length (arrived d) \<le> length (arrived d1)" using grow by (rule prefix_length_le)
  from get_cases [OF Suc.prems(1) d1] show ?case
  proof (elim disjE conjE)
    assume none: "r = -1" "taken d1 = taken d" "taken d = length (arrived d)"
    have "taken d1 \<le> length (arrived d1)" using none len by simp
    from Suc.IH [OF good1 rest this] show ?thesis using none later by (auto simp: rs bytes_got_def)
  next
    assume byte: "taken d < length (arrived d1)" "r = uint (arrived d1 ! taken d)" "taken d1 = Suc (taken d)"
    have "taken d1 \<le> length (arrived d1)" using byte by simp
    note IH = Suc.IH [OF good1 rest this]
    have same: "arrived d' ! taken d = arrived d1 ! taken d" "taken d < length (arrived d')"
      using later byte(1) by (auto simp: prefix_def nth_append)
    have first: "take (taken d' - taken d) (drop (taken d) (arrived d')) =
        (arrived d' ! taken d) # take (taken d' - taken d1) (drop (taken d1) (arrived d'))"
      using later same(2) byte(3) by (simp add: Cons_nth_drop_Suc [symmetric] Suc_diff_le take_Cons')
    have "r \<noteq> -1" using byte(2) using uint_ge_0 [of "arrived d1 ! taken d"] by linarith
    then show ?thesis
      using IH byte len unfolding rs first by (auto simp: bytes_got_def same(1))
  qed
qed

end

section \<open>The device\<close>

text \<open>
  The documented behaviour of the receive side: a load of the flags takes nothing from the
  FIFO, and shows it empty exactly when it is; a load of the data register from a FIFO that
  is not empty takes the oldest byte and shows it in the low eight bits. Bytes may arrive
  during either.
\<close>

definition uart_receiver ::
  "'d mmio \<Rightarrow> ('d \<Rightarrow> bool) \<Rightarrow> ('d \<Rightarrow> u8 list) \<Rightarrow> ('d \<Rightarrow> nat) \<Rightarrow> bool" where
  "uart_receiver dev good arrived taken \<longleftrightarrow>
     (\<forall>d. good d \<longrightarrow>
        (let (v, d') = load_reg dev d UART_FR in
         good d' \<and> prefix (arrived d) (arrived d') \<and> taken d' = taken d \<and>
         (if v AND UART_FR_RXFE \<noteq> 0 then taken d = length (arrived d)
          else taken d < length (arrived d')))) \<and>
     (\<forall>d. good d \<and> taken d < length (arrived d) \<longrightarrow>
        (let (w, d') = load_reg dev d UART_DR in
         good d' \<and> prefix (arrived d) (arrived d') \<and> taken d' = Suc (taken d) \<and>
         ucast w = arrived d ! taken d))"

lemma uart_try_getc_source:
  assumes dev: "uart_receiver dev good arrived taken" and d: "good d"
    and run: "uart_try_getc dev d = (r, d')"
  shows "good d' \<and> prefix (arrived d) (arrived d') \<and>
         (r = -1 \<and> taken d' = taken d \<and> taken d = length (arrived d) \<or>
          taken d < length (arrived d') \<and> r = uint (arrived d' ! taken d) \<and> taken d' = Suc (taken d))"
proof -
  obtain v d1 where fr: "load_reg dev d UART_FR = (v, d1)" by fastforce
  have 1: "good d1" "prefix (arrived d) (arrived d1)" "taken d1 = taken d"
    "if v AND UART_FR_RXFE \<noteq> 0 then taken d = length (arrived d) else taken d < length (arrived d1)"
    using dev d fr unfolding uart_receiver_def Let_def by (auto dest!: spec [of _ d])
  show ?thesis
  proof (cases "v AND UART_FR_RXFE \<noteq> 0")
    case True
    then show ?thesis using run 1 by (auto simp: uart_try_getc_def fr)
  next
    case False
    then have less: "taken d1 < length (arrived d1)" using 1 by simp
    obtain w d2 where dr: "load_reg dev d1 UART_DR = (w, d2)" by fastforce
    have 2: "good d2" "prefix (arrived d1) (arrived d2)" "taken d2 = Suc (taken d1)"
      "ucast w = arrived d1 ! taken d1"
      using dev 1(1) less dr unfolding uart_receiver_def Let_def by (auto dest!: spec [of _ d1])
    have "arrived d2 ! taken d1 = arrived d1 ! taken d1" "taken d1 < length (arrived d2)"
      using 2(2) less by (auto simp: prefix_def nth_append)
    moreover have "r = uint (ucast w :: u8)" "d' = d2"
      using run False by (simp_all add: uart_try_getc_def fr dr low_byte_value)
    ultimately show ?thesis using 1 2 by (auto intro: prefix_order.trans)
  qed
qed

text \<open>A receiver together with the contract it meets.\<close>

definition uart_rx_ready ::
  "'d mmio \<Rightarrow> ('d \<Rightarrow> bool) \<Rightarrow> ('d \<Rightarrow> u8 list) \<Rightarrow> ('d \<Rightarrow> nat) \<Rightarrow> 'd \<Rightarrow> bool" where
  "uart_rx_ready dev good arrived taken d \<longleftrightarrow> uart_receiver dev good arrived taken \<and> good d"

interpretation rx: byte_source "uart_try_getc dev" "uart_rx_ready dev good arrived taken" arrived taken
  for dev good arrived taken
proof unfold_locales
  fix d r d'
  assume d: "uart_rx_ready dev good arrived taken d" and run: "uart_try_getc dev d = (r, d')"
  note facts = uart_try_getc_source [OF conjunct1 [OF d [unfolded uart_rx_ready_def]]
      conjunct2 [OF d [unfolded uart_rx_ready_def]] run]
  show "uart_rx_ready dev good arrived taken d'" using d facts by (simp add: uart_rx_ready_def)
  show "prefix (arrived d) (arrived d')" using facts by blast
  show "(r = -1 \<and> taken d' = taken d \<and> taken d = length (arrived d)) \<or>
      (taken d < length (arrived d') \<and> r = uint (arrived d' ! taken d) \<and> taken d' = Suc (taken d))"
    using facts by blast
qed

section \<open>A device that behaves so\<close>

text \<open>A receiver on whose line \<open>rx_line\<close> is still to come, one byte per poll of the flags.\<close>

record rx_uart =
  rx_line :: "u8 list"
  rx_seen :: "u8 list"
  rx_taken :: nat

definition rx_dev :: "rx_uart mmio" where
  "rx_dev =
     \<lparr>load_reg = \<lambda>d a.
        if a = UART_FR
        then (if rx_taken d = length (rx_seen d) then UART_FR_RXFE else 0,
              d\<lparr>rx_line := tl (rx_line d), rx_seen := rx_seen d @ take 1 (rx_line d)\<rparr>)
        else if a = UART_DR
        then (ucast (rx_seen d ! rx_taken d) OR 0x100, d\<lparr>rx_taken := Suc (rx_taken d)\<rparr>)
        else (0, d),
      store_reg = \<lambda>d a v. d\<rparr>"

lemma rx_dev_receiver: "uart_receiver rx_dev (\<lambda>d. rx_taken d \<le> length (rx_seen d)) rx_seen rx_taken"
proof -
  have "UART_FR \<noteq> UART_DR" "UART_FR_RXFE AND UART_FR_RXFE \<noteq> 0" by (simp_all add: uart_regs UART_FR_RXFE_def)
  moreover have "ucast (ucast b OR 0x100 :: u32) = b" for b :: u8
  proof (rule bit_word_eqI)
    fix n assume n: "n < LENGTH(8)"
    have "list_all (\<lambda>n. \<not> bit (0x100 :: u32) n) [0..<8]" by code_simp
    then have "\<not> bit (0x100 :: u32) n" using n by (simp add: list_all_iff del: upt_rec_numeral)
    then show "bit (ucast (ucast b OR 0x100 :: u32) :: u8) n = bit b n"
      using n by (simp add: bit_simps)
  qed
  ultimately show ?thesis
    unfolding uart_receiver_def Let_def by (auto simp: rx_dev_def)
qed

section \<open>Property\<close>

text \<open>
  C36: reception. On every UART whose receive FIFO behaves as documented, however the bytes
  arrive between and during the requests, any number of calls of \<open>uart_try_getc\<close> hand out the
  bytes that arrived from the first not yet taken on, in order, none lost, doubled or
  changed, with -1 in between only when nothing was there; and \<open>n\<close> calls are enough for all
  that had arrived, if this was no more than \<open>n\<close> bytes.
\<close>

theorem uart_receives:
  assumes "uart_receiver dev good arrived taken" and "good d" and "taken d \<le> length (arrived d)"
    and "polls (uart_try_getc dev) n d = (rs, d')"
  shows "prefix (arrived d) (arrived d') \<and>
         bytes_got rs = map uint (take (taken d' - taken d) (drop (taken d) (arrived d'))) \<and>
         min (length (arrived d)) (taken d + n) \<le> taken d' \<and> taken d' \<le> length (arrived d')"
  using rx.polls_take [of dev good arrived taken d n rs d'] rx.polls_grow [of dev good arrived taken d n rs d']
    assms by (simp add: uart_rx_ready_def)

theorem uart_receives_witness:
  "polls (uart_try_getc rx_dev) 4 \<lparr>rx_line = [7, 8], rx_seen = [5, 6], rx_taken = 1\<rparr> =
     ([6, 7, 8, -1], \<lparr>rx_line = [], rx_seen = [5, 6, 7, 8], rx_taken = 4\<rparr>) \<and>
   bytes_got [6, 7, 8, -1] = map uint (take (4 - 1) (drop 1 [5, 6, 7, 8 :: u8]))"
proof -
  have run: "polls (uart_try_getc rx_dev) 4 \<lparr>rx_line = [7, 8], rx_seen = [5, 6], rx_taken = 1\<rparr> =
     ([6, 7, 8, -1], \<lparr>rx_line = [], rx_seen = [5, 6, 7, 8], rx_taken = 4\<rparr>)"
    by code_simp
  then show ?thesis using uart_receives [OF rx_dev_receiver _ _ run] by simp
qed

end
