(* ===== verification/Frame_Overlap.thy ===== *)
theory Frame_Overlap
  imports Frame_Encode
begin

text \<open>
  \<open>sk_frame_encode\<close> when its two pointers point into the same object. Nothing in its
  declaration keeps the payload and the output buffer apart, so a caller may encode a
  message in the buffer it was packed in. Here memory is one array, a pointer is an offset
  into it, and every store of the encoder may hit the payload.
\<close>

section \<open>The encoder over one array\<close>

text \<open>The stuffing loop, its output at offset \<open>o'\<close>.\<close>

function stuff_loop_at ::
  "mem \<Rightarrow> nat \<Rightarrow> nat \<Rightarrow> nat \<Rightarrow> mem \<Rightarrow> nat \<Rightarrow> nat \<Rightarrow> (bool \<times> nat \<times> mem) option" where
  "stuff_loop_at inner i inner_len n m o' cap =
     (if i < inner_len
      then do {
        b \<leftarrow> rd inner i;
        if b = SK_FLAG \<or> b = SK_ESC
        then if n + 2 > cap then Some (False, n, m)
             else do {
               m \<leftarrow> wr m (o' + n) SK_ESC;
               m \<leftarrow> wr m (o' + (n + 1)) (b XOR SK_ESC_XOR);
               stuff_loop_at inner (Suc i) inner_len (n + 2) m o' cap
             }
        else if n + 1 > cap then Some (False, n, m)
             else do {
               m \<leftarrow> wr m (o' + n) b;
               stuff_loop_at inner (Suc i) inner_len (n + 1) m o' cap
             }
      }
      else Some (True, n, m))"
  by pat_completeness auto
termination
  by (relation "measure (\<lambda>(inner, i, inner_len, n, m, o', cap). inner_len - i)") auto

declare stuff_loop_at.simps [simp del]

text \<open>
  The payload at offset \<open>p\<close> is read through \<open>drop p m\<close>, which is the array as the pointer
  sees it. \<open>inner\<close> is the encoder's own local array.
\<close>

definition sk_frame_encode_at :: "mem \<Rightarrow> nat \<Rightarrow> nat \<Rightarrow> nat \<Rightarrow> nat \<Rightarrow> (int \<times> mem) option" where
  "sk_frame_encode_at m p plen o' cap =
     (if plen < SK_PAYLOAD_MIN \<or> plen > SK_PAYLOAD_MAX then Some (-1, m)
      else do {
        inner \<leftarrow> copy_loop (drop p m) (replicate SK_FRAME_INNER None) 0 plen;
        crc \<leftarrow> crc16_ccitt_false (Some (drop p m)) plen;
        inner \<leftarrow> wr inner plen (byte_at crc 8);
        inner \<leftarrow> wr inner (plen + 1) (byte_at crc 0);
        let inner_len = plen + SK_CRC_LEN;
        if cap < 1 then Some (-1, m)
        else do {
          m \<leftarrow> wr m o' SK_FLAG;
          (fits, n, m) \<leftarrow> stuff_loop_at inner 0 inner_len 1 m o' cap;
          if \<not> fits then Some (-1, m)
          else if n + 1 > cap then Some (-1, m)
          else do {
            m \<leftarrow> wr m (o' + n) SK_FLAG;
            Some (int (n + 1), m)
          }
        }
      })"

section \<open>Overlap does no harm\<close>

lemma wr_behind: "wr (pre @ b) (length pre + n) v = map_option ((@) pre) (wr b n v)"
  by (simp add: wr_def list_update_append)

lemma wr_behind_cases:
  "wr (pre @ b) (length pre) v = map_option ((@) pre) (wr b 0 v)"
  "wr (pre @ b) (Suc (length pre + n)) v = map_option ((@) pre) (wr b (Suc n) v)"
  using wr_behind [of pre b 0] wr_behind [of pre b "Suc n"] by simp_all

lemma stuff_loop_behind:
  "stuff_loop_at inner i inner_len n (pre @ b) (length pre) cap =
   map_option (\<lambda>(fits, n, b). (fits, n, pre @ b)) (stuff_loop inner i inner_len n b cap)"
proof (induction inner i inner_len n b cap rule: stuff_loop.induct)
  case (1 inner i inner_len n b cap)
  show ?case
  proof (cases "i < inner_len \<and> rd inner i \<noteq> None")
    case False
    then show ?thesis by (subst stuff_loop_at.simps, subst stuff_loop.simps) auto
  next
    case True
    then obtain c where c: "i < inner_len" "rd inner i = Some c" by auto
    show ?thesis
      using "1.IH" [OF c] c
      by (subst stuff_loop_at.simps, subst stuff_loop.simps)
        (auto simp: wr_behind wr_behind_cases split: bind_split)
  qed
qed

lemma output_behind:
  "(do {
      m \<leftarrow> wr (pre @ b) (length pre) SK_FLAG;
      (fits, n, m) \<leftarrow> stuff_loop_at inner 0 k 1 m (length pre) cap;
      if \<not> fits then Some (-1, m)
      else if n + 1 > cap then Some (-1, m)
      else do { m \<leftarrow> wr m (length pre + n) SK_FLAG; Some (int (n + 1), m) }
    }) =
   map_option (\<lambda>(r, ob). (r, pre @ the ob)) (do {
      ob \<leftarrow> wr b 0 SK_FLAG;
      (fits, n, ob) \<leftarrow> stuff_loop inner 0 k 1 ob cap;
      if \<not> fits then Some (-1, Some ob)
      else if n + 1 > cap then Some (-1, Some ob)
      else do { ob \<leftarrow> wr ob n SK_FLAG; Some (int (n + 1), Some ob) }
    })"
proof (cases "wr b 0 SK_FLAG")
  case None
  then show ?thesis by (simp add: wr_behind_cases)
next
  case (Some b1)
  show ?thesis
  proof (cases "stuff_loop inner 0 k 1 b1 cap")
    case None
    then show ?thesis using Some by (simp add: wr_behind_cases stuff_loop_behind)
  next
    case loop: (Some x)
    obtain fits n b2 where x: "x = (fits, n, b2)" by (cases x)
    show ?thesis using Some loop
      by (cases "wr b2 n SK_FLAG") (auto simp: x wr_behind wr_behind_cases stuff_loop_behind)
  qed
qed

lemma sk_frame_encode_at_split:
  assumes "o' \<le> length m"
  shows "sk_frame_encode_at m p plen o' cap =
         map_option (\<lambda>(r, b). (r, take o' m @ the b))
           (sk_frame_encode (Some (drop p m)) plen (Some (drop o' m)) cap)"
proof -
  define pre b src where "pre = take o' m" and "b = drop o' m" and "src = drop p m"
  have m: "m = pre @ b" and o': "o' = length pre" using assms by (simp_all add: pre_def b_def)
  then have src: "drop p (pre @ b) = src" by (simp add: src_def)
  have "sk_frame_encode_at m p plen o' cap =
      (if plen < SK_PAYLOAD_MIN \<or> plen > SK_PAYLOAD_MAX then Some (-1, pre @ b)
       else do {
         inner \<leftarrow> copy_loop src (replicate SK_FRAME_INNER None) 0 plen;
         crc \<leftarrow> crc16_ccitt_false (Some src) plen;
         inner \<leftarrow> wr inner plen (byte_at crc 8);
         inner \<leftarrow> wr inner (plen + 1) (byte_at crc 0);
         if cap < 1 then Some (-1, pre @ b)
         else do {
           m \<leftarrow> wr (pre @ b) (length pre) SK_FLAG;
           (fits, n, m) \<leftarrow> stuff_loop_at inner 0 (plen + SK_CRC_LEN) 1 m (length pre) cap;
           if \<not> fits then Some (-1, m)
           else if n + 1 > cap then Some (-1, m)
           else do { m \<leftarrow> wr m (length pre + n) SK_FLAG; Some (int (n + 1), m) }
         }
       })"
    unfolding sk_frame_encode_at_def o' m src Let_def ..
  then show ?thesis
    unfolding output_behind sk_frame_encode_def pre_def [symmetric] b_def [symmetric] src_def [symmetric]
    by (auto simp: Let_def split: bind_split)
qed

section \<open>Property\<close>

text \<open>
  C13: encoding in place. Wherever in one array the payload and the output lie, overlapping in
  any way, the encoder writes the frame of the payload as it was before the call and changes
  nothing else: it has copied the payload and taken its checksum before it stores the first
  byte.
\<close>

theorem encode_in_place:
  assumes "6 \<le> length p" and "length p \<le> 16" and "take (length p) (drop a m) = map Some p"
    and "length (wire_frame p) \<le> cap" and "o' + cap \<le> length m"
  shows "sk_frame_encode_at m a (length p) o' cap =
         Some (int (length (wire_frame p)),
               take o' m @ map Some (wire_frame p) @ drop (o' + length (wire_frame p)) m)"
proof -
  have "drop a m = map Some p @ drop (length p) (drop a m)"
    using assms(3) by (metis append_take_drop_id)
  moreover have "sk_frame_encode (Some (map Some p @ drop (length p) (drop a m))) (length p)
      (Some (drop o' m)) cap =
      Some (int (length (wire_frame p)), Some (filled (wire_frame p) (drop o' m)))"
    using assms by (intro sk_frame_encode_fits) (simp_all add: sendable_def)
  ultimately have "sk_frame_encode (Some (drop a m)) (length p) (Some (drop o' m)) cap =
      Some (int (length (wire_frame p)), Some (filled (wire_frame p) (drop o' m)))"
    by simp
  then show ?thesis
    using sk_frame_encode_at_split [of o' m a "length p" cap] assms(5)
    by (simp add: filled_def add.commute)
qed

theorem encode_in_place_witness:
  "sk_frame_encode_at (map Some [1, 2, 0, 0, 0x7E, 0x7D] @ replicate 14 None) 0
     (length [1, 2, 0, 0, 0x7E, 0x7D :: u8]) 0 20 =
   Some (int (length (wire_frame [1, 2, 0, 0, 0x7E, 0x7D])),
     take 0 (map Some [1, 2, 0, 0, 0x7E, 0x7D] @ replicate 14 None) @
     map Some (wire_frame [1, 2, 0, 0, 0x7E, 0x7D]) @
     drop (0 + length (wire_frame [1, 2, 0, 0, 0x7E, 0x7D]))
       (map Some [1, 2, 0, 0, 0x7E, 0x7D] @ replicate 14 None))"
  by (rule encode_in_place) (simp_all, code_simp)

end
