(* ===== verification/Frame_Deliver.thy ===== *)
theory Frame_Deliver
  imports Frame_Decode
begin

text \<open>
  \<open>sk_decoder_feed\<close> when its buffer \<open>out\<close> lies inside the decoder itself. Nothing in its
  declaration forbids \<open>out = st->buf\<close>, which saves the caller a second buffer, or a pointer
  further into \<open>buf\<close>. Here \<open>out\<close> is an offset into \<open>st_buf\<close>: the copy at the end of a frame
  then writes the array it reads.
\<close>

section \<open>The decoder that delivers into its own buffer\<close>

text \<open>The copy loop with \<open>out = buf + o\<close>.\<close>

function copy_within :: "mem \<Rightarrow> nat \<Rightarrow> nat \<Rightarrow> nat \<Rightarrow> mem option" where
  "copy_within buf o' i n =
     (if i < n
      then do { b \<leftarrow> rd buf i; buf \<leftarrow> wr buf (o' + i) b; copy_within buf o' (Suc i) n }
      else Some buf)"
  by pat_completeness auto
termination
  by (relation "measure (\<lambda>(buf, o', i, n). n - i)") auto

declare copy_within.simps [simp del]

definition decoder_finish_at :: "sk_decoder \<Rightarrow> nat \<Rightarrow> nat \<Rightarrow> (int \<times> sk_decoder) option" where
  "decoder_finish_at st o' cap =
     (if st_overflow st \<noteq> 0 \<or> unat (st_count st) > SK_FRAME_INNER
      then Some (SK_DEC_ERR_OFLOW, st)
      else if unat (st_count st) < SK_PAYLOAD_MIN + SK_CRC_LEN
      then Some (SK_DEC_ERR_LEN, st)
      else do {
        let payload_len = unat (st_count st) - SK_CRC_LEN;
        crc \<leftarrow> crc16_ccitt_false (Some (st_buf st)) payload_len;
        hi \<leftarrow> rd (st_buf st) payload_len;
        lo \<leftarrow> rd (st_buf st) (payload_len + 1);
        if crc \<noteq> be16 hi lo then Some (SK_DEC_ERR_CRC, st)
        else if cap < payload_len then Some (SK_DEC_ERR_LEN, st)
        else do {
          buf \<leftarrow> copy_within (st_buf st) o' 0 payload_len;
          Some (int payload_len, st\<lparr>st_buf := buf\<rparr>)
        }
      })"

definition sk_decoder_feed_at ::
  "sk_decoder \<Rightarrow> u8 \<Rightarrow> nat \<Rightarrow> nat \<Rightarrow> (int \<times> sk_decoder) option" where
  "sk_decoder_feed_at st byte o' cap =
     (if byte = SK_FLAG
      then do {
        (result, st) \<leftarrow>
          (if st_in_frame st \<noteq> 0 \<and> st_count st > 0
           then decoder_finish_at st o' cap
           else Some (SK_DEC_MORE, st));
        Some (result, st\<lparr>st_in_frame := 1, st_esc := 0, st_overflow := 0, st_count := 0\<rparr>)
      }
      else if st_in_frame st = 0 then Some (SK_DEC_MORE, st)
      else if byte = SK_ESC then Some (SK_DEC_MORE, st\<lparr>st_esc := 1\<rparr>)
      else do {
        let (b, st) = (if st_esc st \<noteq> 0 then (byte XOR SK_ESC_XOR, st\<lparr>st_esc := 0\<rparr>)
                       else (byte, st));
        if unat (st_count st) < SK_FRAME_INNER
        then do {
          m \<leftarrow> wr (st_buf st) (unat (st_count st)) b;
          Some (SK_DEC_MORE, st\<lparr>st_buf := m, st_count := st_count st + 1\<rparr>)
        }
        else Some (SK_DEC_MORE, st\<lparr>st_overflow := 1\<rparr>)
      })"

text \<open>
  As before, the receiver feeds byte by byte and reads a delivery at once, before the next
  byte is collected over it.
\<close>

primrec feed_all_at ::
  "sk_decoder \<Rightarrow> nat \<Rightarrow> nat \<Rightarrow> u8 list \<Rightarrow> ((int \<times> mem) list \<times> sk_decoder) option" where
  "feed_all_at st o' cap [] = Some ([], st)"
| "feed_all_at st o' cap (b # bs) = do {
     (r, st1) \<leftarrow> sk_decoder_feed_at st b o' cap;
     (rs, st2) \<leftarrow> feed_all_at st1 o' cap bs;
     Some ((if r = SK_DEC_MORE then [] else [(r, take (nat r) (drop o' (st_buf st1)))]) @ rs, st2)
   }"

section \<open>What the copy does\<close>

text \<open>
  The loop runs upwards, so \<open>o'\<close> cells further on it reads what it has just written: the
  first \<open>o'\<close> bytes repeat. At offset 0 every byte is stored where it lies.
\<close>

definition repeated :: "nat \<Rightarrow> 'a list \<Rightarrow> 'a list" where
  "repeated o' p = (if o' = 0 then p else map (\<lambda>i. p ! (i mod o')) [0..<length p])"

definition spread :: "nat \<Rightarrow> nat \<Rightarrow> mem \<Rightarrow> mem" where
  "spread o' i m =
     map (\<lambda>j. if o' \<le> j \<and> j < o' + i then m ! (j mod o') else m ! j) [0..<length m]"

lemma spread_0 [simp]: "spread o' 0 m = m"
  by (rule nth_equalityI) (auto simp: spread_def)

lemma length_spread [simp]: "length (spread o' i m) = length m"
  by (simp add: spread_def)

lemma copy_within_spread:
  assumes "i \<le> n" and "o' + n \<le> length m" and "\<forall>j<n. m ! j \<noteq> None"
  shows "copy_within (spread o' i m) o' i n = Some (spread o' n m)"
  using assms(1)
proof (induction "n - i" arbitrary: i)
  case 0
  then show ?case by (simp add: copy_within.simps)
next
  case (Suc k)
  then have i: "i < n" by simp
  have "i mod o' < n" using i mod_less_eq_dividend [of i o'] by linarith
  then obtain b where b: "m ! (i mod o') = Some b" using assms(3) by blast
  have "rd (spread o' i m) i = Some b"
    using i assms(2) b by (cases "o' = 0"; cases "o' \<le> i") (auto simp: rd_def spread_def)
  moreover have "wr (spread o' i m) (o' + i) b = Some (spread o' (Suc i) m)"
  proof -
    have "(spread o' i m)[o' + i := Some b] = spread o' (Suc i) m"
      using i assms(2) b by (intro nth_equalityI) (auto simp: spread_def nth_list_update)
    then show ?thesis using i assms(2) by (simp add: wr_def)
  qed
  ultimately show ?case
    using Suc.hyps(1) [of "Suc i"] Suc.hyps(2) i by (subst copy_within.simps) simp
qed

lemma copy_within_repeats:
  assumes "take n m = map Some p" and "length p = n" and "o' + n \<le> length m"
  shows "\<exists>m'. copy_within m o' 0 n = Some m' \<and> length m' = length m \<and>
           take n (drop o' m') = map Some (repeated o' p)"
proof -
  have cells: "m ! j = Some (p ! j)" if "j < n" for j
    using arg_cong [OF assms(1), of "\<lambda>xs. xs ! j"] assms(2,3) that by simp
  then have "copy_within m o' 0 n = Some (spread o' n m)"
    using copy_within_spread [of 0 n o' m] assms(3) by simp
  moreover have "take n (drop o' (spread o' n m)) = map Some (repeated o' p)"
  proof (rule nth_equalityI)
    fix i assume "i < length (take n (drop o' (spread o' n m)))"
    then have i: "i < n" by simp
    moreover have "i mod o' < n" using i mod_less_eq_dividend [of i o'] by linarith
    ultimately show "take n (drop o' (spread o' n m)) ! i = map Some (repeated o' p) ! i"
      using assms(2,3) cells by (simp add: spread_def repeated_def)
  qed (use assms in \<open>simp add: repeated_def\<close>)
  ultimately show ?thesis by simp
qed

section \<open>The simulation\<close>

text \<open>Up to the copy the code is the one with a buffer of its own.\<close>

lemma finish_at_finish:
  assumes "decoder_finish st (Some ob) cap = Some (r, ob')"
  shows "if r < 0 then decoder_finish_at st o' cap = Some (r, st)
         else r = int (unat (st_count st) - 2) \<and>
              decoder_finish_at st o' cap =
                map_option (\<lambda>buf. (r, st\<lparr>st_buf := buf\<rparr>))
                  (copy_within (st_buf st) o' 0 (unat (st_count st) - 2))"
proof -
  define n where "n = unat (st_count st)"
  show ?thesis using assms
    unfolding decoder_finish_def decoder_finish_at_def n_def [symmetric]
    by (auto simp: dec_codes Let_def split: if_splits bind_splits)
qed

lemma finish_at_judge:
  assumes rel: "dec_rel st (Collecting xs e)" and cap: "o' + cap \<le> 18"
  shows "\<exists>buf. decoder_finish_at st o' cap = Some (code (judge cap xs), st\<lparr>st_buf := buf\<rparr>) \<and>
           length buf = 18 \<and>
           take (nat (code (judge cap xs))) (drop o' buf) = map Some (repeated o' (bytes (judge cap xs)))"
proof -
  define ob :: mem where "ob = replicate cap None"
  have fin: "decoder_finish st (Some ob) cap = Some (code (judge cap xs), deliver [judge cap xs] (Some ob))"
    using finish_judge [OF rel, of "Some ob" cap] by (simp add: out_ok_def room_of_def ob_def)
  have len: "length (st_buf st) = 18" using rel by (simp add: dec_rel_def)
  have same: "st\<lparr>st_buf := st_buf st\<rparr> = st" by simp
  show ?thesis
  proof (cases "judge cap xs")
    case (Payload p)
    have xs: "p = take (length xs - 2) xs" "length xs \<le> 18"
      using Payload by (auto simp: judge_def split: if_splits)
    have p: "6 \<le> length p" "length p \<le> cap" using judge_payload [OF Payload] by simp_all
    have count: "length p = unat (st_count st) - 2" "take (length xs) (st_buf st) = map Some xs"
      using rel xs by (simp_all add: dec_rel_def min_absorb2)
    have front: "take (length p) (st_buf st) = map Some p"
      using arg_cong [OF count(2), of "take (length p)"] xs by (simp add: take_map min_absorb1)
    obtain buf where "copy_within (st_buf st) o' 0 (length p) = Some buf" "length buf = 18"
        "take (length p) (drop o' buf) = map Some (repeated o' p)"
      using p(2) copy_within_repeats [OF front refl, of o'] len cap by auto
    then show ?thesis using finish_at_finish [OF fin, of o'] Payload count(1) by auto
  qed (use finish_at_finish [OF fin, of o'] len same in
        \<open>auto simp: dec_codes repeated_def intro!: exI [of _ "st_buf st"]\<close>)
qed


lemma feed_at_other:
  assumes "b \<noteq> 0x7E" and "sk_decoder_feed (Some st) b out cap = Some (r, Some st', out')"
  shows "sk_decoder_feed_at st b o' cap = Some (r, st')"
  using assms
  by (auto simp: sk_decoder_feed_def sk_decoder_feed_at_def SK_FLAG_def Let_def split: if_splits bind_splits)

lemma feed_at_sim:
  assumes rel: "dec_rel st a" and cap: "o' + cap \<le> 18" and step: "afeed cap a b = (a', vs)"
  shows "\<exists>st'. sk_decoder_feed_at st b o' cap = Some (result_of vs, st') \<and> dec_rel st' a' \<and>
           (\<forall>v\<in>set vs. take (nat (code v)) (drop o' (st_buf st')) = map Some (repeated o' (bytes v)))"
proof (cases "b = 0x7E")
  case flag: True
  have len: "length (st_buf st) = 18" using rel by (simp add: dec_rel_def)
  show ?thesis
  proof (cases "\<exists>xs e. a = Collecting xs e \<and> xs \<noteq> []")
    case True
    then obtain xs e where a: "a = Collecting xs e" "xs \<noteq> []" by blast
    note rel = rel [unfolded a(1)]
    obtain buf where buf: "decoder_finish_at st o' cap = Some (code (judge cap xs), st\<lparr>st_buf := buf\<rparr>)"
      "length buf = 18"
      "take (nat (code (judge cap xs))) (drop o' buf) = map Some (repeated o' (bytes (judge cap xs)))"
      using finish_at_judge [OF rel cap] by blast
    have "st_in_frame st \<noteq> 0" using rel by (simp add: dec_rel_def)
    then show ?thesis
      using step flag buf count_pos [OF rel] rel_fresh [of "st\<lparr>st_buf := buf\<rparr>"] a
      by (auto simp: sk_decoder_feed_at_def SK_FLAG_def result_of_def)
  next
    case False
    then have none: "st_in_frame st = 0 \<or> \<not> st_count st > 0" "a' = Collecting [] False" "vs = []"
      using rel step flag count_pos [of st "[]"] by (cases a; auto simp: dec_rel_def)+
    then show ?thesis
      using flag rel_fresh [OF len] by (auto simp: sk_decoder_feed_at_def SK_FLAG_def result_of_def)
  qed
next
  case False
  then have "vs = []" using step by (cases a) (auto split: if_splits)
  then show ?thesis
    using feed_sim [of st a "Some (replicate cap None)" cap b a' vs] feed_at_other [OF False] rel step
    by (fastforce simp: out_ok_def room_of_def)
qed

text \<open>What a receiver sees of a verdict when \<open>out\<close> is \<open>o'\<close> bytes into \<open>buf\<close>.\<close>

definition seen_at :: "nat \<Rightarrow> verdict \<Rightarrow> int \<times> mem" where
  "seen_at o' v = (code v, map Some (repeated o' (bytes v)))"

lemma feed_all_at_sim:
  "dec_rel st a \<Longrightarrow> o' + cap \<le> 18 \<Longrightarrow> afeed_all cap a bs = (a', vs) \<Longrightarrow>
   \<exists>st'. feed_all_at st o' cap bs = Some (map (seen_at o') vs, st') \<and> dec_rel st' a'"
proof (induction bs arbitrary: st a vs)
  case (Cons b bs)
  obtain a1 us where step: "afeed cap a b = (a1, us)" by (cases "afeed cap a b")
  obtain ws where rest: "afeed_all cap a1 bs = (a', ws)" and vs: "vs = us @ ws"
    using Cons.prems(3) step by (auto split: prod.splits)
  obtain st1 where st1: "sk_decoder_feed_at st b o' cap = Some (result_of us, st1)" "dec_rel st1 a1"
    "\<forall>v\<in>set us. take (nat (code v)) (drop o' (st_buf st1)) = map Some (repeated o' (bytes v))"
    using feed_at_sim [OF Cons.prems(1,2) step] by blast
  have "(if result_of us = SK_DEC_MORE then []
         else [(result_of us, take (nat (result_of us)) (drop o' (st_buf st1)))]) = map (seen_at o') us"
    using afeed_verdicts [OF step]
  proof
    assume "\<exists>xs. us = [judge cap xs]"
    then obtain xs where us: "us = [judge cap xs]" by blast
    have "code (judge cap xs) \<noteq> 0" using code_range [of cap xs] by auto
    then show ?thesis using st1(3) by (simp add: us result_of_def seen_at_def SK_DEC_MORE_def)
  qed (simp add: result_of_def)
  moreover obtain st' where "feed_all_at st1 o' cap bs = Some (map (seen_at o') ws, st')" "dec_rel st' a'"
    using Cons.IH [OF st1(2) Cons.prems(2) rest] by blast
  ultimately show ?case using st1(1) by (simp add: vs)
qed simp

section \<open>Property\<close>

lemma repeated_map: "repeated o' (map f p) = map f (repeated o' p)"
proof (cases "o' = 0")
  case False
  have "i mod o' < length p" if "i < length p" for i
    using that mod_less_eq_dividend [of i o'] by linarith
  then show ?thesis using False by (simp add: repeated_def)
qed (simp add: repeated_def)

text \<open>At the start of the buffer, or behind the payload, nothing repeats.\<close>

lemma repeated_id: "o' = 0 \<or> length p \<le> o' \<Longrightarrow> repeated o' p = p"
  by (auto simp: repeated_def intro: nth_equalityI)

text \<open>
  C14: delivering into the decoder. A decoder whose \<open>out\<close> points \<open>o'\<close> bytes into its own
  \<open>buf\<close> returns, for every input, the same codes at the same bytes as one with a buffer of its
  own, and no access leaves the array. For \<open>out = st->buf\<close> it delivers the same payloads; at an
  offset in between the upward copy overtakes itself and a payload of more than \<open>o'\<close> bytes
  arrives as its first \<open>o'\<close> bytes over and over.
\<close>

theorem deliver_in_place:
  assumes "length (st_buf st) = 18" and "o' + cap \<le> 18" and "cap \<le> length out"
  shows "\<exists>rs st1 out1 st2.
           feed_all (sk_decoder_init (Some st)) (Some out) cap bs = Some (rs, st1, out1) \<and>
           feed_all_at (the (sk_decoder_init (Some st))) o' cap bs =
             Some (map (\<lambda>(r, m). (r, repeated o' m)) rs, st2)"
proof -
  let ?vs = "stream_verdicts cap bs"
  obtain st0 where st0: "sk_decoder_init (Some st) = Some st0" "dec_rel st0 Hunting"
    using init_hunting [OF assms(1)] by blast
  have "afeed_all cap Hunting bs = (fst (afeed_all cap Hunting bs), ?vs)"
    by (simp add: prod_eq_iff hunting_verdicts)
  from feed_all_at_sim [OF st0(2) assms(2) this]
  have "\<exists>st2. feed_all_at st0 o' cap bs = Some (map (seen_at o') ?vs, st2)" by blast
  moreover have "map (seen_at o') ?vs = map (\<lambda>(r, m). (r, repeated o' m)) (map seen ?vs)"
    by (simp add: seen_at_def seen_def repeated_map)
  ultimately show ?thesis
    using feed_all_stream [OF assms(1), of "Some out" cap bs] assms(3) st0(1)
    by (auto simp: out_ok_def room_of_def)
qed

text \<open>A frame, a broken one and another, delivered to the start of the buffer.\<close>

theorem deliver_in_place_witness:
  "\<exists>rs st1 out1 st2.
     feed_all (sk_decoder_init (Some \<lparr>st_in_frame = 0, st_esc = 0, st_overflow = 0, st_count = 0,
         st_buf = replicate 18 None\<rparr>)) (Some (replicate 16 None)) 16
       (wire_frame [1, 2, 0, 0, 5, 6] @ [9, 9, 0x7E] @ wire_frame (replicate 16 0x7D)) = Some (rs, st1, out1) \<and>
     feed_all_at (the (sk_decoder_init (Some \<lparr>st_in_frame = 0, st_esc = 0, st_overflow = 0, st_count = 0,
         st_buf = replicate 18 None\<rparr>))) 0 16
       (wire_frame [1, 2, 0, 0, 5, 6] @ [9, 9, 0x7E] @ wire_frame (replicate 16 0x7D)) =
     Some (map (\<lambda>(r, m). (r, repeated 0 m)) rs, st2)"
  by (rule deliver_in_place) simp_all

text \<open>One byte into the buffer the first byte is delivered six times.\<close>

lemma deliver_shifted:
  "map_option fst (feed_all_at \<lparr>st_in_frame = 0, st_esc = 0, st_overflow = 0, st_count = 0,
       st_buf = replicate 18 None\<rparr> 1 16 (wire_frame [1, 2, 3, 4, 5, 6])) =
   Some [(6, map Some [1, 1, 1, 1, 1, 1])]"
  by code_simp

end
