(* ===== verification/Fleet_Node.thy ===== *)
theory Fleet_Node
  imports Codec
begin

text \<open>
  The pure part of the fleet simulator, \<open>sim/fleet_node.c\<close>: the synthetic signal and the
  building of frames, and what a receiver makes of a stream of them, cut off anywhere.
\<close>

section \<open>Signal and frames\<close>

definition WOBBLE :: "i32 list" where
  "WOBBLE = [0, 5, 8, 5, 0, -5, -8, -5]"

text \<open>The output objects, in the order of the parameters; they must exist.\<close>

definition fleet_sample :: "u32 \<Rightarrow> u16 \<times> i32 \<times> i32 \<times> i32" where
  "fleet_sample phase =
     (let seq = ucast (phase AND 0xFFFF);
          x_mg = WOBBLE ! unat (phase mod 8);
          y_mg = WOBBLE ! unat ((phase + 2) mod 8);
          z_mg = 1000
      in (seq, x_mg, y_mg, z_mg))"

definition fleet_build_frame ::
  "u16 \<Rightarrow> i32 \<Rightarrow> i32 \<Rightarrow> i32 \<Rightarrow> mem option \<Rightarrow> nat \<Rightarrow> (int \<times> mem option) option" where
  "fleet_build_frame seq x_mg y_mg z_mg out cap = do {
     let payload = replicate SK_PAYLOAD_LEN None;
     (plen, payload) \<leftarrow> sk_payload_pack (Some payload) (length payload) seq x_mg y_mg z_mg;
     if plen < 0 then Some (plen, out)
     else sk_frame_encode payload (nat plen) out cap
   }"

section \<open>What is sent\<close>

definition fleet_payload :: "u32 \<Rightarrow> u8 list" where
  "fleet_payload phase = (case fleet_sample phase of (seq, x, y, z) \<Rightarrow> accel_payload seq x y z)"

lemma sendable_accel [simp]: "sendable (accel_payload seq x y z)"
  by (simp add: sendable_def)

lemma sendable_fleet [simp]: "sendable (fleet_payload phase)"
  by (simp add: fleet_payload_def case_prod_unfold)

lemma fleet_build_frame_pack:
  "fleet_build_frame seq x y z out cap =
   sk_frame_encode (Some (map Some (accel_payload seq x y z) @ [])) (length (accel_payload seq x y z))
     out cap"
  using sk_payload_pack_ok [of 16 "replicate 16 None" seq x y z]
  by (simp add: fleet_build_frame_def filled_def)

lemma fleet_build_frame_fits:
  assumes "length (wire_frame (accel_payload seq x y z)) \<le> cap" and "cap \<le> length m"
  shows "fleet_build_frame seq x y z (Some m) cap =
         Some (int (length (wire_frame (accel_payload seq x y z))),
               Some (filled (wire_frame (accel_payload seq x y z)) m))"
  unfolding fleet_build_frame_pack by (rule sk_frame_encode_fits [OF sendable_accel assms])

lemma accel_frame_max: "length (wire_frame (accel_payload seq x y z)) \<le> 38"
  using length_wire_frame(2) [of "accel_payload seq x y z"] by simp

text \<open>The frames of \<open>n\<close> consecutive phases.\<close>

primrec fleet_payloads :: "nat \<Rightarrow> u32 \<Rightarrow> u8 list list" where
  "fleet_payloads 0 phase = []"
| "fleet_payloads (Suc n) phase = fleet_payload phase # fleet_payloads n (phase + 1)"

definition fleet_stream :: "nat \<Rightarrow> u32 \<Rightarrow> u8 list" where
  "fleet_stream n phase = concat (map wire_frame (fleet_payloads n phase))"

lemma fleet_payloads_sendable: "\<forall>p\<in>set (fleet_payloads n phase). sendable p"
  by (induction n arbitrary: phase) auto

lemma fleet_payloads_snoc:
  "fleet_payloads (Suc n) phase = fleet_payloads n phase @ [fleet_payload (phase + of_nat n)]"
proof (induction n arbitrary: phase)
  case (Suc n)
  have "fleet_payloads (Suc (Suc n)) phase = fleet_payload phase # fleet_payloads (Suc n) (phase + 1)"
    by simp
  also have "fleet_payloads (Suc n) (phase + 1) =
      fleet_payloads n (phase + 1) @ [fleet_payload (phase + of_nat (Suc n))]"
    by (simp only: Suc.IH of_nat_Suc add.assoc)
  finally show ?case by simp
qed simp

lemma fleet_stream_snoc:
  "fleet_stream (Suc n) phase = fleet_stream n phase @ wire_frame (fleet_payload (phase + of_nat n))"
  by (simp add: fleet_stream_def fleet_payloads_snoc del: fleet_payloads.simps)

lemma length_fleet_payloads [simp]: "length (fleet_payloads n phase) = n"
  by (induction n arbitrary: phase) simp_all

lemma fleet_payloads_nth: "i < n \<Longrightarrow> fleet_payloads n phase ! i = fleet_payload (phase + of_nat i)"
proof (induction n arbitrary: phase i)
  case (Suc n)
  then show ?case by (cases i) (simp_all add: add_ac)
qed simp

text \<open>
  What a client gets that leaves during frame \<open>n\<close> of its session: the frames before it, and
  any proper initial piece of it. A receiver makes of this exactly the whole frames.
\<close>

definition cut_stream :: "nat \<Rightarrow> u32 \<Rightarrow> nat \<Rightarrow> u8 list" where
  "cut_stream n phase k = fleet_stream n phase @ take k (wire_frame (fleet_payload (phase + of_nat n)))"

lemma stream_received:
  assumes "hunting_rx cap rx"
  shows "\<exists>rx'. receive cap rx (fleet_stream n phase) = Some (rx', fleet_payloads n phase)"
  using link.dec_frames [OF link.hunting_quiet [OF assms] fleet_payloads_sendable]
  unfolding fleet_stream_def by blast

lemma cut_stream_received:
  assumes rx: "hunting_rx cap rx" and k: "k < length (wire_frame (fleet_payload (phase + of_nat n)))"
  shows "\<exists>rx'. receive cap rx (cut_stream n phase k) = Some (rx', fleet_payloads n phase)"
proof -
  obtain rx1 where rx1: "receive cap rx (fleet_stream n phase) = Some (rx1, fleet_payloads n phase)"
    "quiet_rx cap rx1"
    using link.dec_frames [OF link.hunting_quiet [OF rx] fleet_payloads_sendable]
    unfolding fleet_stream_def by blast
  obtain rx2 where
    "receive cap rx1 (take k (wire_frame (fleet_payload (phase + of_nat n)))) = Some (rx2, [])"
    using cut_frame [OF rx1(2) k] by blast
  with receive_append [OF rx1(1)] show ?thesis unfolding cut_stream_def by fastforce
qed

section \<open>Properties\<close>

lemma mod_8: "unat (w mod 8) = unat w mod 8" for w :: u32
  by (simp add: unat_mod_distrib)

lemma mod_8_add2: "unat (w + 2) mod 8 = (unat w + 2) mod 8" for w :: u32
proof -
  have "unat (w + 2) mod 8 = (unat w + 2) mod 4294967296 mod 8"
    by (simp add: unat_word_ariths)
  then show ?thesis by (simp add: mod_mod_cancel)
qed

lemma wobble_small: "i < 8 \<Longrightarrow> abs (sint (WOBBLE ! i)) \<le> 8"
  by (auto simp: WOBBLE_def less_Suc_eq numeral_eq_Suc)

text \<open>
  The synthetic signal. For every phase, the counter's wrap included, the sequence number
  is the phase modulo 65536, the first axis runs through the wobble table with period 8, the
  second is two steps ahead, both stay within 8 milli-g, the third is 1000.
\<close>

lemma fleet_signal:
  "\<exists>seq x y. fleet_sample phase = (seq, x, y, 1000) \<and>
     unat seq = unat phase mod 65536 \<and>
     x = WOBBLE ! (unat phase mod 8) \<and> y = WOBBLE ! ((unat phase + 2) mod 8) \<and>
     abs (sint x) \<le> 8 \<and> abs (sint y) \<le> 8"
proof -
  have m: "(0xFFFF :: u32) = mask 16" by (simp add: mask_numeral)
  have "unat (ucast (phase AND 0xFFFF) :: u16) = unat phase mod 65536"
    by (simp only: m flip: take_bit_eq_mask)
      (simp add: unsigned_ucast_eq unsigned_take_bit_eq take_bit_eq_mod unat_mod_distrib)
  then show ?thesis
    by (simp add: fleet_sample_def Let_def mod_8 mod_8_add2 wobble_small)
qed

text \<open>
  Frames as the firmware's. For every reading, \<open>fleet_build_frame\<close> writes the same frame
  as the node's own packing and encoding, the reference frame of the acceleration payload,
  whenever it fits, and returns its length; otherwise it returns -1 and has written at most
  an initial piece of it.
\<close>

lemma fleet_frame_exact:
  assumes "cap \<le> length m"
  shows "\<exists>n k. fleet_build_frame seq x y z (Some m) cap =
           Some (n, Some (filled (take k (wire_frame (accel_payload seq x y z))) m)) \<and> k \<le> cap \<and>
         (if length (wire_frame (accel_payload seq x y z)) \<le> cap
          then n = int k \<and> k = length (wire_frame (accel_payload seq x y z)) else n = -1)"
proof (cases "length (wire_frame (accel_payload seq x y z)) \<le> cap")
  case True
  then show ?thesis using fleet_build_frame_fits [OF True assms]
    by (intro exI [of _ "int (length (wire_frame (accel_payload seq x y z)))"]
        exI [of _ "length (wire_frame (accel_payload seq x y z))"]) simp
next
  case False
  then obtain k where "k \<le> cap" "fleet_build_frame seq x y z (Some m) cap =
      Some (-1, Some (filled (take k (wire_frame (accel_payload seq x y z))) m))"
    using sk_frame_encode_full [OF sendable_accel, of cap seq x y z m "[]"] assms
    unfolding fleet_build_frame_pack by auto
  then show ?thesis using False by auto
qed

end
