(* ===== verification/Libc_Numbers.thy ===== *)
theory Libc_Numbers
  imports Sharak_Prelude
begin

text \<open>
  What the programs use of the C library for numbers in text: \<open>strtoul\<close> and \<open>strtol\<close> with
  base 10 and a null end pointer, on a platform with 64-bit \<open>long\<close>, and the conversions
  \<open>%u\<close>, \<open>%d\<close> and \<open>%ld\<close> of \<open>fprintf\<close>.
\<close>

type_synonym u64 = "64 word"
type_synonym i64 = "64 word"

section \<open>Reading\<close>

definition isspace :: "char \<Rightarrow> bool" where
  "isspace c \<longleftrightarrow> (of_char c :: nat) = 32 \<or> 9 \<le> (of_char c :: nat) \<and> (of_char c :: nat) \<le> 13"

definition isdigit :: "char \<Rightarrow> bool" where
  "isdigit c \<longleftrightarrow> 48 \<le> (of_char c :: nat) \<and> (of_char c :: nat) \<le> 57"

definition digits_value :: "string \<Rightarrow> nat" where
  "digits_value ds = foldl (\<lambda>v c. 10 * v + (of_char c - 48)) 0 ds"

text \<open>Leading white space, an optional sign, as many digits as follow (none count as zero).\<close>

definition subject :: "string \<Rightarrow> bool \<times> nat" where
  "subject s =
     (let s = dropWhile isspace s;
          (neg, s) = (case s of
             [] \<Rightarrow> (False, s)
           | c # r \<Rightarrow> if c = CHR ''-'' then (True, r) else if c = CHR ''+'' then (False, r) else (False, s))
      in (neg, digits_value (takeWhile isdigit s)))"

text \<open>\<open>strtoul\<close> negates in the unsigned type; both saturate when the value does not fit.\<close>

definition strtoul :: "string \<Rightarrow> u64" where
  "strtoul s =
     (let (neg, v) = subject s in
      if v > 0xFFFFFFFFFFFFFFFF then 0xFFFFFFFFFFFFFFFF
      else if neg then - of_nat v else of_nat v)"

definition in_i64 :: "int \<Rightarrow> bool" where
  "in_i64 r \<longleftrightarrow> - 0x8000000000000000 \<le> r \<and> r \<le> 0x7FFFFFFFFFFFFFFF"

definition strtol :: "string \<Rightarrow> i64" where
  "strtol s =
     (let (neg, v) = subject s; x = (if neg then - int v else int v) in
      if in_i64 x then word_of_int x
      else if neg then 0x8000000000000000 else 0x7FFFFFFFFFFFFFFF)"

text \<open>\<open>long\<close> division: undefined for a zero divisor and on overflow.\<close>

definition c_div64 :: "i64 \<Rightarrow> i64 \<Rightarrow> i64 option" where
  "c_div64 a b =
     (if sint b \<noteq> 0 \<and> in_i64 (sint a sdiv sint b)
      then Some (word_of_int (sint a sdiv sint b)) else None)"

lemma sint_word_of_int_i64: "in_i64 r \<Longrightarrow> sint (word_of_int r :: i64) = r"
  by (simp add: in_i64_def sint_sbintrunc' signed_take_bit_int_eq_self_iff)

section \<open>Printing\<close>

fun decimal :: "nat \<Rightarrow> string" where
  "decimal n = (if n < 10 then [char_of (48 + n)] else decimal (n div 10) @ [char_of (48 + n mod 10)])"

declare decimal.simps [simp del]

definition decimal_int :: "int \<Rightarrow> string" where
  "decimal_int i = (if i < 0 then ''-'' @ decimal (nat (- i)) else decimal (nat i))"

section \<open>What is printed can be read\<close>

lemma of_char_digit: "d < 10 \<Longrightarrow> (of_char (char_of (48 + d) :: char) :: nat) = 48 + d"
  by simp

lemma decimal_digits: "c \<in> set (decimal n) \<Longrightarrow> isdigit c"
proof (induction n rule: decimal.induct)
  case (1 n)
  have "isdigit (char_of (48 + d))" if "d < 10" for d :: nat
    using that by (simp add: isdigit_def of_char_digit)
  with 1 show ?case by (subst (asm) (2) decimal.simps) (auto split: if_splits)
qed

lemma digits_value_snoc: "digits_value (ds @ [c]) = 10 * digits_value ds + (of_char c - 48)"
  by (simp add: digits_value_def)

lemma digits_value_decimal: "digits_value (decimal n) = n"
proof (induction n rule: decimal.induct)
  case (1 n)
  show ?case
  proof (cases "n < 10")
    case True
    then show ?thesis by (simp add: decimal.simps [of n] digits_value_def of_char_digit)
  next
    case False
    then show ?thesis using 1 by (simp add: decimal.simps [of n] digits_value_snoc of_char_digit)
  qed
qed

lemma decimal_not_Nil: "decimal n \<noteq> []"
  by (simp add: decimal.simps)

lemma isdigit_plain: "isdigit c \<Longrightarrow> \<not> isspace c \<and> c \<noteq> CHR ''-'' \<and> c \<noteq> CHR ''+''"
  by (auto simp: isdigit_def isspace_def)

lemma takeWhile_decimal: "takeWhile isdigit (decimal n) = decimal n"
  using decimal_digits by (simp add: takeWhile_eq_all_conv)

lemma subject_decimal: "subject (decimal n) = (False, n)"
proof -
  obtain c r where cr: "decimal n = c # r" using decimal_not_Nil by (cases "decimal n") auto
  have "isdigit c" using decimal_digits [of c n] cr by simp
  then have "\<not> isspace c \<and> c \<noteq> CHR ''-'' \<and> c \<noteq> CHR ''+''" by (rule isdigit_plain)
  then show ?thesis
    using cr takeWhile_decimal [of n] digits_value_decimal [of n] by (simp add: subject_def)
qed

lemma subject_minus: "subject (CHR ''-'' # decimal n) = (True, n)"
  by (simp add: subject_def isspace_def takeWhile_decimal digits_value_decimal)

lemma strtoul_decimal: "n < 0x10000000000000000 \<Longrightarrow> strtoul (decimal n) = of_nat n"
  by (simp add: strtoul_def subject_decimal)

lemma strtol_decimal_int:
  assumes "in_i64 i" shows "strtol (decimal_int i) = word_of_int i"
  using assms by (simp add: strtol_def decimal_int_def subject_decimal subject_minus)

end
