(* ===== verification/Posix_Host.thy ===== *)
theory Posix_Host
  imports Libc_Numbers
begin

text \<open>
  The operating system under \<open>sim/fleet_main.c\<close>. It is not part of the repository: a host is
  an arbitrary function from a system call and a state to a result, the value of \<open>errno\<close>
  after the call and the next state. Every call a program makes is recorded, with its
  result, in a trace; what a program does to the outside is what its trace says.
\<close>

section \<open>System calls\<close>

text \<open>\<open>struct sockaddr_in\<close>; port and address are in network byte order.\<close>

record sockaddr_in =
  sin_family :: u16
  sin_port :: u16
  sin_addr :: u32
  sin_zero :: u64

datatype syscall =
    Ignore_sigpipe
  | Socket_stream
  | Reuse_addr int int
  | Bind int sockaddr_in
  | Listen int int
  | Accept int
  | Write int mem nat
  | Usleep u32
  | Close int
  | Perror string
  | Eprint string

text \<open>The descriptor a call works on.\<close>

fun fd_of :: "syscall \<Rightarrow> int option" where
  "fd_of (Reuse_addr fd v) = Some fd"
| "fd_of (Bind fd a) = Some fd"
| "fd_of (Listen fd n) = Some fd"
| "fd_of (Accept fd) = Some fd"
| "fd_of (Write fd m n) = Some fd"
| "fd_of (Close fd) = Some fd"
| "fd_of _ = None"

text \<open>A call, its result and \<open>errno\<close> after it; a host; a host's state with the trace so far.\<close>

type_synonym event = "syscall \<times> int \<times> int"
type_synonym 's host = "syscall \<Rightarrow> 's \<Rightarrow> int \<times> int \<times> 's"

record 's world =
  state :: 's
  trace :: "event list"

definition sys :: "'s host \<Rightarrow> syscall \<Rightarrow> 's world \<Rightarrow> int \<times> 's world" where
  "sys h c w =
     (let (r, e, s) = h c (state w) in (r, \<lparr>state = s, trace = trace w @ [(c, r, e)]\<rparr>))"

text \<open>A call whose result the program ignores; the value of \<open>errno\<close>.\<close>

definition tell :: "'s host \<Rightarrow> syscall \<Rightarrow> 's world \<Rightarrow> 's world" where
  "tell h c w = snd (sys h c w)"

definition errno :: "'s world \<Rightarrow> int" where
  "errno w = (if trace w = [] then 0 else snd (snd (last (trace w))))"

definition EINTR :: int where "EINTR = 4"

text \<open>Network byte order on a little-endian machine.\<close>

definition htons :: "u16 \<Rightarrow> u16" where
  "htons x = join16 (byte_at x 8) (byte_at x 0)"

definition htonl :: "u32 \<Rightarrow> u32" where
  "htonl x = join32 (byte_at x 24) (byte_at x 16) (byte_at x 8) (byte_at x 0)"

definition INADDR_LOOPBACK :: u32 where "INADDR_LOOPBACK = 0x7F000001"

definition AF_INET :: u16 where "AF_INET = 2"

text \<open>
  \<open>write(2)\<close> takes at most what it is offered; nothing else is ever assumed of a host, and
  only where the text of a theorem says so.
\<close>

definition write_ok :: "'s host \<Rightarrow> bool" where
  "write_ok h \<longleftrightarrow> (\<forall>fd m n s. fst (h (Write fd m n) s) \<le> int n)"

section \<open>What a trace says\<close>

text \<open>The descriptors that are open after a trace, the latest first.\<close>

fun fd_step :: "int list \<Rightarrow> event \<Rightarrow> int list" where
  "fd_step F (Socket_stream, r, e) = (if 0 \<le> r then r # F else F)"
| "fd_step F (Accept fd, r, e) = (if 0 \<le> r then r # F else F)"
| "fd_step F (Close fd, r, e) = remove1 fd F"
| "fd_step F (c, r, e) = F"

definition open_fds :: "event list \<Rightarrow> int list" where
  "open_fds tr = foldl fd_step [] tr"

text \<open>
  A call is in order when it works on an open descriptor; the next client is accepted only
  when the listening socket is all that is open, and data is written only to the one
  connected client.
\<close>

fun in_order :: "int list \<Rightarrow> syscall \<Rightarrow> bool" where
  "in_order F (Accept fd) \<longleftrightarrow> F = [fd]"
| "in_order F (Write fd m n) \<longleftrightarrow> (\<exists>srv. F = [fd, srv])"
| "in_order F c \<longleftrightarrow> (case fd_of c of None \<Rightarrow> True | Some fd \<Rightarrow> fd \<in> set F)"

fun orderly :: "int list \<Rightarrow> event list \<Rightarrow> bool" where
  "orderly F [] \<longleftrightarrow> True"
| "orderly F (ev # tr) \<longleftrightarrow> in_order F (fst ev) \<and> orderly (fd_step F ev) tr"

text \<open>What each client has been sent, the clients in the order of their acceptance.\<close>

fun took :: "u8 list list \<Rightarrow> event \<Rightarrow> u8 list list" where
  "took cs (Accept fd, r, e) = (if 0 \<le> r then cs @ [[]] else cs)"
| "took cs (Write fd m n, r, e) =
     (if 0 < r \<and> cs \<noteq> [] then butlast cs @ [last cs @ map the (take (nat r) m)] else cs)"
| "took cs (c, r, e) = cs"

definition clients :: "event list \<Rightarrow> u8 list list" where
  "clients tr = foldl took [] tr"

text \<open>
  The data written, cut at every pause and every time a client is accepted: each piece with
  the pause that followed it, if it was a pause that ended it. The first component holds the
  pieces that have ended, the second one what was written since.
\<close>

fun burst_step :: "(u8 list \<times> u32 option) list \<times> u8 list \<Rightarrow> event \<Rightarrow> (u8 list \<times> u32 option) list \<times> u8 list"
where
  "burst_step (ps, b) (Usleep us, r, e) = (ps @ [(b, Some us)], [])"
| "burst_step (ps, b) (Accept fd, r, e) = (if 0 \<le> r then (ps @ [(b, None)], []) else (ps, b))"
| "burst_step (ps, b) (Write fd m n, r, e) = (ps, if 0 < r then b @ map the (take (nat r) m) else b)"
| "burst_step (ps, b) (c, r, e) = (ps, b)"

definition pace :: "event list \<Rightarrow> (u8 list \<times> u32 option) list \<times> u8 list" where
  "pace tr = foldl burst_step ([], []) tr"

definition bursts :: "event list \<Rightarrow> (u8 list \<times> u32 option) list" where
  "bursts tr = (let (ps, b) = pace tr in ps @ [(b, None)])"

text \<open>Events that are all calls of \<open>write\<close>, and the data that was taken.\<close>

fun is_write :: "event \<Rightarrow> bool" where
  "is_write (Write fd m n, r, e) \<longleftrightarrow> True"
| "is_write (c, r, e) \<longleftrightarrow> False"

fun data_of :: "event \<Rightarrow> u8 list" where
  "data_of (Write fd m n, r, e) = (if 0 < r then map the (take (nat r) m) else [])"
| "data_of (c, r, e) = []"

section \<open>Traces grow\<close>

lemma sys_trace: "sys h c w = (r, w') \<Longrightarrow> trace w' = trace w @ [(c, r, errno w')]"
  by (auto simp: sys_def errno_def split: prod.splits)

lemma tell_trace: "trace (tell h c w) = trace w @ [(c, fst (sys h c w), errno (tell h c w))]"
  using sys_trace [of h c w] by (cases "sys h c w") (simp add: tell_def)

lemma open_fds_Nil [simp]: "open_fds [] = []"
  by (simp add: open_fds_def)

lemma open_fds_snoc [simp]: "open_fds (tr @ [ev]) = fd_step (open_fds tr) ev"
  by (simp add: open_fds_def)

lemma clients_Nil [simp]: "clients [] = []"
  by (simp add: clients_def)

lemma clients_snoc [simp]: "clients (tr @ [ev]) = took (clients tr) ev"
  by (simp add: clients_def)

text \<open>Only accepting and writing change what the clients have been sent.\<close>

lemma clients_tell:
  "clients (trace (tell h c w)) = took (clients (trace w)) (c, fst (sys h c w), errno (tell h c w))"
  by (simp add: tell_trace)

lemma clients_note [simp]:
  "clients (trace (tell h (Eprint s) w)) = clients (trace w)"
  "clients (trace (tell h (Perror s) w)) = clients (trace w)"
  "clients (trace (tell h (Usleep us) w)) = clients (trace w)"
  "clients (trace (tell h (Close fd) w)) = clients (trace w)"
  "clients (trace (tell h Ignore_sigpipe w)) = clients (trace w)"
  "clients (trace (tell h (Reuse_addr fd v) w)) = clients (trace w)"
  by (simp_all add: clients_tell)

lemma orderly_append:
  "orderly F (tr @ tr') \<longleftrightarrow> orderly F tr \<and> orderly (foldl fd_step F tr) tr'"
  by (induction tr arbitrary: F) auto

lemma orderly_snoc [simp]:
  "orderly [] (tr @ [ev]) \<longleftrightarrow> orderly [] tr \<and> in_order (open_fds tr) (fst ev)"
  by (simp add: orderly_append open_fds_def)

lemma open_fds_append: "open_fds (tr @ evs) = foldl fd_step (open_fds tr) evs"
  by (simp add: open_fds_def)

lemma clients_append: "clients (tr @ evs) = foldl took (clients tr) evs"
  by (simp add: clients_def)

lemma pace_snoc [simp]: "pace (tr @ [ev]) = burst_step (pace tr) ev"
  by (simp add: pace_def)

lemma pace_append: "pace (tr @ evs) = foldl burst_step (pace tr) evs"
  by (simp add: pace_def)

lemma pace_note [simp]:
  "pace (trace (tell h (Eprint s) w)) = pace (trace w)"
  "pace (trace (tell h (Perror s) w)) = pace (trace w)"
  "pace (trace (tell h (Close fd) w)) = pace (trace w)"
  "pace (trace (tell h Ignore_sigpipe w)) = pace (trace w)"
  by (cases "pace (trace w)"; simp add: tell_trace)+

text \<open>Writing adds to the client that is served and to what was written since the last pause.\<close>

lemma took_writes:
  "list_all is_write evs \<Longrightarrow> foldl took (cs @ [b]) evs = cs @ [b @ concat (map data_of evs)]"
proof (induction evs arbitrary: b)
  case (Cons ev evs)
  then show ?case by (cases ev rule: is_write.cases) auto
qed simp

lemma pace_writes:
  "list_all is_write evs \<Longrightarrow> foldl burst_step (ps, b) evs = (ps, b @ concat (map data_of evs))"
proof (induction evs arbitrary: b)
  case (Cons ev evs)
  then show ?case by (cases ev rule: is_write.cases) auto
qed simp

lemma htons_bytes: "le16 (htons p) = [byte_at p 8, byte_at p 0]"
  by (simp add: le16_def htons_def le_bytes)

end
