(* ===== verification/Fleet_Server.thy ===== *)
theory Fleet_Server
  imports Fleet_Node Posix_Host
begin

text \<open>
  The fleet simulator's program, \<open>sim/fleet_main.c\<close>: its command line, the listening socket,
  the loop that accepts clients and the loop that streams frames to one. The endless loops
  are run for a number of turns on an arbitrary host; the theorems hold for every number.
\<close>

section \<open>The listening socket\<close>

definition zero_sockaddr :: sockaddr_in where
  "zero_sockaddr = \<lparr>sin_family = 0, sin_port = 0, sin_addr = 0, sin_zero = 0\<rparr>"

definition make_server :: "'s host \<Rightarrow> u16 \<Rightarrow> 's world \<Rightarrow> int \<times> 's world" where
  "make_server h port w =
     (let (fd, w) = sys h Socket_stream w in
      if fd < 0 then (-1, tell h (Perror ''socket'') w)
      else
        let w = tell h (Reuse_addr fd 1) w;
            addr = zero_sockaddr\<lparr>sin_family := AF_INET, sin_addr := htonl INADDR_LOOPBACK,
              sin_port := htons port\<rparr>;
            (r, w) = sys h (Bind fd addr) w in
        if r < 0 then
          let w = tell h (Perror ''bind'') w; w = tell h (Close fd) w in (-1, w)
        else
          let (r, w) = sys h (Listen fd 1) w in
          if r < 0 then
            let w = tell h (Perror ''listen'') w; w = tell h (Close fd) w in (-1, w)
          else (fd, w))"

section \<open>The command line\<close>

definition arg :: "string list \<Rightarrow> nat \<Rightarrow> string option" where
  "arg argv i = (if i < length argv then Some (argv ! i) else None)"

text \<open>
  The loop over the arguments from \<open>i\<close> on; \<open>None\<close> inside the result is the usage exit.
\<close>

function parse_args :: "string list \<Rightarrow> nat \<Rightarrow> u16 \<Rightarrow> i64 \<Rightarrow> (u16 \<times> i64) option option" where
  "parse_args argv i port rate =
     (if i < length argv
      then do {
        a \<leftarrow> arg argv i;
        if a = ''--port'' \<and> i + 1 < length argv
        then do { v \<leftarrow> arg argv (i + 1); parse_args argv (i + 2) (ucast (strtoul v)) rate }
        else if a = ''--rate'' \<and> i + 1 < length argv
        then do {
          v \<leftarrow> arg argv (i + 1);
          let rate = strtol v;
          parse_args argv (i + 2) port (if sint rate < 1 then 1 else rate)
        }
        else Some None
      }
      else Some (Some (port, rate)))"
  by pat_completeness auto
termination
  by (relation "measure (\<lambda>(argv, i, port, rate). length argv - i)") auto

declare parse_args.simps [simp del]

section \<open>Streaming to one client\<close>

text \<open>The loop that writes a whole frame; \<open>off\<close> at its end, \<open>-1\<close> when the client is gone.\<close>

function send_loop :: "'s host \<Rightarrow> int \<Rightarrow> mem \<Rightarrow> int \<Rightarrow> int \<Rightarrow> 's world \<Rightarrow> int \<times> 's world" where
  "send_loop h cli frame off n w =
     (if off < n
      then let (r, w) = sys h (Write cli (drop (nat off) frame) (nat (n - off))) w in
           if r \<le> 0 then (-1, w) else send_loop h cli frame (off + r) n w
      else (off, w))"
  by pat_completeness auto
termination
  by (relation "measure (\<lambda>(h, cli, frame, off, n, w). nat (n - off))") auto

declare send_loop.simps [simp del]

definition lf :: string where "lf = [CHR 0x0A]"

text \<open>One turn of the streaming loop: whether it goes on, the next phase, the world.\<close>

definition stream_turn ::
  "'s host \<Rightarrow> int \<Rightarrow> i64 \<Rightarrow> u32 \<Rightarrow> 's world \<Rightarrow> (bool \<times> u32 \<times> 's world) option" where
  "stream_turn h cli period_us phase w = do {
     let (seq, x, y, z) = fleet_sample phase;
     let phase = phase + 1;
     (n, frame) \<leftarrow> fleet_build_frame seq x y z (Some (replicate SK_FRAME_MAX None)) SK_FRAME_MAX;
     if n < 0
     then Some (False, phase, tell h (Eprint (''encode error '' @ decimal_int n @ lf)) w)
     else do {
       frame \<leftarrow> frame;
       let (off, w) = send_loop h cli frame 0 n w;
       if off < 0 then Some (False, phase, w)
       else Some (True, phase, tell h (Usleep (ucast period_us)) w)
     }
   }"

section \<open>The program\<close>

text \<open>Where \<open>main\<close> stands: at the head of one of its two loops, or it has returned.\<close>

datatype at = Accepting | Streaming int | Exited int

definition connected :: string where
  "connected = ''fleet_node: client connected'' @ lf"

definition disconnected :: string where
  "disconnected = ''fleet_node: client disconnected'' @ lf"

definition server_turn ::
  "'s host \<Rightarrow> int \<Rightarrow> i64 \<Rightarrow> at \<times> u32 \<times> 's world \<Rightarrow> (at \<times> u32 \<times> 's world) option" where
  "server_turn h srv period_us st =
     (case st of
        (Accepting, phase, w) \<Rightarrow>
          (let (cli, w) = sys h (Accept srv) w in
           if cli < 0 then
             if errno w = EINTR then Some (Accepting, phase, w)
             else Some (Exited 0, phase, tell h (Close srv) (tell h (Perror ''accept'') w))
           else Some (Streaming cli, phase, tell h (Eprint connected) w))
      | (Streaming cli, phase, w) \<Rightarrow> do {
          (go, phase, w) \<leftarrow> stream_turn h cli period_us phase w;
          if go then Some (Streaming cli, phase, w)
          else Some (Accepting, phase,
                 tell h (Eprint disconnected) (tell h (Close cli) w))
        }
      | (Exited rc, phase, w) \<Rightarrow> Some (Exited rc, phase, w))"

primrec server_run ::
  "nat \<Rightarrow> 's host \<Rightarrow> int \<Rightarrow> i64 \<Rightarrow> at \<times> u32 \<times> 's world \<Rightarrow> (at \<times> u32 \<times> 's world) option" where
  "server_run 0 h srv period_us st = Some st"
| "server_run (Suc n) h srv period_us st = do {
     st \<leftarrow> server_run n h srv period_us st;
     server_turn h srv period_us st
   }"

definition usage :: "string \<Rightarrow> string" where
  "usage prog = ''usage: '' @ prog @ '' [--port N] [--rate HZ]'' @ lf"

definition serving :: "u16 \<Rightarrow> i64 \<Rightarrow> string" where
  "serving port rate =
     ''fleet_node: serving on 127.0.0.1:'' @ decimal (unat port) @ '' at '' @
     decimal_int (sint rate) @ '' Hz'' @ lf"

definition fleet_main :: "nat \<Rightarrow> 's host \<Rightarrow> string list \<Rightarrow> 's world \<Rightarrow> (at \<times> u32 \<times> 's world) option" where
  "fleet_main turns h argv w = do {
     opts \<leftarrow> parse_args argv 1 5555 100;
     case opts of
       None \<Rightarrow> do { prog \<leftarrow> arg argv 0; Some (Exited 2, 0, tell h (Eprint (usage prog)) w) }
     | Some (port, rate) \<Rightarrow> do {
         let w = tell h Ignore_sigpipe w;
         let (srv, w) = make_server h port w;
         if srv < 0 then Some (Exited 1, 0, w)
         else do {
           let w = tell h (Eprint (serving port rate)) w;
           period_us \<leftarrow> c_div64 1000000 rate;
           server_run turns h srv period_us (Accepting, 0, w)
         }
       }
   }"

section \<open>Descriptors\<close>

text \<open>What is open where \<open>main\<close> stands, and that all calls so far were in order.\<close>

fun fds_at :: "int \<Rightarrow> at \<Rightarrow> int list" where
  "fds_at srv Accepting = [srv]"
| "fds_at srv (Streaming cli) = [cli, srv]"
| "fds_at srv (Exited rc) = []"

definition tidy :: "int list \<Rightarrow> 's world \<Rightarrow> bool" where
  "tidy F w \<longleftrightarrow> orderly [] (trace w) \<and> open_fds (trace w) = F"

lemma tidy_sys:
  "tidy F w \<Longrightarrow> in_order F c \<Longrightarrow> sys h c w = (r, w') \<Longrightarrow> fd_step F (c, r, errno w') = F' \<Longrightarrow> tidy F' w'"
  using sys_trace [of h c w] by (simp add: tidy_def)

lemma tidy_tell:
  "tidy F w \<Longrightarrow> in_order F c \<Longrightarrow> (\<And>r e. fd_step F (c, r, e) = F') \<Longrightarrow> tidy F' (tell h c w)"
  by (simp add: tidy_def tell_trace)

text \<open>What is printed and slept leaves the descriptors as they are.\<close>

lemma tidy_note [intro]:
  "tidy F w \<Longrightarrow> tidy F (tell h (Eprint s) w)" "tidy F w \<Longrightarrow> tidy F (tell h (Perror s) w)"
  "tidy F w \<Longrightarrow> tidy F (tell h (Usleep u) w)" "tidy F w \<Longrightarrow> tidy F (tell h Ignore_sigpipe w)"
  by (erule tidy_tell; simp)+

lemma tidy_send_loop:
  "tidy [cli, srv] w \<Longrightarrow> tidy [cli, srv] (snd (send_loop h cli frame off n w))"
proof (induction h cli frame off n w rule: send_loop.induct)
  case (1 h cli frame off n w)
  obtain r w1 where w1: "sys h (Write cli (drop (nat off) frame) (nat (n - off))) w = (r, w1)"
    by (rule prod.exhaust)
  have "tidy [cli, srv] w1" by (rule tidy_sys [OF "1.prems" _ w1]) simp_all
  then show ?case
    using "1.IH" [OF _ w1 [symmetric]] "1.prems" w1 by (subst send_loop.simps) simp
qed

lemma build_fits:
  "fleet_sample phase = (seq, x, y, z) \<Longrightarrow>
   fleet_build_frame seq x y z (Some (replicate 38 None)) 38 =
     Some (int (length (wire_frame (fleet_payload phase))),
           Some (filled (wire_frame (fleet_payload phase)) (replicate 38 None)))"
  using fleet_build_frame_fits [OF accel_frame_max, of "replicate 38 None" seq x y z]
  by (simp add: fleet_payload_def)

lemma stream_turn_run:
  "stream_turn h cli period_us phase w =
     (let f = wire_frame (fleet_payload phase);
          (off, w) = send_loop h cli (filled f (replicate 38 None)) 0 (int (length f)) w
      in Some (if off < 0 then (False, phase + 1, w)
               else (True, phase + 1, tell h (Usleep (ucast period_us)) w)))"
proof -
  obtain seq x y z where sample: "fleet_sample phase = (seq, x, y, z)"
    by (cases "fleet_sample phase")
  show ?thesis
    using build_fits [OF sample]
    by (simp add: stream_turn_def sample Let_def case_prod_unfold)
qed

lemma server_turn_tidy:
  assumes "tidy (fds_at srv a) w"
  shows "\<exists>a' phase' w'. server_turn h srv us (a, phase, w) = Some (a', phase', w') \<and>
           tidy (fds_at srv a') w'"
proof (cases a)
  case Accepting
  obtain cli w1 where w1: "sys h (Accept srv) w = (cli, w1)" by (rule prod.exhaust)
  have t: "tidy (if 0 \<le> cli then [cli, srv] else [srv]) w1"
    by (rule tidy_sys [OF assms _ w1]) (simp_all add: Accepting)
  have "tidy [] (tell h (Close srv) (tell h (Perror s) w1))" if "cli < 0" for s
  proof -
    have "tidy [srv] (tell h (Perror s) w1)" using t that by (intro tidy_note) simp
    then show ?thesis by (rule tidy_tell) simp_all
  qed
  then show ?thesis using t w1 by (auto simp: server_turn_def Accepting Let_def)
next
  case (Streaming cli)
  define f where "f = wire_frame (fleet_payload phase)"
  obtain off w1 where w1: "send_loop h cli (filled f (replicate 38 None)) 0 (int (length f)) w = (off, w1)"
    by (rule prod.exhaust)
  have t: "tidy [cli, srv] w1"
    using tidy_send_loop [of cli srv w h "filled f (replicate 38 None)" 0 "int (length f)"] assms w1
    by (simp add: Streaming)
  then have "tidy [srv] (tell h (Close cli) w1)" by (rule tidy_tell) simp_all
  then show ?thesis using t w1
    by (auto simp: server_turn_def Streaming stream_turn_run f_def [symmetric] Let_def)
next
  case (Exited rc)
  then show ?thesis using assms by (simp add: server_turn_def)
qed

lemma server_run_tidy:
  assumes "tidy [srv] w"
  shows "\<exists>a phase w'. server_run n h srv us (Accepting, 0, w) = Some (a, phase, w') \<and>
           tidy (fds_at srv a) w'"
proof (induction n)
  case 0
  then show ?case using assms by simp
next
  case (Suc n)
  then show ?case using server_turn_tidy by fastforce
qed

section \<open>Sessions\<close>

text \<open>
  The abstract server: clients come and leave one after the other. \<open>served p cs\<close> says that
  \<open>cs\<close> is what the clients that have left so far have been sent, and that the next client
  starts at phase \<open>p\<close>. A client that leaves has been sent some whole frames of consecutive
  phases and a proper initial piece of one more, whose phase is used up.
\<close>

inductive served :: "nat \<Rightarrow> u8 list list \<Rightarrow> bool" where
  nobody: "served 0 []"
| left: "served p cs \<Longrightarrow> k < length (wire_frame (fleet_payload (of_nat p + of_nat m))) \<Longrightarrow>
         served (p + m + 1) (cs @ [cut_stream m (of_nat p) k])"

text \<open>The concrete server follows the abstract one.\<close>

fun session :: "at \<Rightarrow> u32 \<Rightarrow> u8 list list \<Rightarrow> bool" where
  "session (Streaming cli) phase cl \<longleftrightarrow>
     (\<exists>p cs m. served p cs \<and> cl = cs @ [fleet_stream m (of_nat p)] \<and> phase = of_nat p + of_nat m)"
| "session a phase cl \<longleftrightarrow> (\<exists>p. served p cl \<and> phase = of_nat p)"

lemma write_takes:
  assumes "write_ok h" and "sys h (Write cli (map Some p @ r) (length p)) w = (res, w')"
  shows "res \<le> int (length p) \<and>
         (\<exists>ev. trace w' = trace w @ [ev] \<and> is_write ev \<and>
            data_of ev = (if res \<le> 0 then [] else take (nat res) p))"
proof -
  have "fst (h (Write cli (map Some p @ r) (length p)) (state w)) = res"
    using assms(2) by (auto simp: sys_def split: prod.splits)
  then have res: "res \<le> int (length p)" using assms(1) unfolding write_ok_def by blast
  then have "take (nat res) (map Some p @ r) = map Some (take (nat res) p)" by (simp add: take_map)
  then show ?thesis using res sys_trace [OF assms(2)] by (simp add: comp_def)
qed

lemma send_loop_sends:
  assumes h: "write_ok h" and "i \<le> length p"
  shows "\<exists>off w' k evs. send_loop h cli (map Some p @ r) (int i) (int (length p)) w = (off, w') \<and>
           trace w' = trace w @ evs \<and> list_all is_write evs \<and>
           concat (map data_of evs) = take k (drop i p) \<and>
           (off = int (length p) \<and> k = length p - i \<or> off = -1 \<and> k < length p - i)"
  using assms(2)
proof (induction "length p - i" arbitrary: i w rule: less_induct)
  case less
  show ?case
  proof (cases "i < length p")
    case False
    then show ?thesis using less.prems
      by (intro exI [of _ "int i"] exI [of _ w] exI [of _ 0] exI [of _ "[]"]) (simp add: send_loop.simps)
  next
    case True
    obtain res w1 where w1: "sys h (Write cli (map Some (drop i p) @ r) (length (drop i p))) w = (res, w1)"
      by fastforce
    obtain ev where taken: "res \<le> int (length (drop i p))" "trace w1 = trace w @ [ev]" "is_write ev"
      "data_of ev = (if res \<le> 0 then [] else take (nat res) (drop i p))"
      using write_takes [OF h w1] by blast
    have unfold: "send_loop h cli (map Some p @ r) (int i) (int (length p)) w =
        (if res \<le> 0 then (-1, w1)
         else send_loop h cli (map Some p @ r) (int i + res) (int (length p)) w1)"
      using True w1 by (subst send_loop.simps) (simp add: drop_map nat_diff_distrib')
    show ?thesis
    proof (cases "res \<le> 0")
      case True
      then show ?thesis using taken unfold \<open>i < length p\<close>
        by (intro exI [of _ "-1"] exI [of _ w1] exI [of _ 0] exI [of _ "[ev]"]) simp
    next
      case False
      define j where "j = i + nat res"
      have j: "int i + res = int j" "j \<le> length p" "length p - j < length p - i"
        using False taken(1) True by (auto simp: j_def)
      obtain off w' k evs where rest:
        "send_loop h cli (map Some p @ r) (int j) (int (length p)) w1 = (off, w')"
        "trace w' = trace w1 @ evs" "list_all is_write evs" "concat (map data_of evs) = take k (drop j p)"
        "off = int (length p) \<and> k = length p - j \<or> off = -1 \<and> k < length p - j"
        using less.hyps [OF j(3,2)] by blast
      have "drop j p = drop (nat res) (drop i p)" by (simp add: j_def add.commute)
      then have data: "concat (map data_of (ev # evs)) = take (nat res + k) (drop i p)"
        using rest(4) taken(4) False by (simp add: take_add)
      have "off = int (length p) \<and> nat res + k = length p - i \<or>
          off = -1 \<and> nat res + k < length p - i"
        using rest(5) j(2) unfolding j_def by linarith
      moreover have "trace w' = trace w @ (ev # evs)" "list_all is_write (ev # evs)"
        using rest(2,3) taken(2,3) by simp_all
      ultimately show ?thesis using unfold False j(1) rest(1) data by metis
    qed
  qed
qed

lemma stream_turn_sends:
  assumes h: "write_ok h"
  shows "\<exists>go w' k evs r e. stream_turn h cli us phase w = Some (go, phase + 1, w') \<and>
           trace w' = trace w @ evs @ (if go then [(Usleep (ucast us), r, e)] else []) \<and>
           list_all is_write evs \<and>
           concat (map data_of evs) = take k (wire_frame (fleet_payload phase)) \<and>
           (if go then k = length (wire_frame (fleet_payload phase))
            else k < length (wire_frame (fleet_payload phase)))"
proof -
  define f where "f = wire_frame (fleet_payload phase)"
  have buf: "filled f (replicate 38 None) = map Some f @ replicate (38 - length f) None"
    by (simp add: filled_def)
  obtain off w1 k evs where loop:
    "send_loop h cli (filled f (replicate 38 None)) 0 (int (length f)) w = (off, w1)"
    "trace w1 = trace w @ evs" "list_all is_write evs" "concat (map data_of evs) = take k f"
    "off = int (length f) \<and> k = length f \<or> off = -1 \<and> k < length f"
    using send_loop_sends [OF h, of 0 f cli "replicate (38 - length f) None" w]
    unfolding buf by auto
  have run: "stream_turn h cli us phase w =
      Some (if off < 0 then (False, phase + 1, w1) else (True, phase + 1, tell h (Usleep (ucast us)) w1))"
    using loop(1) by (simp add: stream_turn_run f_def [symmetric])
  show ?thesis unfolding f_def [symmetric]
  proof (cases "off < 0")
    case True
    with loop(2-) show "\<exists>go w' k evs r e. stream_turn h cli us phase w = Some (go, phase + 1, w') \<and>
        trace w' = trace w @ evs @ (if go then [(Usleep (ucast us), r, e)] else []) \<and>
        list_all is_write evs \<and> concat (map data_of evs) = take k f \<and>
        (if go then k = length f else k < length f)"
      unfolding run by (intro exI [of _ False] exI [of _ w1] exI [of _ k] exI [of _ evs]) auto
  next
    case False
    with loop(2-) show "\<exists>go w' k evs r e. stream_turn h cli us phase w = Some (go, phase + 1, w') \<and>
        trace w' = trace w @ evs @ (if go then [(Usleep (ucast us), r, e)] else []) \<and>
        list_all is_write evs \<and> concat (map data_of evs) = take k f \<and>
        (if go then k = length f else k < length f)"
      unfolding run by (intro exI [of _ True] exI [of _ "tell h (Usleep (ucast us)) w1"] exI [of _ k]
        exI [of _ evs]) (simp add: tell_trace)
  qed
qed

lemma stream_turn_clients:
  assumes h: "write_ok h" and "clients (trace w) = cs @ [b]"
  shows "\<exists>go w' k. stream_turn h cli us phase w = Some (go, phase + 1, w') \<and>
           clients (trace w') = cs @ [b @ take k (wire_frame (fleet_payload phase))] \<and>
           (if go then k = length (wire_frame (fleet_payload phase))
            else k < length (wire_frame (fleet_payload phase)))"
proof -
  obtain go w' k evs r e where st: "stream_turn h cli us phase w = Some (go, phase + 1, w')"
    "trace w' = trace w @ evs @ (if go then [(Usleep (ucast us), r, e)] else [])"
    "list_all is_write evs" "concat (map data_of evs) = take k (wire_frame (fleet_payload phase))"
    "if go then k = length (wire_frame (fleet_payload phase))
     else k < length (wire_frame (fleet_payload phase))"
    using stream_turn_sends [OF h, of cli us phase w] by (elim exE conjE) (rule that)
  have "clients (trace w') = cs @ [b @ take k (wire_frame (fleet_payload phase))]"
    using took_writes [OF st(3)] by (simp add: st(2,4) clients_append assms(2))
  then show ?thesis using st(1,5) by blast
qed

lemma session_turn:
  assumes h: "write_ok h" and s: "session a phase (clients (trace w))"
    and turn: "server_turn h srv us (a, phase, w) = Some (a', phase', w')"
  shows "session a' phase' (clients (trace w'))"
proof (cases a)
  case Accepting
  obtain cli w1 where w1: "sys h (Accept srv) w = (cli, w1)" by fastforce
  obtain p where p: "served p (clients (trace w))" "phase = of_nat p" using s Accepting by auto
  have cl: "clients (trace w1) = (if 0 \<le> cli then clients (trace w) @ [[]] else clients (trace w))"
    using sys_trace [OF w1] by simp
  have fresh: "session (Streaming cli) phase (clients (trace w) @ [[]])"
    unfolding session.simps
    by (intro exI [of _ p] exI [of _ "clients (trace w)"] exI [of _ 0]) (simp add: p fleet_stream_def)
  show ?thesis
  proof (cases "cli < 0")
    case True
    with turn w1 cl p show ?thesis
      by (auto simp: server_turn_def Accepting split: if_splits)
  next
    case False
    then have "a' = Streaming cli" "phase' = phase" "w' = tell h (Eprint connected) w1"
      using turn w1 by (auto simp: server_turn_def Accepting)
    with fresh cl False show ?thesis by (simp del: session.simps)
  qed
next
  case (Streaming cli)
  obtain p cs m where p: "served p cs" "clients (trace w) = cs @ [fleet_stream m (of_nat p)]"
    "phase = of_nat p + of_nat m"
    using s Streaming by auto
  let ?f = "wire_frame (fleet_payload (of_nat p + of_nat m))"
  obtain go w1 k where st: "stream_turn h cli us phase w = Some (go, phase + 1, w1)"
    "clients (trace w1) = cs @ [fleet_stream m (of_nat p) @ take k ?f]"
    "if go then k = length ?f else k < length ?f"
    using stream_turn_clients [OF h p(2)] unfolding p(3) by blast
  show ?thesis
  proof (cases go)
    case True
    have "clients (trace w1) = cs @ [fleet_stream (Suc m) (of_nat p)]"
      using st(2,3) True by (simp add: fleet_stream_snoc)
    moreover have "phase + 1 = of_nat p + of_nat (Suc m)" using p(3) by simp
    ultimately have "session (Streaming cli) (phase + 1) (clients (trace w1))"
      unfolding session.simps using p(1) by blast
    moreover have "a' = Streaming cli" "phase' = phase + 1" "w' = w1"
      using turn st(1) True by (simp_all add: server_turn_def Streaming)
    ultimately show ?thesis by (simp del: session.simps)
  next
    case False
    have "served (p + m + 1) (clients (trace w1))"
      using served.left [OF p(1), of k m] st(2,3) False by (simp add: cut_stream_def)
    moreover have "phase + 1 = of_nat (p + m + 1)" using p(3) by simp
    ultimately show ?thesis using turn st(1) False
      by (auto simp: server_turn_def Streaming simp del: of_nat_add of_nat_Suc)
  qed
next
  case (Exited rc)
  then show ?thesis using s turn by (auto simp: server_turn_def)
qed

lemma server_run_session:
  assumes h: "write_ok h" and "session Accepting 0 (clients (trace w))" and "tidy [srv] w"
  shows "\<exists>a phase w'. server_run n h srv us (Accepting, 0, w) = Some (a, phase, w') \<and>
           session a phase (clients (trace w'))"
proof (induction n)
  case 0
  then show ?case using assms by simp
next
  case (Suc n)
  then obtain a phase w1 where run: "server_run n h srv us (Accepting, 0, w) = Some (a, phase, w1)"
    "session a phase (clients (trace w1))" by blast
  have "tidy (fds_at srv a) w1" using server_run_tidy [OF assms(3), of n h us] run(1) by auto
  then obtain a' phase' w' where "server_turn h srv us (a, phase, w1) = Some (a', phase', w')"
    using server_turn_tidy by blast
  then show ?case using run session_turn [OF h run(2)] by (auto simp del: session.simps)
qed

text \<open>What the clients' receivers make of it: no phase twice, one phase lost per departure.\<close>

lemma served_counts:
  assumes "served p cs" and rx: "hunting_rx cap rx"
  shows "\<exists>ns. length ns = length cs \<and> p = sum_list ns + length cs \<and>
           (\<forall>i<length cs. \<exists>rx'. receive cap rx (cs ! i) =
              Some (rx', fleet_payloads (ns ! i) (of_nat (sum_list (take i ns) + i))))"
  using assms(1)
proof (induction rule: served.induct)
  case nobody
  then show ?case by simp
next
  case (left p cs k m)
  then obtain ns where ns: "length ns = length cs" "p = sum_list ns + length cs"
    "\<forall>i<length cs. \<exists>rx'. receive cap rx (cs ! i) =
       Some (rx', fleet_payloads (ns ! i) (of_nat (sum_list (take i ns) + i)))" by blast
  have "\<exists>rx'. receive cap rx (cut_stream m (of_nat p) k) = Some (rx', fleet_payloads m (of_nat p))"
    by (rule cut_stream_received [OF rx left.hyps(2)])
  then have "\<forall>i<Suc (length cs). \<exists>rx'. receive cap rx ((cs @ [cut_stream m (of_nat p) k]) ! i) =
       Some (rx', fleet_payloads ((ns @ [m]) ! i) (of_nat (sum_list (take i (ns @ [m])) + i)))"
    using ns by (auto simp: less_Suc_eq nth_append simp del: of_nat_add)
  then show ?case using ns(1,2) by (intro exI [of _ "ns @ [m]"]) simp
qed

lemma session_counts:
  assumes s: "session a phase cl" and rx: "hunting_rx cap rx"
  shows "\<exists>ns. length ns = length cl \<and>
           (\<forall>i<length cl. \<exists>rx'. receive cap rx (cl ! i) =
              Some (rx', fleet_payloads (ns ! i) (of_nat (sum_list (take i ns) + i))))"
proof (cases a)
  case (Streaming cli)
  then obtain p cs m where p: "served p cs" "cl = cs @ [fleet_stream m (of_nat p)]" using s by auto
  obtain ns where ns: "length ns = length cs" "p = sum_list ns + length cs"
    "\<forall>i<length cs. \<exists>rx'. receive cap rx (cs ! i) =
       Some (rx', fleet_payloads (ns ! i) (of_nat (sum_list (take i ns) + i)))"
    using served_counts [OF p(1) rx] by blast
  have "\<forall>i<Suc (length cs). \<exists>rx'. receive cap rx (cl ! i) =
       Some (rx', fleet_payloads ((ns @ [m]) ! i) (of_nat (sum_list (take i (ns @ [m])) + i)))"
    using ns stream_received [OF rx, of m "of_nat p"]
    by (auto simp: p(2) less_Suc_eq nth_append simp del: of_nat_add)
  then show ?thesis using ns(1) by (intro exI [of _ "ns @ [m]"]) (simp add: p(2))
next
  case Accepting
  then obtain p where "served p cl" using s by auto
  then show ?thesis using served_counts [OF _ rx] by blast
next
  case (Exited rc)
  then obtain p where "served p cl" using s by auto
  then show ?thesis using served_counts [OF _ rx] by blast
qed

section \<open>Start-up\<close>

definition loopback :: "u16 \<Rightarrow> sockaddr_in" where
  "loopback port = \<lparr>sin_family = 2, sin_port = htons port, sin_addr = 0x0100007F, sin_zero = 0\<rparr>"

lemma htonl_loopback: "htonl INADDR_LOOPBACK = 0x0100007F"
  by (simp add: htonl_def INADDR_LOOPBACK_def join32_def byte_at_def)

text \<open>
  The calls of \<open>make_server\<close>, given what \<open>socket\<close>, \<open>bind\<close> and \<open>listen\<close> return: on every
  failure after the first the descriptor is closed again.
\<close>

definition server_calls :: "u16 \<Rightarrow> int \<Rightarrow> int \<Rightarrow> int \<Rightarrow> syscall list" where
  "server_calls port fd r l =
     (if fd < 0 then [Socket_stream, Perror ''socket'']
      else [Socket_stream, Reuse_addr fd 1, Bind fd (loopback port)] @
        (if r < 0 then [Perror ''bind'', Close fd]
         else [Listen fd 1] @ (if l < 0 then [Perror ''listen'', Close fd] else [])))"

text \<open>The events agree with given results of the three calls.\<close>

fun agrees :: "int \<Rightarrow> int \<Rightarrow> int \<Rightarrow> event \<Rightarrow> bool" where
  "agrees fd r l (Socket_stream, x, e) \<longleftrightarrow> x = fd"
| "agrees fd r l (Bind d a, x, e) \<longleftrightarrow> x = r"
| "agrees fd r l (Listen d n, x, e) \<longleftrightarrow> x = l"
| "agrees fd r l _ \<longleftrightarrow> True"

lemma make_server_calls:
  assumes "make_server h port w = (srv, w')"
  shows "\<exists>fd r l evs. trace w' = trace w @ evs \<and> map fst evs = server_calls port fd r l \<and>
           list_all (agrees fd r l) evs \<and> srv = (if fd < 0 \<or> r < 0 \<or> l < 0 then -1 else fd)"
proof -
  obtain fd w1 where w1: "sys h Socket_stream w = (fd, w1)" by fastforce
  let ?w2 = "tell h (Reuse_addr fd 1) w1"
  obtain r w3 where w3: "sys h (Bind fd (loopback port)) ?w2 = (r, w3)" by fastforce
  obtain l w4 where w4: "sys h (Listen fd 1) w3 = (l, w4)" by fastforce
  have addr: "zero_sockaddr\<lparr>sin_family := AF_INET, sin_addr := htonl INADDR_LOOPBACK,
      sin_port := htons port\<rparr> = loopback port"
    by (simp add: zero_sockaddr_def AF_INET_def htonl_loopback loopback_def)
  note tr = sys_trace [OF w1] sys_trace [OF w3] sys_trace [OF w4] tell_trace
  have run: "make_server h port w =
      (if fd < 0 then (-1, tell h (Perror ''socket'') w1)
       else if r < 0 then (-1, tell h (Close fd) (tell h (Perror ''bind'') w3))
       else if l < 0 then (-1, tell h (Close fd) (tell h (Perror ''listen'') w4))
       else (fd, w4))"
    by (simp add: make_server_def w1 w3 w4 addr)
  have res: "srv = fst (make_server h port w)" "w' = snd (make_server h port w)"
    using assms by simp_all
  define evs where "evs = drop (length (trace w)) (trace w')"
  have "trace w' = trace w @ evs \<and> map fst evs = server_calls port fd r l \<and>
      list_all (agrees fd r l) evs \<and> srv = (if fd < 0 \<or> r < 0 \<or> l < 0 then -1 else fd)"
    unfolding res run evs_def by (simp add: tr server_calls_def)
  then show ?thesis by blast
qed

lemma make_server_effects:
  assumes "make_server h port w = (srv, w')" and "tidy [] w"
  shows "tidy (if srv < 0 then [] else [srv]) w'" "clients (trace w') = clients (trace w)"
    "pace (trace w') = pace (trace w)"
proof -
  obtain fd r l evs where tr: "trace w' = trace w @ evs" "map fst evs = server_calls port fd r l"
    "list_all (agrees fd r l) evs" "srv = (if fd < 0 \<or> r < 0 \<or> l < 0 then -1 else fd)"
    using make_server_calls [OF assms(1)] by blast
  have "orderly [] evs \<and> foldl fd_step [] evs = (if srv < 0 then [] else [srv]) \<and>
      foldl took cl evs = cl \<and> foldl burst_step dc evs = dc" for cl dc
    using tr(2-4) by (cases dc) (auto simp: server_calls_def map_eq_Cons_conv split: if_splits)
  then show "tidy (if srv < 0 then [] else [srv]) w'" "clients (trace w') = clients (trace w)"
    "pace (trace w') = pace (trace w)"
    using tr(1) assms(2) by (simp_all add: tidy_def orderly_append open_fds_append clients_append
        pace_append open_fds_def [symmetric])
qed

text \<open>
  The command line as a grammar: pairs of an option and its value, each of which sets the
  port or the rate, so that the last one of a kind counts.
\<close>

inductive command_line :: "string list \<Rightarrow> u16 \<Rightarrow> i64 \<Rightarrow> u16 \<times> i64 \<Rightarrow> bool" where
  no_option: "command_line [] port rate (port, rate)"
| port_option: "command_line ws (ucast (strtoul v)) rate r \<Longrightarrow>
    command_line (''--port'' # v # ws) port rate r"
| rate_option: "command_line ws port (if sint (strtol v) < 1 then 1 else strtol v) r \<Longrightarrow>
    command_line (''--rate'' # v # ws) port rate r"

inductive_simps command_line_simps:
  "command_line [] port rate r"
  "command_line [a] port rate r"
  "command_line (a # v # ws) port rate r"

lemma parse_args_command_line:
  "\<exists>res. parse_args argv i port rate = Some res \<and>
     (\<forall>r. res = Some r \<longleftrightarrow> command_line (drop i argv) port rate r)"
proof (induction argv i port rate rule: parse_args.induct)
  case (1 argv i port rate)
  show ?case
  proof (cases "i < length argv")
    case False
    then show ?thesis by (subst parse_args.simps) (auto simp: command_line_simps)
  next
    case i: True
    show ?thesis
    proof (cases "i + 1 < length argv")
      case False
      then have "drop i argv = [argv ! i]" using i by (simp add: Cons_nth_drop_Suc [symmetric])
      then show ?thesis using False i
        by (subst parse_args.simps) (auto simp: command_line_simps arg_def)
    next
      case True
      then have d: "drop i argv = argv ! i # argv ! (i + 1) # drop (i + 2) argv"
        by (simp add: Cons_nth_drop_Suc)
      consider (p) "argv ! i = ''--port''" | (r) "argv ! i = ''--rate''"
        | (b) "argv ! i \<noteq> ''--port''" "argv ! i \<noteq> ''--rate''" by blast
      then show ?thesis
      proof cases
        case p
        then show ?thesis using "1.IH"(1) [OF i, of "argv ! i" "argv ! (i + 1)"] True
          by (subst parse_args.simps) (simp add: d arg_def command_line_simps)
      next
        case r
        then show ?thesis
          using "1.IH"(2) [OF i, of "argv ! i" "argv ! (i + 1)" "strtol (argv ! (i + 1))"] True
          by (subst parse_args.simps)
              (cases "sint (strtol (argv ! Suc i)) < 1"; simp add: d arg_def command_line_simps)
      next
        case b
        then show ?thesis using i
          by (subst parse_args.simps) (simp add: d arg_def command_line_simps)
      qed
    qed
  qed
qed

lemma parse_args_command_lineD:
  assumes "command_line (drop i argv) port rate r" shows "parse_args argv i port rate = Some (Some r)"
proof -
  obtain res where "parse_args argv i port rate = Some res"
    "\<forall>r. res = Some r \<longleftrightarrow> command_line (drop i argv) port rate r"
    using parse_args_command_line by blast
  with assms show ?thesis by metis
qed

lemma command_line_rate: "command_line ws port rate r \<Longrightarrow> 1 \<le> sint rate \<Longrightarrow> 1 \<le> sint (snd r)"
  by (induction rule: command_line.induct) auto

lemma period_div:
  assumes "1 \<le> sint rate"
  shows "\<exists>us. c_div64 1000000 rate = Some us \<and>
           unat (ucast us :: u32) = nat (1000000 div sint rate) \<and> 1000000 div sint rate \<le> 1000000"
proof -
  let ?q = "1000000 div sint rate"
  have q: "1000000 sdiv sint rate = ?q" using assms by (simp add: signed_divide_int_def)
  have range: "0 \<le> ?q" "?q \<le> 1000000"
    using assms zdiv_mono2 [of 1000000 1 "sint rate"] by (simp_all add: pos_imp_zdiv_nonneg_iff)
  then have "c_div64 1000000 rate = Some (word_of_int ?q)"
    using assms by (simp add: c_div64_def q in_i64_def)
  moreover have "unat (ucast (word_of_int ?q :: i64) :: u32) = nat ?q"
  proof -
    obtain n where n: "?q = int n" "n \<le> 1000000" using range by (metis nat_0_le nat_le_iff of_nat_numeral)
    then show ?thesis by (simp add: unsigned_ucast_eq unat_of_nat take_bit_nat_eq_self_iff)
  qed
  ultimately show ?thesis using range by blast
qed

text \<open>How a run of the program begins, and where it is after some turns.\<close>

lemma fleet_main_cases:
  obtains (usage) "parse_args argv 1 5555 100 = Some None"
      "fleet_main n h argv w = Some (Exited 2, 0, tell h (Eprint (usage (argv ! 0))) w)"
    | (no_server) port rate srv w1 where "parse_args argv 1 5555 100 = Some (Some (port, rate))"
      "make_server h port (tell h Ignore_sigpipe w) = (srv, w1)" "srv < 0"
      "fleet_main n h argv w = Some (Exited 1, 0, w1)"
    | (serves) port rate srv w1 us where "parse_args argv 1 5555 100 = Some (Some (port, rate))"
      "1 \<le> sint rate" "make_server h port (tell h Ignore_sigpipe w) = (srv, w1)" "0 \<le> srv"
      "c_div64 1000000 rate = Some us"
      "fleet_main n h argv w =
         server_run n h srv us (Accepting, 0, tell h (Eprint (serving port rate)) w1)"
proof -
  obtain res where res: "parse_args argv 1 5555 100 = Some res"
    "\<forall>r. res = Some r \<longleftrightarrow> command_line (drop 1 argv) 5555 100 r"
    using parse_args_command_line by blast
  show ?thesis
  proof (cases res)
    case None
    then have "\<not> command_line (drop 1 argv) 5555 100 (5555, 100)" using res(2) by blast
    then have "argv \<noteq> []" by (auto simp: command_line_simps)
    then show ?thesis using usage None res(1) by (simp add: fleet_main_def arg_def)
  next
    case (Some r)
    obtain port rate where r: "r = (port, rate)" by fastforce
    obtain srv w1 where w1: "make_server h port (tell h Ignore_sigpipe w) = (srv, w1)" by fastforce
    have rate: "1 \<le> sint rate" using command_line_rate res(2) Some r by fastforce
    then obtain us where us: "c_div64 1000000 rate = Some us" using period_div by blast
    show ?thesis
    proof (cases "srv < 0")
      case True
      then show ?thesis using no_server res(1) Some r w1 by (simp add: fleet_main_def)
    next
      case False
      then show ?thesis using serves res(1) Some r rate w1 us by (simp add: fleet_main_def)
    qed
  qed
qed

section \<open>Pauses and the end of the program\<close>

text \<open>
  A piece that a pause ended is one whole frame and the pause the right one; any other piece
  is a proper initial piece of a frame, perhaps nothing.
\<close>

fun burst_ok :: "u32 \<Rightarrow> u8 list \<times> u32 option \<Rightarrow> bool" where
  "burst_ok us (b, Some u) \<longleftrightarrow> u = us \<and> (\<exists>k. b = wire_frame (fleet_payload k))"
| "burst_ok us (b, None) \<longleftrightarrow>
     (\<exists>k m. m < length (wire_frame (fleet_payload k)) \<and> b = take m (wire_frame (fleet_payload k)))"

lemma burst_ok_nothing [simp]: "burst_ok us ([], None)"
  by (auto simp: wire_frame_def stuff_frame_def intro!: exI [of _ 0])

declare burst_ok.simps(2) [simp del]

text \<open>While a client is served nothing has been written since the last pause.\<close>

definition paced :: "u32 \<Rightarrow> at \<Rightarrow> 's world \<Rightarrow> bool" where
  "paced us a w \<longleftrightarrow>
     (\<forall>x\<in>set (bursts (trace w)). burst_ok us x) \<and>
     (case a of Streaming cli \<Rightarrow> snd (pace (trace w)) = [] | _ \<Rightarrow> True)"

lemma paced_pace:
  "pace (trace w) = (ps, b) \<Longrightarrow> paced us a w \<longleftrightarrow>
     (\<forall>x\<in>set ps. burst_ok us x) \<and> burst_ok us (b, None) \<and> (case a of Streaming cli \<Rightarrow> b = [] | _ \<Rightarrow> True)"
  by (auto simp: paced_def bursts_def split: at.splits)

lemma server_turn_paced:
  assumes h: "write_ok h" and p: "paced (ucast us) a w"
    and turn: "server_turn h srv us (a, phase, w) = Some (a', phase', w')"
  shows "paced (ucast us) a' w'"
proof -
  obtain ps b where pb: "pace (trace w) = (ps, b)" by fastforce
  show ?thesis
  proof (cases a)
    case Accepting
    obtain cli w1 where w1: "sys h (Accept srv) w = (cli, w1)" by fastforce
    have "pace (trace w1) = (if 0 \<le> cli then (ps @ [(b, None)], []) else (ps, b))"
      using sys_trace [OF w1] pb by simp
    then show ?thesis using turn w1 p pb
      by (auto simp: server_turn_def Accepting paced_pace split: if_splits)
  next
    case (Streaming cli)
    let ?f = "wire_frame (fleet_payload phase)"
    have b: "b = []" using p by (simp add: paced_pace [OF pb] Streaming)
    obtain go w1 k evs r e where st: "stream_turn h cli us phase w = Some (go, phase + 1, w1)"
      "trace w1 = trace w @ evs @ (if go then [(Usleep (ucast us), r, e)] else [])"
      "list_all is_write evs" "concat (map data_of evs) = take k ?f"
      "if go then k = length ?f else k < length ?f"
      using stream_turn_sends [OF h, of cli us phase w] by (elim exE conjE) (rule that)
    have pace: "pace (trace w1) = (if go then (ps @ [(?f, Some (ucast us))], []) else (ps, take k ?f))"
      using st(5) by (simp add: st(2,4) pace_append pb b pace_writes [OF st(3)] foldl_append)
    show ?thesis
    proof (cases go)
      case True
      then have "a' = Streaming cli" "w' = w1" using turn st(1) by (simp_all add: server_turn_def Streaming)
      then show ?thesis using True p pace by (auto simp: paced_pace [OF pb] paced_pace)
    next
      case False
      then have "a' = Accepting" "w' = tell h (Eprint disconnected) (tell h (Close cli) w1)"
        using turn st(1) by (simp_all add: server_turn_def Streaming)
      moreover have "burst_ok (ucast us) (take k ?f, None)" using st(5) False by (auto simp: burst_ok.simps(2))
      ultimately show ?thesis using False p pace by (auto simp: paced_pace [OF pb] paced_pace)
    qed
  next
    case (Exited rc)
    then show ?thesis using turn p by (simp add: server_turn_def)
  qed
qed

lemma server_run_paced:
  "write_ok h \<Longrightarrow> paced (ucast us) Accepting w \<Longrightarrow>
   server_run n h srv us (Accepting, 0, w) = Some (a, phase, w') \<Longrightarrow> paced (ucast us) a w'"
proof (induction n arbitrary: a phase w')
  case (Suc n)
  obtain a1 phase1 w1 where run: "server_run n h srv us (Accepting, 0, w) = Some (a1, phase1, w1)"
    "server_turn h srv us (a1, phase1, w1) = Some (a, phase, w')"
    using Suc.prems by (auto split: bind_splits)
  show ?case using server_turn_paced [OF Suc.prems(1) _ run(2)] Suc.IH [OF Suc.prems(1,2) run(1)] by blast
qed simp

text \<open>Once started, the server ends only on a failed \<open>accept\<close> that was not interrupted.\<close>

definition accept_failed :: "int \<Rightarrow> event list \<Rightarrow> bool" where
  "accept_failed srv tr \<longleftrightarrow> (\<exists>tr1 r e evs. tr = tr1 @ (Accept srv, r, e) # evs \<and> r < 0 \<and> e \<noteq> EINTR \<and>
     map fst evs = [Perror ''accept'', Close srv])"

lemma server_turn_exit:
  assumes "server_turn h srv us (a, phase, w) = Some (Exited rc, phase', w')"
  shows "a = Exited rc \<and> w' = w \<or> rc = 0 \<and> accept_failed srv (trace w')"
proof (cases a)
  case Accepting
  obtain cli w1 where w1: "sys h (Accept srv) w = (cli, w1)" by fastforce
  have "accept_failed srv (trace (tell h (Close srv) (tell h (Perror ''accept'') w1)))"
    if "cli < 0" "errno w1 \<noteq> EINTR"
    using that sys_trace [OF w1] unfolding accept_failed_def
    by - (rule exI [of _ "trace w"], rule exI [of _ cli], rule exI [of _ "errno w1"],
      simp add: tell_trace)
  then show ?thesis using assms w1
    by (auto simp: server_turn_def Accepting split: if_splits)
next
  case (Streaming cli)
  then show ?thesis using assms by (auto simp: server_turn_def split: bind_splits if_splits)
next
  case (Exited rc)
  then show ?thesis using assms by (auto simp: server_turn_def)
qed

lemma server_run_exit:
  "server_run n h srv us (Accepting, 0, w) = Some (Exited rc, phase, w') \<Longrightarrow>
   rc = 0 \<and> accept_failed srv (trace w')"
proof (induction n arbitrary: phase w')
  case (Suc n)
  obtain a1 phase1 w1 where run: "server_run n h srv us (Accepting, 0, w) = Some (a1, phase1, w1)"
    "server_turn h srv us (a1, phase1, w1) = Some (Exited rc, phase, w')"
    using Suc.prems by (auto split: bind_splits)
  show ?case using server_turn_exit [OF run(2)] Suc.IH run(1) by auto
qed simp

lemma fleet_main_session:
  assumes "write_ok h"
  shows "\<exists>a phase w. fleet_main n h argv \<lparr>state = s, trace = []\<rparr> = Some (a, phase, w) \<and>
           session a phase (clients (trace w))"
proof -
  let ?w = "\<lparr>state = s, trace = []\<rparr>"
  have t0: "tidy [] ?w" by (simp add: tidy_def)
  have s0: "session Accepting 0 []" by (auto intro!: exI [of _ 0] served.nobody)
  show ?thesis
  proof (cases rule: fleet_main_cases [of argv n h ?w])
    case usage
    then show ?thesis using s0 by auto
  next
    case (no_server port rate srv w1)
    then show ?thesis using make_server_effects(2) [OF no_server(2) tidy_note(4) [OF t0]] s0 by auto
  next
    case (serves port rate srv w1 us)
    note eff = make_server_effects [OF serves(3) tidy_note(4) [OF t0]]
    let ?w2 = "tell h (Eprint (serving port rate)) w1"
    have "tidy [srv] ?w2" using eff(1) serves(4) by (simp add: tidy_note)
    moreover have "session Accepting 0 (clients (trace ?w2))" using eff(2) s0 by simp
    ultimately show ?thesis using server_run_session [OF assms] serves(6) by metis
  qed
qed

section \<open>Properties\<close>

text \<open>
  A port is cut to 16 bits without a check: 70000 becomes 4464, and what is not a number 0.
\<close>

lemma port_not_checked:
  "parse_args [prog, ''--port'', ''70000''] 1 5555 100 = Some (Some (4464, 100))"
  "parse_args [prog, ''--port'', ''tcp''] 1 5555 100 = Some (Some (0, 100))"
proof -
  have "strtoul ''70000'' = 70000" "strtoul ''tcp'' = 0"
    by (simp_all add: strtoul_def subject_def isspace_def isdigit_def digits_value_def of_char_def)
  then have "(ucast (strtoul ''70000'') :: u16) = 4464" "(ucast (strtoul ''tcp'') :: u16) = 0"
    by simp_all
  then show "parse_args [prog, ''--port'', ''70000''] 1 5555 100 = Some (Some (4464, 100))"
    "parse_args [prog, ''--port'', ''tcp''] 1 5555 100 = Some (Some (0, 100))"
    by (intro parse_args_command_lineD; simp add: command_line_simps)+
qed

text \<open>
  A host for the examples: its state is the number of the next descriptor and the results
  of the coming calls of \<open>accept\<close> and \<open>write\<close>; everything else succeeds.
\<close>

fun script_host :: "(int \<times> (int \<times> int) list) host" where
  "script_host Socket_stream (fd, rs) = (fd, 0, (fd + 1, rs))"
| "script_host (Accept d) (fd, rs) =
     (case rs of [] \<Rightarrow> (-1, 9, (fd, [])) | (r, e) # rs \<Rightarrow>
        if r < 0 then (-1, e, (fd, rs)) else (fd, 0, (fd + 1, rs)))"
| "script_host (Write d m n) (fd, rs) =
     (case rs of [] \<Rightarrow> (-1, 32, (fd, [])) | (r, e) # rs \<Rightarrow> (min r (int n), e, (fd, rs)))"
| "script_host c (fd, rs) = (0, 0, (fd, rs))"

lemma script_host_write_ok: "write_ok script_host"
  by (auto simp: write_ok_def split: list.splits)

text \<open>
  C19: one client at a time and no descriptor leaked. On every host, whatever its calls
  return and however many turns the program has run, the run has no undefined behaviour;
  every call worked on an open descriptor, clients were accepted only when none was
  connected, data went only to the connected one, and what is open is exactly the listening
  socket and the connected client, nothing once the program has returned.
\<close>

theorem fleet_tidy:
  "\<exists>a phase w srv. fleet_main n h argv \<lparr>state = s, trace = []\<rparr> = Some (a, phase, w) \<and>
     orderly [] (trace w) \<and> open_fds (trace w) = fds_at srv a"
proof -
  let ?w = "\<lparr>state = s, trace = []\<rparr>"
  have t0: "tidy [] ?w" by (simp add: tidy_def)
  show ?thesis
  proof (cases rule: fleet_main_cases [of argv n h ?w])
    case usage
    then show ?thesis using tidy_note(1) [OF t0] by (auto simp: tidy_def)
  next
    case (no_server port rate srv w1)
    then show ?thesis using make_server_effects(1) [OF no_server(2) tidy_note(4) [OF t0]]
      by (auto simp: tidy_def)
  next
    case (serves port rate srv w1 us)
    have "tidy [srv] (tell h (Eprint (serving port rate)) w1)"
      using make_server_effects(1) [OF serves(3) tidy_note(4) [OF t0]] serves(4) by (simp add: tidy_note)
    then show ?thesis using server_run_tidy [of srv _ n h us] serves(6) by (fastforce simp: tidy_def)
  qed
qed

text \<open>
  C18: the server refines the abstract server. On every host whose \<open>write\<close> takes no more
  than it is offered, at every point of a run, what the clients have been sent is a history
  of the abstract server: every client gets the frames of consecutive phases, a client that
  leaves has been sent whole frames and a proper initial piece of one more, the next client
  starts at the phase after it, and the connected client has been sent whole frames only.
\<close>

theorem fleet_sessions:
  assumes "write_ok h"
  shows "\<exists>a phase w. fleet_main n h argv \<lparr>state = s, trace = []\<rparr> = Some (a, phase, w) \<and>
           session a phase (clients (trace w))"
  by (rule fleet_main_session [OF assms])

theorem fleet_sessions_witness:
  "\<exists>a phase w. fleet_main 3 script_host [''fleet_node''] \<lparr>state = (3, [(0, 0), (5, 0), (0, 32)]), trace = []\<rparr> =
     Some (a, phase, w) \<and> session a phase (clients (trace w))"
  by (rule fleet_sessions [OF script_host_write_ok])

text \<open>
  C20: what the clients receive. On every host whose \<open>write\<close> takes no more than it is offered,
  a receiver fed what a client has been sent hands out the payloads of consecutive phases;
  over all clients in the order of their connection the phases follow each other, with
  exactly one left out at every change of clients, and none is delivered twice.
\<close>

theorem fleet_clients_receive:
  assumes "write_ok h" and "hunting_rx cap rx"
  shows "\<exists>a phase w ns. fleet_main n h argv \<lparr>state = s, trace = []\<rparr> = Some (a, phase, w) \<and>
           length ns = length (clients (trace w)) \<and>
           (\<forall>i<length ns. \<exists>rx'. receive cap rx (clients (trace w) ! i) =
              Some (rx', fleet_payloads (ns ! i) (of_nat (sum_list (take i ns) + i))))"
proof -
  obtain a phase w where "fleet_main n h argv \<lparr>state = s, trace = []\<rparr> = Some (a, phase, w)"
    "session a phase (clients (trace w))"
    using fleet_main_session [OF assms(1)] by blast
  then show ?thesis using session_counts [OF _ assms(2)] by metis
qed

theorem fleet_clients_receive_witness:
  "\<exists>a phase w ns. fleet_main 3 script_host [''fleet_node''] \<lparr>state = (3, [(0, 0), (5, 0), (0, 32)]), trace = []\<rparr> =
       Some (a, phase, w) \<and> length ns = length (clients (trace w)) \<and>
     (\<forall>i<length ns. \<exists>rx'. receive 16 (\<lparr>st_in_frame = 0, st_esc = 0, st_overflow = 0, st_count = 0,
         st_buf = replicate 18 None\<rparr>, replicate 16 None) (clients (trace w) ! i) =
       Some (rx', fleet_payloads (ns ! i) (of_nat (sum_list (take i ns) + i))))"
  by (rule fleet_clients_receive [OF script_host_write_ok]) (simp add: hunting_rx_def dec_rel_def)

text \<open>
  C31: the command line. Parsing returns for every argument vector; it succeeds exactly on a
  sequence of \<open>--port\<close> and \<open>--rate\<close> options each followed by a value, with the last value of a
  kind (port 5555 and rate 100 if there is none) and a rate below one raised to one.
\<close>

theorem fleet_command_line:
  "\<exists>res. parse_args argv 1 5555 100 = Some res \<and>
     (\<forall>port rate. res = Some (port, rate) \<longleftrightarrow> command_line (drop 1 argv) 5555 100 (port, rate))"
  using parse_args_command_line [of argv 1 5555 100] by blast

text \<open>
  Ports and rates in decimal. A port and a positive rate written in decimal on the
  command line are read back exactly.
\<close>

lemma fleet_options_roundtrip:
  assumes "1 \<le> sint rate"
  shows "parse_args [prog, ''--port'', decimal (unat port), ''--rate'', decimal_int (sint rate)] 1 5555 100 =
         Some (Some (port, rate))"
proof -
  have "in_i64 (sint rate)"
    using sint_greater_eq [of rate] sint_less [of rate] by (simp add: in_i64_def)
  then have r: "strtol (decimal_int (sint rate)) = rate" by (simp add: strtol_decimal_int)
  have "unat port < 2 ^ LENGTH(16)" by (rule unsigned_less)
  then have "strtoul (decimal (unat port)) = of_nat (unat port)" by (intro strtoul_decimal) simp
  moreover have "of_nat (unat port) = (ucast port :: u64)" by simp
  moreover have "(ucast (ucast port :: u64) :: u16) = port"
    by (rule bit_word_eqI) (simp add: bit_ucast_iff)
  ultimately have p: "ucast (strtoul (decimal (unat port))) = port" by metis
  let ?argv = "[prog, ''--port'', decimal (unat port), ''--rate'', decimal_int (sint rate)]"
  have "command_line (drop 1 ?argv) 5555 100 (port, rate)"
    using assms by (simp add: command_line_simps p r)
  then show ?thesis by (rule parse_args_command_lineD)
qed

text \<open>
  The listening socket. On every host, \<open>make_server\<close> makes exactly these calls, with the
  descriptor that \<open>socket\<close> returned, and closes it again when a later call fails; the
  address it binds is 127.0.0.1 and the port, its high byte first.
\<close>

lemma make_server_script:
  assumes "make_server h port w = (srv, w')"
  shows "\<exists>fd r l evs. trace w' = trace w @ evs \<and> map fst evs = server_calls port fd r l \<and>
           list_all (agrees fd r l) evs \<and> srv = (if fd < 0 \<or> r < 0 \<or> l < 0 then -1 else fd) \<and>
           le32 (sin_addr (loopback port)) = [127, 0, 0, 1] \<and>
           le16 (sin_port (loopback port)) = [byte_at port 8, byte_at port 0]"
proof -
  have "le32 (sin_addr (loopback port)) = [127, 0, 0, 1]"
    by (simp add: loopback_def le32_def byte_at_def)
  moreover have "le16 (sin_port (loopback port)) = [byte_at port 8, byte_at port 0]"
    by (simp add: loopback_def htons_bytes)
  ultimately show ?thesis using make_server_calls [OF assms] by blast
qed

text \<open>
  C30: how the program ends. If it has returned, then with 2, having printed the usage and
  nothing else, on a command line outside the grammar; or with 1, having made no call
  beyond those of \<open>make_server\<close>, one of which failed; or with 0, after an \<open>accept\<close> that
  failed and was not interrupted. No client ends it.
\<close>

theorem fleet_exits:
  assumes "fleet_main n h argv \<lparr>state = s, trace = []\<rparr> = Some (Exited rc, phase, w)"
  shows "rc = 2 \<and> (\<nexists>r. command_line (drop 1 argv) 5555 100 r) \<and>
           map fst (trace w) = [Eprint (usage (argv ! 0))] \<or>
         rc = 1 \<and> (\<exists>port rate fd r l. command_line (drop 1 argv) 5555 100 (port, rate) \<and>
           map fst (trace w) = Ignore_sigpipe # server_calls port fd r l \<and>
           list_all (agrees fd r l) (trace w) \<and> (fd < 0 \<or> r < 0 \<or> l < 0)) \<or>
         rc = 0 \<and> (\<exists>srv. accept_failed srv (trace w))"
proof -
  let ?w = "\<lparr>state = s, trace = []\<rparr>"
  obtain res where res: "parse_args argv 1 5555 100 = Some res"
    "\<forall>r. res = Some r \<longleftrightarrow> command_line (drop 1 argv) 5555 100 r"
    using parse_args_command_line by blast
  show ?thesis
  proof (cases rule: fleet_main_cases [of argv n h ?w])
    case usage
    then show ?thesis using assms res by (auto simp: tell_trace)
  next
    case (no_server port rate srv w1)
    then have out: "rc = 1" "w = w1" using assms by simp_all
    have "res = Some (port, rate)" using no_server(1) res(1) by simp
    then have cl: "command_line (drop 1 argv) 5555 100 (port, rate)" using res(2) by blast
    obtain fd r l evs where evs: "trace w1 = trace (tell h Ignore_sigpipe ?w) @ evs"
      "map fst evs = server_calls port fd r l" "list_all (agrees fd r l) evs"
      "srv = (if fd < 0 \<or> r < 0 \<or> l < 0 then -1 else fd)"
      using make_server_calls [OF no_server(2)] by blast
    have "map fst (trace w) = Ignore_sigpipe # server_calls port fd r l" "list_all (agrees fd r l) (trace w)"
      using evs(1-3) by (simp_all add: out tell_trace)
    moreover have "fd < 0 \<or> r < 0 \<or> l < 0" using evs(4) no_server(3) by (auto split: if_splits)
    ultimately have "\<exists>port rate fd r l. command_line (drop 1 argv) 5555 100 (port, rate) \<and>
        map fst (trace w) = Ignore_sigpipe # server_calls port fd r l \<and>
        list_all (agrees fd r l) (trace w) \<and> (fd < 0 \<or> r < 0 \<or> l < 0)"
      using cl by metis
    then show ?thesis using out(1) by simp
  next
    case (serves port rate srv w1 us)
    then show ?thesis using assms server_run_exit by metis
  qed
qed

theorem fleet_exits_witness:
  "\<exists>w. fleet_main 0 script_host [''fleet_node'', ''--help''] \<lparr>state = (3, []), trace = []\<rparr> =
       Some (Exited 2, 0, w) \<and> map fst (trace w) = [Eprint (usage ''fleet_node'')]"
proof -
  obtain w where w: "fleet_main 0 script_host [''fleet_node'', ''--help''] \<lparr>state = (3, []), trace = []\<rparr> =
      Some (Exited 2, 0, w)"
    by (simp add: fleet_main_def parse_args.simps arg_def)
  show ?thesis using fleet_exits [OF w] w by simp
qed

text \<open>
  C32: the pace. For every command line of the right form and every host whose \<open>write\<close> takes
  no more than it is offered: at every point of a run, the data written so far, cut at every
  pause and at every client that was accepted, is one whole frame before each pause, and less
  than a frame in every other piece. So every frame is followed by a pause and no two
  frames are sent without one between them. Every pause is a million microseconds divided by
  the rate, at most a second, and the division is always defined.
\<close>

theorem fleet_paced:
  assumes "write_ok h" and "command_line (drop 1 argv) 5555 100 (port, rate)"
  shows "\<exists>a phase w us. fleet_main n h argv \<lparr>state = s, trace = []\<rparr> = Some (a, phase, w) \<and>
           (\<forall>x\<in>set (bursts (trace w)). burst_ok us x) \<and>
           1 \<le> sint rate \<and> unat us = nat (1000000 div sint rate) \<and> unat us \<le> 1000000"
proof -
  let ?w = "\<lparr>state = s, trace = []\<rparr>"
  note args = parse_args_command_lineD [OF assms(2)]
  have rate: "1 \<le> sint rate" using command_line_rate [OF assms(2)] by simp
  obtain us where us: "c_div64 1000000 rate = Some us"
    "unat (ucast us :: u32) = nat (1000000 div sint rate)" "1000000 div sint rate \<le> 1000000"
    using period_div [OF rate] by blast
  have p0: "pace (trace ?w) = ([], [])" by (simp add: pace_def)
  have "tidy [] ?w" by (simp add: tidy_def)
  note effects = make_server_effects(3) [OF _ tidy_note(4) [OF this]]
  have "\<exists>a phase w. fleet_main n h argv ?w = Some (a, phase, w) \<and> paced (ucast us) a w"
  proof (cases rule: fleet_main_cases [of argv n h ?w])
    case usage
    then show ?thesis using args by simp
  next
    case (no_server port rate srv w1)
    then show ?thesis using effects [OF no_server(2)] p0 by (simp add: paced_pace)
  next
    case (serves port' rate' srv w1 us')
    let ?w2 = "tell h (Eprint (serving port' rate')) w1"
    have us': "us' = us" using serves(1,5) args us(1) by simp
    have "paced (ucast us) Accepting ?w2"
      using effects [OF serves(3)] p0 by (simp add: paced_pace)
    then show ?thesis
      using serves(6) server_run_paced [OF assms(1), of us ?w2 n srv] fleet_main_session [OF assms(1)]
      unfolding us' by metis
  qed
  then show ?thesis using rate us(2,3) unfolding paced_def by fastforce
qed

text \<open>A run with two pauses, the second frame sent in two pieces, the third one cut off.\<close>

definition demo_writes :: "(int \<times> int) list" where
  "demo_writes = [(0, 0), (100, 0), (5, 0), (100, 0), (7, 0), (-1, 32)]"

lemma demo_lengths:
  "length (wire_frame (fleet_payload 0)) = 20" "length (wire_frame (fleet_payload 1)) = 20"
  "length (wire_frame (fleet_payload 2)) = 20"
  by code_simp+

lemma script_send:
  "send_loop script_host cli frame off n \<lparr>state = (d, (r, e) # rs), trace = tr\<rparr> =
   (if off < n
    then let k = min r (n - off);
             w = \<lparr>state = (d, rs), trace = tr @ [(Write cli (drop (nat off) frame) (nat (n - off)), k, e)]\<rparr>
         in if k \<le> 0 then (-1, w) else send_loop script_host cli frame (off + k) n w
    else (off, \<lparr>state = (d, (r, e) # rs), trace = tr\<rparr>))"
  by (subst send_loop.simps) (simp add: sys_def Let_def)

lemma demo_turns:
  assumes "pace (trace w) = ([], [])" and "state w = (4, demo_writes)"
  shows "\<exists>a phase w'.
     server_run (Suc (Suc (Suc (Suc 0)))) script_host srv us (Accepting, 0, w) = Some (a, phase, w') \<and>
     map (map_prod length id) (bursts (trace w')) =
       [(0, None), (20, Some (ucast us)), (20, Some (ucast us)), (7, None)]"
  using assms
  by (simp add: server_turn_def stream_turn_run sys_def tell_def script_send demo_lengths bursts_def
      filled_def demo_writes_def pace_append Let_def)

lemma demo_pace:
  "\<exists>a phase w. fleet_main 4 script_host [''fleet_node'', ''--rate'', ''0''] \<lparr>state = (3, demo_writes), trace = []\<rparr> =
     Some (a, phase, w) \<and>
   map (map_prod length id) (bursts (trace w)) = [(0, None), (20, Some 1000000), (20, Some 1000000), (7, None)]"
proof -
  have "strtol ''0'' = 0" by code_simp
  then have args: "parse_args [''fleet_node'', ''--rate'', ''0''] 1 5555 100 = Some (Some (5555, 1))"
    by (intro parse_args_command_lineD) (simp add: command_line_simps)
  have us: "c_div64 1000000 1 = Some 1000000" by code_simp
  obtain w1 where w1: "make_server script_host 5555 (tell script_host Ignore_sigpipe \<lparr>state = (3, demo_writes), trace = []\<rparr>) = (3, w1)"
    "pace (trace w1) = ([], [])" "state w1 = (4, demo_writes)"
    by (simp add: make_server_def sys_def tell_def pace_def)
  let ?w = "tell script_host (Eprint (serving 5555 1)) w1"
  have "pace (trace ?w) = ([], [])" "state ?w = (4, demo_writes)"
    using w1(2,3) by (simp_all add: tell_def sys_def)
  from demo_turns [OF this, of 3 1000000] obtain a phase w' where run:
    "server_run (Suc (Suc (Suc (Suc 0)))) script_host 3 1000000 (Accepting, 0, ?w) = Some (a, phase, w')"
    "map (map_prod length id) (bursts (trace w')) =
      [(0, None), (20, Some (ucast (1000000 :: i64))), (20, Some (ucast (1000000 :: i64))), (7, None)]"
    by (elim exE conjE) (rule that)
  have four: "4 = Suc (Suc (Suc (Suc 0)))" by simp
  have "fleet_main 4 script_host [''fleet_node'', ''--rate'', ''0''] \<lparr>state = (3, demo_writes), trace = []\<rparr> =
      Some (a, phase, w')"
    unfolding fleet_main_def args using us w1(1) run(1) unfolding four by (simp del: server_run.simps)
  then show ?thesis using run(2) by simp
qed

theorem fleet_paced_witness:
  "\<exists>a phase w us. fleet_main 4 script_host [''fleet_node'', ''--rate'', ''0'']
       \<lparr>state = (3, demo_writes), trace = []\<rparr> = Some (a, phase, w) \<and>
     map (map_prod length id) (bursts (trace w)) =
       [(0, None), (20, Some 1000000), (20, Some 1000000), (7, None)] \<and>
     (\<forall>x\<in>set (bursts (trace w)). burst_ok us x) \<and>
     1 \<le> sint (1 :: i64) \<and> unat us = nat (1000000 div sint (1 :: i64)) \<and> unat us \<le> 1000000"
proof -
  let ?argv = "[''fleet_node'', ''--rate'', ''0'']"
  have "strtol ''0'' = 0" by code_simp
  then have "command_line (drop 1 ?argv) 5555 100 (5555, 1)" by (simp add: command_line_simps)
  from fleet_paced [OF script_host_write_ok this, of 4 "(3, demo_writes)"] show ?thesis
    using demo_pace by fastforce
qed

end
