(* ===== verification/Gateway_Decode.thy ===== *)
theory Gateway_Decode
  imports Codec
begin

text \<open>
  The gateway's decode stage, \<open>gateway/include/sharak/decode.hpp\<close> and \<open>gateway/src/decode.cpp\<close>:
  its types and the stub that stands for it in the code. What reaches this stage is followed for
  every type of message, from the packer to the receiver's unpackers, and with it what the
  stub does not do yet.
\<close>

section \<open>Types and the stub\<close>

datatype Kind = Accel | Temp | Current

text \<open>The values of the enumeration, numbered as C++ numbers them, and their order.\<close>

fun underlying :: "Kind \<Rightarrow> nat" where
  "underlying Accel = 0"
| "underlying Temp = 1"
| "underlying Current = 2"

instantiation Kind :: linorder
begin

definition less_eq_Kind :: "Kind \<Rightarrow> Kind \<Rightarrow> bool" where
  "less_eq_Kind a b \<longleftrightarrow> underlying a \<le> underlying b"

definition less_Kind :: "Kind \<Rightarrow> Kind \<Rightarrow> bool" where
  "less_Kind a b \<longleftrightarrow> underlying a < underlying b"

instance
proof
  fix a b :: Kind
  assume "a \<le> b" and "b \<le> a"
  then show "a = b" by (cases a; cases b) (simp_all add: less_eq_Kind_def)
qed (auto simp: less_eq_Kind_def less_Kind_def)

end

datatype DecodeStatus = Ok | BadLength | BadVersion | UnknownType

record Telemetry =
  t_kind :: Kind
  t_seq :: u16
  t_x_mg :: i32
  t_y_mg :: i32
  t_z_mg :: i32
  t_temp_centi_c :: i16
  t_current_ma :: i32

definition telemetry_init :: Telemetry where
  "telemetry_init =
     \<lparr>t_kind = Accel, t_seq = 0, t_x_mg = 0, t_y_mg = 0, t_z_mg = 0, t_temp_centi_c = 0, t_current_ma = 0\<rparr>"

text \<open>The result and the object behind \<open>out\<close>; the code is marked as not yet implemented.\<close>

definition decode :: "mem option \<Rightarrow> nat \<Rightarrow> Telemetry \<Rightarrow> DecodeStatus \<times> Telemetry" where
  "decode payload len out = (BadLength, out)"

section \<open>Readings on the wire\<close>

text \<open>The payload of a reading.\<close>

definition payload_of :: "Telemetry \<Rightarrow> u8 list" where
  "payload_of t =
     (case t_kind t of
        Accel \<Rightarrow> accel_payload (t_seq t) (t_x_mg t) (t_y_mg t) (t_z_mg t)
      | Temp \<Rightarrow> temp_payload (t_seq t) (t_temp_centi_c t)
      | Current \<Rightarrow> current_payload (t_seq t) (t_current_ma t))"

text \<open>
  The kinds mirror the type bytes on the wire: in the same order, each one lower.
\<close>

lemma type_code_mirrors: "payload_of t ! Suc 0 = of_nat (underlying (t_kind t)) + 1"
  by (simp add: payload_of_def layout_defs split: Kind.split)

lemma type_byte_order:
  "payload_of t ! Suc 0 < payload_of u ! Suc 0 \<longleftrightarrow> t_kind t < t_kind u"
  by (cases "t_kind t"; cases "t_kind u") (simp_all add: type_code_mirrors less_Kind_def)

text \<open>A sender: the packer of the kind into a buffer of the largest payload, then the encoder.\<close>

definition pack_reading :: "Telemetry \<Rightarrow> (int \<times> mem option) option" where
  "pack_reading t =
     (let buf = Some (replicate SK_PAYLOAD_MAX None); cap = SK_PAYLOAD_MAX in
      case t_kind t of
        Accel \<Rightarrow> sk_payload_pack buf cap (t_seq t) (t_x_mg t) (t_y_mg t) (t_z_mg t)
      | Temp \<Rightarrow> sk_pack_temp buf cap (t_seq t) (t_temp_centi_c t)
      | Current \<Rightarrow> sk_pack_current buf cap (t_seq t) (t_current_ma t))"

definition send_reading :: "Telemetry \<Rightarrow> u8 list option" where
  "send_reading t = do {
     (plen, payload) \<leftarrow> pack_reading t;
     (flen, frame) \<leftarrow> sk_frame_encode payload (nat plen) (Some (replicate SK_FRAME_MAX None)) SK_FRAME_MAX;
     f \<leftarrow> frame;
     if flen < 0 then None else Some (map the (take (nat flen) f))
   }"

text \<open>
  What the first \<open>n\<close> bytes of a payload say to a receiver, by the unpackers of \<open>protocol.c\<close>:
  version 1, the type and the sequence number of a reading, and the values of its kind.
\<close>

definition unpacks_to :: "mem \<Rightarrow> nat \<Rightarrow> Telemetry \<Rightarrow> bool" where
  "unpacks_to b n t \<longleftrightarrow>
     (case t_kind t of
        Accel \<Rightarrow>
          sk_envelope_unpack (Some b) n (Some 0) (Some 0) (Some 0) =
            Some (0, Some SK_VER, Some SK_TYPE_ACCEL, Some (t_seq t)) \<and>
          sk_payload_unpack (Some b) n (Some 0) (Some 0) (Some 0) (Some 0) (Some 0) (Some 0) =
            Some (0, Some SK_VER, Some SK_TYPE_ACCEL, Some (t_seq t),
                  Some (t_x_mg t), Some (t_y_mg t), Some (t_z_mg t))
      | Temp \<Rightarrow>
          sk_envelope_unpack (Some b) n (Some 0) (Some 0) (Some 0) =
            Some (0, Some SK_VER, Some SK_TYPE_TEMP, Some (t_seq t)) \<and>
          sk_unpack_temp (Some b) n (Some 0) = Some (0, Some (t_temp_centi_c t))
      | Current \<Rightarrow>
          sk_envelope_unpack (Some b) n (Some 0) (Some 0) (Some 0) =
            Some (0, Some SK_VER, Some SK_TYPE_CURRENT, Some (t_seq t)) \<and>
          sk_unpack_current (Some b) n (Some 0) = Some (0, Some (t_current_ma t)))"

section \<open>The whole path\<close>

lemma payload_of_sendable [simp]: "sendable (payload_of t)"
  by (simp add: payload_of_def sendable_def split: Kind.split)

lemma pack_reading_ok:
  "pack_reading t = Some (int (length (payload_of t)), Some (filled (payload_of t) (replicate 16 None)))"
  by (simp add: pack_reading_def payload_of_def sk_payload_pack_ok sk_pack_temp_ok sk_pack_current_ok
      split: Kind.split)

lemma send_reading_ok: "send_reading t = Some (wire_frame (payload_of t))"
  using sk_frame_encode_room [OF payload_of_sendable, of SK_FRAME_MAX "replicate SK_FRAME_MAX None" t]
  by (simp add: send_reading_def pack_reading_ok filled_def)

lemma payload_unpacks: "unpacks_to (map Some (payload_of t) @ r) (length (payload_of t)) t"
proof (cases "t_kind t")
  case Accel
  have env: "accel_payload s x y z = envelope 0x01 s @ le32 x @ le32 y @ le32 z" for s x y z
    by (simp add: accel_payload_def)
  show ?thesis
    using sk_payload_unpack_ok [of 16 "t_seq t" "t_x_mg t" "t_y_mg t" "t_z_mg t" r "Some 0" "Some 0" "Some 0"
        "Some 0" "Some 0" "Some 0"]
      sk_envelope_unpack_ok [of 16 "0x01" "t_seq t" "le32 (t_x_mg t) @ le32 (t_y_mg t) @ le32 (t_z_mg t)" r
        "Some 0" "Some 0" "Some 0"]
    by (simp add: unpacks_to_def payload_of_def Accel out_val_def SK_TYPE_ACCEL_def env [symmetric])
next
  case Temp
  have env: "temp_payload s v = envelope 0x02 s @ le16 v" for s v by (simp add: temp_payload_def)
  show ?thesis
    using sk_unpack_temp_ok [of 6 "t_seq t" "t_temp_centi_c t" r "Some 0"]
      sk_envelope_unpack_ok [of 6 "0x02" "t_seq t" "le16 (t_temp_centi_c t)" r "Some 0" "Some 0" "Some 0"]
    by (simp add: unpacks_to_def payload_of_def Temp out_val_def SK_TYPE_TEMP_def env [symmetric])
next
  case Current
  have env: "current_payload s v = envelope 0x03 s @ le32 v" for s v by (simp add: current_payload_def)
  show ?thesis
    using sk_unpack_current_ok [of 8 "t_seq t" "t_current_ma t" r "Some 0"]
      sk_envelope_unpack_ok [of 8 "0x03" "t_seq t" "le32 (t_current_ma t)" r "Some 0" "Some 0" "Some 0"]
    by (simp add: unpacks_to_def payload_of_def Current out_val_def SK_TYPE_CURRENT_def env [symmetric])
qed

section \<open>Properties\<close>

text \<open>
  C9: every message type over the wire. Readings of any kinds, each packed by the packer of
  its kind and framed by the encoder, fed one after the other, behind any noise without
  flags, to a decoder that was reset: it hands out one payload for each reading, in order, and
  from each the unpackers of \<open>protocol.c\<close> read version 1 and exactly the type, the sequence
  number and the values of that reading. (What becomes of them behind that, in the gateway, is
  not yet written: \<open>decode_rejects_all\<close>.)
\<close>

theorem readings_over_wire:
  assumes "length (st_buf st) = 18" and "16 \<le> cap" and "cap \<le> length buf"
    and "\<forall>b\<in>set noise. b \<noteq> SK_FLAG"
  shows "\<exists>fs rx ps. map send_reading ts = map Some fs \<and>
           receive cap (the (sk_decoder_init (Some st)), buf) (noise @ concat fs) = Some (rx, ps) \<and>
           list_all2 (\<lambda>p t. unpacks_to (map Some p) (length p) t) ps ts"
proof -
  let ?ps = "map payload_of ts"
  have "\<forall>p\<in>set ?ps. sendable p" by simp
  then obtain rx where
    "receive cap (the (sk_decoder_init (Some st)), buf) (noise @ concat (map wire_frame ?ps)) = Some (rx, ?ps)"
    using link.dec_banner_frames [OF reset_hunting [OF assms(1-3)], of noise ?ps] assms(4)
    by (auto simp: SK_FLAG_def)
  moreover have "map send_reading ts = map Some (map wire_frame ?ps)" by (simp add: send_reading_ok)
  moreover have "list_all2 (\<lambda>p t. unpacks_to (map Some p) (length p) t) ?ps ts"
    using payload_unpacks [of _ "[]"] by (simp add: list_all2_map1 list_all2_refl)
  ultimately show ?thesis by blast
qed

theorem readings_over_wire_witness:
  "\<exists>fs rx ps. map send_reading [telemetry_init\<lparr>t_kind := Temp, t_seq := 66, t_temp_centi_c := -1725\<rparr>,
       telemetry_init\<lparr>t_kind := Current, t_current_ma := 0x7E7D7E7D\<rparr>,
       telemetry_init\<lparr>t_seq := 0x1234, t_x_mg := 1000, t_y_mg := -2000\<rparr>] = map Some fs \<and>
     receive 16 (the (sk_decoder_init (Some \<lparr>st_in_frame = 1, st_esc = 1, st_overflow = 1, st_count = 7,
       st_buf = replicate 18 None\<rparr>)), replicate 16 None) ([0x53, 0x0A] @ concat fs) = Some (rx, ps) \<and>
     list_all2 (\<lambda>p t. unpacks_to (map Some p) (length p) t) ps
       [telemetry_init\<lparr>t_kind := Temp, t_seq := 66, t_temp_centi_c := -1725\<rparr>,
        telemetry_init\<lparr>t_kind := Current, t_current_ma := 0x7E7D7E7D\<rparr>,
        telemetry_init\<lparr>t_seq := 0x1234, t_x_mg := 1000, t_y_mg := -2000\<rparr>]"
  by (rule readings_over_wire) (simp_all add: SK_FLAG_def)

text \<open>
  The gateway does not decode yet. For every reading, the payload its packer writes says what
  the reading says, but \<open>decode\<close> answers \<open>BadLength\<close> to it; what the stub does keep is that a
  rejected payload leaves \<open>out\<close> as it was.
\<close>

lemma decode_rejects_all:
  "\<exists>n b. pack_reading t = Some (n, Some b) \<and> unpacks_to b (nat n) t \<and>
     decode (Some b) (nat n) out = (BadLength, out)"
  using payload_unpacks [of t "drop (length (payload_of t)) (replicate 16 None)"]
  by (simp add: pack_reading_ok filled_def decode_def)

end
