(* ===== verification/Host_Tests.thy ===== *)
theory Host_Tests
  imports Gateway_Decode Node_Main Fleet_Node
begin

text \<open>
  The repository's own tests, run on the model: the host tests of \<open>tests/\<close> and those of the
  gateway, whose decode stage is a stub. A test is the list of its checks in order, \<open>None\<close> if it has undefined behaviour.
  They tie the definitions of the other theories to the values the authors expect.
\<close>

section \<open>Checks\<close>

definition passed :: "bool list option \<Rightarrow> bool" where
  "passed t = (case t of None \<Rightarrow> False | Some cs \<Rightarrow> list_all id cs)"

definition failed_checks :: "bool list option \<Rightarrow> nat" where
  "failed_checks t = (case t of None \<Rightarrow> 0 | Some cs \<Rightarrow> length (filter Not cs))"

text \<open>Local arrays and a local decoder, all indeterminate; \<open>memcmp\<close> of initialised bytes.\<close>

definition array :: "nat \<Rightarrow> mem option" where
  "array n = Some (replicate n None)"

definition local_decoder :: "sk_decoder option" where
  "local_decoder = Some \<lparr>st_in_frame = 0xCC, st_esc = 0xCC, st_overflow = 0xCC, st_count = 0xCC,
     st_buf = replicate 18 None\<rparr>"

definition memcmp :: "mem option \<Rightarrow> mem option \<Rightarrow> nat \<Rightarrow> bool option" where
  "memcmp a b n = do {
     a \<leftarrow> a; b \<leftarrow> b;
     if n \<le> length a \<and> n \<le> length b \<and> None \<notin> set (take n a) \<and> None \<notin> set (take n b)
     then Some (take n a = take n b) else None
   }"

text \<open>The bytes that were written to an array.\<close>

definition written :: "mem option \<Rightarrow> nat \<Rightarrow> u8 list" where
  "written a n = (case a of None \<Rightarrow> [] | Some m \<Rightarrow> map the (take n m))"

text \<open>\<open>feed_all\<close> of the tests: the number of 16-byte frames, and the last result that is not \<open>MORE\<close>.\<close>

definition frames_in :: "(int \<times> mem) list \<Rightarrow> nat" where
  "frames_in rs = length (filter (\<lambda>(r, m). r = 16) rs)"

definition last_result :: "(int \<times> mem) list \<Rightarrow> int" where
  "last_result rs = (if rs = [] then SK_DEC_MORE else fst (last rs))"

section \<open>\<open>test_crc16.c\<close>\<close>

definition test_crc16 :: "bool list option" where
  "test_crc16 = do {
     a \<leftarrow> crc16_ccitt_false (Some (map Some [0x31, 0x32, 0x33, 0x34, 0x35, 0x36, 0x37, 0x38, 0x39])) 9;
     b \<leftarrow> crc16_ccitt_false (Some [Some 0]) 0;
     c \<leftarrow> crc16_ccitt_false None 0;
     d \<leftarrow> crc16_ccitt_false (Some [Some 0]) 1;
     let buf = map (\<lambda>i. word_of_nat (i * 17 + 3)) [0..<16];
     crc \<leftarrow> crc16_ccitt_false (Some (map Some buf @ [None, None])) 16;
     e \<leftarrow> crc16_ccitt_false (Some (map Some (buf @ [byte_at crc 8, byte_at crc 0]))) 18;
     Some [a = 0x29B1, b = 0xFFFF, c = 0xFFFF, d = 0xE1F0, e = 0x0000]
   }"

section \<open>\<open>test_framing.c\<close>\<close>

text \<open>1. The round trip restores the payload.\<close>

definition test_framing_1 :: "bool list option" where
  "test_framing_1 = do {
     (n, payload) \<leftarrow> sk_payload_pack (array 16) 16 0x1234 1000 (-2000) 256;
     (k, frame) \<leftarrow> sk_frame_encode payload 16 (array SK_FRAME_MAX) SK_FRAME_MAX;
     (rs, d, got) \<leftarrow> feed_all (sk_decoder_init local_decoder) (array 16) 16 (written frame (nat k));
     same \<leftarrow> memcmp payload got 16;
     (rc, ver, type, seq, x, y, z) \<leftarrow>
       sk_payload_unpack got 16 (Some 0) (Some 0) (Some 0) (Some 0) (Some 0) (Some 0);
     Some [n = 16, k > 0, frames_in rs = 1, last_result rs = 16, same, rc = 0, ver = Some SK_VER,
           type = Some SK_TYPE_ACCEL, seq = Some 0x1234, x = Some 1000, y = Some (-2000), z = Some 256]
   }"

text \<open>2. Stuffing, byte for byte against the reference, and the place of flags and escapes.\<close>

fun interior_ok :: "u8 list \<Rightarrow> bool list" where
  "interior_ok [] = []"
| "interior_ok (b # bs) =
     (if b = 0x7D
      then (case bs of
              [] \<Rightarrow> [b \<noteq> 0x7E, False]
            | c # cs \<Rightarrow> [b \<noteq> 0x7E, True, c = 0x5E \<or> c = 0x5D] @ interior_ok cs)
      else (b \<noteq> 0x7E) # interior_ok bs)"

definition ref_encode :: "u8 list \<Rightarrow> u8 list option" where
  "ref_encode payload = do {
     crc \<leftarrow> crc16_ccitt_false (Some (map Some payload)) 16;
     Some (stuff_frame (payload @ [byte_at crc 8, byte_at crc 0]))
   }"

definition test_framing_2 :: "bool list option" where
  "test_framing_2 = do {
     (_, payload) \<leftarrow> sk_payload_pack (array 16) 16 0x7D7E 0x7E7D7E7D 0 0;
     (n, frame) \<leftarrow> sk_frame_encode payload 16 (array SK_FRAME_MAX) SK_FRAME_MAX;
     ref \<leftarrow> ref_encode (written payload 16);
     let w = written frame (nat n);
     Some ([n > 0, nat n = length ref, w = ref, hd w = 0x7E, last w = 0x7E] @ interior_ok (butlast (tl w)))
   }"

text \<open>3. A wrong checksum is rejected.\<close>

definition test_framing_3 :: "bool list option" where
  "test_framing_3 = do {
     (_, payload) \<leftarrow> sk_payload_pack (array 16) 16 7 1 2 3;
     crc \<leftarrow> crc16_ccitt_false payload 16;
     let crc = crc XOR 1;
     let frame = stuff_frame (written payload 16 @ [byte_at crc 8, byte_at crc 0]);
     (rs, d, got) \<leftarrow> feed_all (sk_decoder_init local_decoder) (array 16) 16 frame;
     Some [frames_in rs = 0, last_result rs = SK_DEC_ERR_CRC]
   }"

text \<open>4. A frame fed in two halves.\<close>

definition test_framing_4 :: "bool list option" where
  "test_framing_4 = do {
     (_, payload) \<leftarrow> sk_payload_pack (array 16) 16 99 (-1) (-1) (-1);
     (n, frame) \<leftarrow> sk_frame_encode payload 16 (array SK_FRAME_MAX) SK_FRAME_MAX;
     let w = written frame (nat n);
     let split = nat n div 2;
     (rs1, d, got) \<leftarrow> feed_all (sk_decoder_init local_decoder) (array 16) 16 (take split w);
     (rs2, d, got) \<leftarrow> feed_all d got 16 (drop split w);
     same \<leftarrow> memcmp payload got 16;
     Some [n > 0, frames_in rs1 = 0, frames_in rs2 = 1, last_result rs2 = 16, same]
   }"

text \<open>5. Resynchronisation after garbage and after a frame that is too short.\<close>

definition test_framing_5 :: "bool list option" where
  "test_framing_5 = do {
     (_, payload) \<leftarrow> sk_payload_pack (array 16) 16 0xBEEF 10 20 30;
     (n, frame) \<leftarrow> sk_frame_encode payload 16 (array SK_FRAME_MAX) SK_FRAME_MAX;
     let w = written frame (nat n);
     (_, d, got) \<leftarrow> feed_all (sk_decoder_init local_decoder) (array 16) 16 [0x11, 0x22, 0x33, 0xAA, 0x55];
     (rs1, _, got) \<leftarrow> feed_all d got 16 w;
     same1 \<leftarrow> memcmp payload got 16;
     (rs2, d, got) \<leftarrow> feed_all (sk_decoder_init local_decoder) got 16 [0x7E, 0x01, 0x02, 0x03, 0x04, 0x7E];
     (rs3, _, got) \<leftarrow> feed_all d got 16 w;
     same3 \<leftarrow> memcmp payload got 16;
     Some [frames_in rs1 = 1, last_result rs1 = 16, same1, last_result rs2 = SK_DEC_ERR_LEN,
           frames_in rs3 = 1, last_result rs3 = 16, same3]
   }"

section \<open>\<open>test_multitype.c\<close>\<close>

definition feed_frame :: "u8 list \<Rightarrow> mem option \<Rightarrow> nat \<Rightarrow> (int \<times> mem option) option" where
  "feed_frame frame out cap = do {
     (rs, d, out) \<leftarrow> feed_all (sk_decoder_init local_decoder) out cap frame;
     Some (last_result rs, out)
   }"

definition test_multitype_1 :: "bool list option" where
  "test_multitype_1 = do {
     (plen, payload) \<leftarrow> sk_pack_temp (array SK_PAYLOAD_MAX) SK_PAYLOAD_MAX 0x0042 (-1725);
     (flen, frame) \<leftarrow> sk_frame_encode payload (nat plen) (array SK_FRAME_MAX) SK_FRAME_MAX;
     (result, got) \<leftarrow> feed_frame (written frame (nat flen)) (array SK_PAYLOAD_MAX) SK_PAYLOAD_MAX;
     same \<leftarrow> memcmp payload got 6;
     (rc, ver, type, seq) \<leftarrow> sk_envelope_unpack got 6 (Some 0) (Some 0) (Some 0);
     (rt, temp) \<leftarrow> sk_unpack_temp got 6 (Some 0);
     Some [plen = 6, flen > 0, result = 6, same, rc = 0, ver = Some SK_VER, type = Some SK_TYPE_TEMP,
           seq = Some 0x0042, rt = 0, temp = Some (-1725)]
   }"

definition test_multitype_2 :: "bool list option" where
  "test_multitype_2 = do {
     (plen, payload) \<leftarrow> sk_pack_current (array SK_PAYLOAD_MAX) SK_PAYLOAD_MAX 0xABCD (-125000);
     (flen, frame) \<leftarrow> sk_frame_encode payload (nat plen) (array SK_FRAME_MAX) SK_FRAME_MAX;
     (result, got) \<leftarrow> feed_frame (written frame (nat flen)) (array SK_PAYLOAD_MAX) SK_PAYLOAD_MAX;
     same \<leftarrow> memcmp payload got 8;
     (rc, ver, type, seq) \<leftarrow> sk_envelope_unpack got 8 None (Some 0) None;
     (rt, cur) \<leftarrow> sk_unpack_current got 8 (Some 0);
     Some [plen = 8, flen > 0, result = 8, same, rc = 0, type = Some SK_TYPE_CURRENT, rt = 0,
           cur = Some (-125000)]
   }"

definition test_multitype_3 :: "bool list option" where
  "test_multitype_3 = do {
     (plen, payload) \<leftarrow> sk_pack_temp (array SK_PAYLOAD_MAX) SK_PAYLOAD_MAX 1 2500;
     (flen, frame) \<leftarrow> sk_frame_encode payload (nat plen) (array SK_FRAME_MAX) SK_FRAME_MAX;
     let w = written frame (nat flen);
     (result, got) \<leftarrow> feed_frame (w[2 := w ! 2 XOR 1]) (array SK_PAYLOAD_MAX) SK_PAYLOAD_MAX;
     Some [flen > 2, result = SK_DEC_ERR_CRC]
   }"

definition test_multitype_4 :: "bool list option" where
  "test_multitype_4 = do {
     (plen, payload) \<leftarrow> sk_payload_pack (array SK_PAYLOAD_MAX) SK_PAYLOAD_MAX 5 100 (-100) 1000;
     (flen, frame) \<leftarrow> sk_frame_encode payload (nat plen) (array SK_FRAME_MAX) SK_FRAME_MAX;
     (result, got) \<leftarrow> feed_frame (written frame (nat flen)) (array SK_PAYLOAD_MAX) SK_PAYLOAD_MAX;
     (rc, ver, type, seq) \<leftarrow> sk_envelope_unpack got 16 None (Some 0) None;
     Some [plen = 16, result = 16, rc = 0, type = Some SK_TYPE_ACCEL]
   }"

section \<open>\<open>test_adxl345_decode.c\<close>\<close>

definition pack_axes :: "i16 \<Rightarrow> i16 \<Rightarrow> i16 \<Rightarrow> mem" where
  "pack_axes x y z =
     map Some [byte_at x 0, byte_at x 8, byte_at y 0, byte_at y 8, byte_at z 0, byte_at z 8]"

definition axes :: "adxl345_accel \<Rightarrow> int list" where
  "axes a = [sint (x_mg a), sint (y_mg a), sint (z_mg a)]"

definition test_adxl345_decode :: "bool list option" where
  "test_adxl345_decode = do {
     a1 \<leftarrow> adxl345_decode (pack_axes 0 0 0);
     a2 \<leftarrow> adxl345_decode (pack_axes 256 0 0);
     a3 \<leftarrow> adxl345_decode (pack_axes (-1) 0 0);
     a4 \<leftarrow> adxl345_decode (pack_axes 256 (-256) 512);
     a5 \<leftarrow> adxl345_decode (map Some [0x00, 0x01, 0x00, 0x00, 0x00, 0x00]);
     Some [axes a1 = [0, 0, 0], axes a2 = [1000, 0, 0], sint (x_mg a3) = -3,
           axes a4 = [1000, -1000, 2000], sint (x_mg a5) = 1000]
   }"

section \<open>\<open>test_fleet_node.c\<close>\<close>

definition test_fleet_signal :: "bool list option" where
  "test_fleet_signal =
     Some [fleet_sample 0 = (0, 0, 8, 1000), fleet_sample 1 = (1, 5, 5, 1000),
           fleet_sample 8 = (8, 0, 8, 1000), fst (fleet_sample 0x10000) = 0]"

definition test_fleet_roundtrip :: "bool list option" where
  "test_fleet_roundtrip = do {
     (n, frame) \<leftarrow> fleet_build_frame 0x1234 (-4) 2 1000 (array SK_FRAME_MAX) SK_FRAME_MAX;
     let w = written frame (nat n);
     (rs, d, payload) \<leftarrow> feed_all (sk_decoder_init local_decoder) (array SK_PAYLOAD_LEN) SK_PAYLOAD_LEN w;
     (rc, ver, type, seq, x, y, z) \<leftarrow>
       sk_payload_unpack payload SK_PAYLOAD_LEN (Some 0) (Some 0) (Some 0) (Some 0) (Some 0) (Some 0);
     Some [n > 0, hd w = SK_FLAG \<and> last w = SK_FLAG, 16 \<in> set (map fst rs), rc = 0,
           ver = Some SK_VER \<and> type = Some SK_TYPE_ACCEL,
           seq = Some 0x1234 \<and> x = Some (-4) \<and> y = Some 2 \<and> z = Some 1000]
   }"

definition test_fleet_identity :: "bool list option" where
  "test_fleet_identity = do {
     (sn, sim_frame) \<leftarrow> fleet_build_frame 7 (-8) 5 1000 (array SK_FRAME_MAX) SK_FRAME_MAX;
     (pl, payload) \<leftarrow> sk_payload_pack (array SK_PAYLOAD_LEN) SK_PAYLOAD_LEN 7 (-8) 5 1000;
     (rn, ref_frame) \<leftarrow> sk_frame_encode payload (nat pl) (array SK_FRAME_MAX) SK_FRAME_MAX;
     same \<leftarrow> memcmp sim_frame ref_frame (nat sn);
     Some [sn = rn \<and> sn > 0, same]
   }"

section \<open>\<open>test_i2c_sim.c\<close>\<close>

text \<open>A local simulator, reset and bound to a local bus.\<close>

definition reset_sim :: "i2c_sim option \<Rightarrow> i2c_sim option i2c_bus option" where
  "reset_sim sim = do {
     s \<leftarrow> i2c_sim_init sim;
     i2c_sim_bind (Some bus_static) s
   }"

definition local_sim :: "i2c_sim option" where
  "local_sim = Some \<lparr>sim_regs = replicate I2C_SIM_NREGS None, sim_ptr = 0xCC, sim_phase = 0xCCCCCCCC\<rparr>"

definition call_write ::
  "'c i2c_bus \<Rightarrow> u8 \<Rightarrow> u8 list \<Rightarrow> (int \<times> 'c i2c_bus) option" where
  "call_write b addr ds = do {
     f \<leftarrow> bus_write b;
     (rc, c) \<leftarrow> f (ctx b) addr (Some (map Some ds)) (length ds);
     Some (rc, b\<lparr>ctx := c\<rparr>)
   }"

definition call_write_read ::
  "'c i2c_bus \<Rightarrow> u8 \<Rightarrow> u8 list \<Rightarrow> nat \<Rightarrow> (int \<times> 'c i2c_bus \<times> u8 list) option" where
  "call_write_read b addr ws n = do {
     f \<leftarrow> bus_write_read b;
     (rc, c, m) \<leftarrow> f (ctx b) addr (Some (map Some ws)) (length ws) (array n) n;
     Some (rc, b\<lparr>ctx := c\<rparr>, written m n)
   }"

definition set_measure :: "'c i2c_bus \<Rightarrow> (bool \<times> 'c i2c_bus) option" where
  "set_measure b = do { (rc, b) \<leftarrow> call_write b 0x53 [0x2D, 0x08]; Some (rc = I2C_OK, b) }"

definition read_burst :: "'c i2c_bus \<Rightarrow> (int \<times> 'c i2c_bus \<times> u8 list) option" where
  "read_burst b = call_write_read b 0x53 [0x32] 6"

definition test_i2c_sim_1 :: "bool list option" where
  "test_i2c_sim_1 = do {
     b \<leftarrow> reset_sim local_sim;
     (r1, b, devid) \<leftarrow> call_write_read b 0x53 [0x00] 1;
     (r2, b, _) \<leftarrow> call_write_read b 0x10 [0x00] 1;
     (r3, b) \<leftarrow> call_write b 0x10 [0x00];
     (r4, b, d4) \<leftarrow> read_burst b;
     (m5, b) \<leftarrow> set_measure b;
     (r6, b, d6) \<leftarrow> read_burst b;
     (r7, b, d7) \<leftarrow> read_burst b;
     Some [r1 = I2C_OK, devid = [0xE5], r2 = I2C_ERR_NACK, r3 = I2C_ERR_NACK, r4 = I2C_OK, d4 = replicate 6 0,
           m5, r6 = I2C_OK, d6 = [0x00, 0x00, 0x10, 0x00, 0x00, 0x01],
           r7 = I2C_OK, d7 = [0x04, 0x00, 0x0C, 0x00, 0x00, 0x01]]
   }"

text \<open>6. A reset simulator repeats its samples.\<close>

definition four_bursts :: "i2c_sim option \<Rightarrow> (bool list \<times> u8 list list \<times> i2c_sim option) option" where
  "four_bursts sim = do {
     b \<leftarrow> reset_sim sim;
     (m, b) \<leftarrow> set_measure b;
     (r1, b, d1) \<leftarrow> read_burst b;
     (r2, b, d2) \<leftarrow> read_burst b;
     (r3, b, d3) \<leftarrow> read_burst b;
     (r4, b, d4) \<leftarrow> read_burst b;
     Some ([m, r1 = I2C_OK, r2 = I2C_OK, r3 = I2C_OK, r4 = I2C_OK], [d1, d2, d3, d4], ctx b)
   }"

definition test_i2c_sim_6 :: "bool list option" where
  "test_i2c_sim_6 = do {
     (cs, seqA, sim) \<leftarrow> four_bursts local_sim;
     (ds, seqB, sim) \<leftarrow> four_bursts sim;
     Some (cs @ ds @ [seqA = seqB])
   }"

section \<open>\<open>test_adxl345_driver.c\<close>\<close>

definition fail_bus :: "unit i2c_bus" where
  "fail_bus =
     \<lparr>bus_write = Some (\<lambda>c addr d n. Some (I2C_ERR_BUS, c)),
      bus_write_read = Some (\<lambda>c addr w k m n. Some (I2C_ERR_BUS, c, m)), ctx = ()\<rparr>"

definition local_accel :: "adxl345_accel option" where
  "local_accel = Some \<lparr>x_mg = 0xCCCCCCCC, y_mg = 0xCCCCCCCC, z_mg = 0xCCCCCCCC\<rparr>"

text \<open>1 and 2. Initialisation configures the chip; a sample is plausible.\<close>

definition reg_at :: "i2c_sim \<Rightarrow> u8 \<Rightarrow> u8 option" where
  "reg_at sim r = rd (sim_regs sim) (unat r)"

definition test_driver_1 :: "bool list option" where
  "test_driver_1 = do {
     b \<leftarrow> reset_sim local_sim;
     (r1, bus) \<leftarrow> adxl345_init (Some b);
     b \<leftarrow> bus;
     sim \<leftarrow> ctx b;
     (r2, bus) \<leftarrow> adxl345_selftest bus;
     (r3, bus, a) \<leftarrow> adxl345_read bus local_accel;
     a \<leftarrow> a;
     Some [r1 = ADXL345_OK, reg_at sim ADXL345_REG_DATA_FORMAT = Some 0x0B,
           reg_at sim ADXL345_REG_BW_RATE = Some 0x0A, reg_at sim ADXL345_REG_POWER_CTL = Some 0x08,
           r2 = ADXL345_OK, r3 = ADXL345_OK, sint (z_mg a) = 1000,
           -100 < sint (x_mg a) \<and> sint (x_mg a) < 100, -100 < sint (y_mg a) \<and> sint (y_mg a) < 100]
   }"

text \<open>3. A wrong identity is rejected.\<close>

definition test_driver_3 :: "bool list option" where
  "test_driver_3 = do {
     sim \<leftarrow> i2c_sim_init local_sim;
     s \<leftarrow> sim;
     m \<leftarrow> wr (sim_regs s) (unat ADXL345_REG_DEVID) 0x00;
     let bus = i2c_sim_bind (Some bus_static) (Some (s\<lparr>sim_regs := m\<rparr>));
     (r1, bus) \<leftarrow> adxl345_init bus;
     (r2, bus) \<leftarrow> adxl345_selftest bus;
     Some [r1 = ADXL345_E_WRONG_DEVID, r2 = ADXL345_E_WRONG_DEVID]
   }"

text \<open>4 and 5. Null arguments; a bus that always fails.\<close>

definition test_driver_4 :: "bool list option" where
  "test_driver_4 = do {
     b \<leftarrow> reset_sim local_sim;
     (r1, _) \<leftarrow> adxl345_init (None :: unit i2c_bus option);
     (r2, _, _) \<leftarrow> adxl345_read (None :: unit i2c_bus option) local_accel;
     (r3, _, _) \<leftarrow> adxl345_read (Some b) None;
     (r4, _) \<leftarrow> adxl345_selftest (None :: unit i2c_bus option);
     (r5, _) \<leftarrow> adxl345_init (Some fail_bus);
     (r6, _, _) \<leftarrow> adxl345_read (Some fail_bus) local_accel;
     (r7, _) \<leftarrow> adxl345_selftest (Some fail_bus);
     Some [r1 = ADXL345_E_PARAM, r2 = ADXL345_E_PARAM, r3 = ADXL345_E_PARAM, r4 = ADXL345_E_PARAM,
           r5 = ADXL345_E_BUS, r6 = ADXL345_E_BUS, r7 = ADXL345_E_BUS]
   }"

section \<open>\<open>gateway/tests/test_decode.cpp\<close>\<close>

text \<open>The test of the gateway's decode stage, of which the code has only a stub.\<close>

definition test_decode_values :: "bool list option" where
  "test_decode_values = do {
     (n1, buf) \<leftarrow> sk_payload_pack (array SK_PAYLOAD_MAX) SK_PAYLOAD_MAX 0x1234 1000 (-2000) 256;
     (s1, t1) \<leftarrow> Some (decode buf (nat n1) telemetry_init);
     (n2, buf) \<leftarrow> sk_pack_temp (array SK_PAYLOAD_MAX) SK_PAYLOAD_MAX 0x0042 (-1725);
     (s2, t2) \<leftarrow> Some (decode buf (nat n2) telemetry_init);
     (n3, buf) \<leftarrow> sk_pack_current (array SK_PAYLOAD_MAX) SK_PAYLOAD_MAX 0xABCD (-125000);
     (s3, t3) \<leftarrow> Some (decode buf (nat n3) telemetry_init);
     Some [n1 = 16, s1 = Ok, t_kind t1 = Accel, t_seq t1 = 0x1234, t_x_mg t1 = 1000, t_y_mg t1 = -2000,
           t_z_mg t1 = 256,
           n2 = 6, s2 = Ok, t_kind t2 = Temp, t_seq t2 = 0x0042, t_temp_centi_c t2 = -1725,
           n3 = 8, s3 = Ok, t_kind t3 = Current, t_seq t3 = 0xABCD, t_current_ma t3 = -125000]
   }"

definition test_decode_refusals :: "bool list option" where
  "test_decode_refusals = do {
     (s4, _) \<leftarrow> Some (decode (Some [Some SK_VER, Some SK_TYPE_TEMP]) 2 telemetry_init);
     (_, buf) \<leftarrow> sk_pack_temp (array SK_PAYLOAD_MAX) SK_PAYLOAD_MAX 1 2500;
     (s5, _) \<leftarrow> Some (decode buf 5 telemetry_init);
     m \<leftarrow> buf;
     unknown \<leftarrow> wr m 1 0x7F;
     (s6, _) \<leftarrow> Some (decode (Some unknown) 6 telemetry_init);
     version \<leftarrow> wr m 0 0x99;
     (s7, _) \<leftarrow> Some (decode (Some version) 6 telemetry_init);
     (_, buf) \<leftarrow> sk_pack_temp (array SK_PAYLOAD_MAX) SK_PAYLOAD_MAX 7 2500;
     m \<leftarrow> buf;
     version \<leftarrow> wr m 0 0x99;
     (s8, t8) \<leftarrow> Some (decode (Some version) 6 (telemetry_init\<lparr>t_seq := 0xBEEF\<rparr>));
     Some [s4 = BadLength, s5 = BadLength, s6 = UnknownType, s7 = BadVersion, s8 = BadVersion,
           t_seq t8 = 0xBEEF]
   }"

section \<open>The outcome\<close>

lemma crc16_passes: "passed test_crc16" by code_simp
lemma framing_1_passes: "passed test_framing_1" by code_simp
lemma framing_2_passes: "passed test_framing_2" by code_simp
lemma framing_3_passes: "passed test_framing_3" by code_simp
lemma framing_4_passes: "passed test_framing_4" by code_simp
lemma framing_5_passes: "passed test_framing_5" by code_simp
lemma multitype_1_passes: "passed test_multitype_1" by code_simp
lemma multitype_2_passes: "passed test_multitype_2" by code_simp
lemma multitype_3_passes: "passed test_multitype_3" by code_simp
lemma multitype_4_passes: "passed test_multitype_4" by code_simp
lemma adxl345_decode_passes: "passed test_adxl345_decode" by code_simp
lemma fleet_signal_passes: "passed test_fleet_signal" by code_simp
lemma fleet_roundtrip_passes: "passed test_fleet_roundtrip" by code_simp
lemma fleet_identity_passes: "passed test_fleet_identity" by code_simp
lemma i2c_sim_1_passes: "passed test_i2c_sim_1" by code_simp
lemma i2c_sim_6_passes: "passed test_i2c_sim_6" by code_simp
lemma driver_1_passes: "passed test_driver_1" by code_simp
lemma driver_3_passes: "passed test_driver_3" by code_simp
lemma driver_4_passes: "passed test_driver_4" by code_simp

text \<open>Of the gateway's checks sixteen fail, as \<open>decode\<close> is not yet implemented.\<close>

lemma decode_stub_fails: "failed_checks test_decode_values = 13" "failed_checks test_decode_refusals = 3"
  by code_simp+

end
