(* ===== verification/Spec2Isabelle.thy ===== *)
theory Spec2Isabelle
  imports Stellaris_Chip Power_On Node_Restart Uart_Receive Frame_Overlap Frame_Deliver Fleet_Server Host_Tests
begin

text \<open>
  Sharak: the wire protocol, the sensor node's firmware and the fleet simulator.

  \<^bold>\<open>The program.\<close> A node samples an ADXL345 accelerometer over I2C, packs each reading into
  a 16-byte payload, frames it (checksum, byte stuffing, flags) and sends it over UART0. A
  receiver feeds the bytes one by one to an incremental decoder, which hands out payloads.
  The same protocol code is used by the node, by the fleet simulator and by receivers.

    \<^item> \<open>protocol/src/protocol.c\<close>: pure routines on caller-provided buffers; the decoder's state
      is the caller's \<open>sk_decoder_t\<close>.
    \<^item> \<open>firmware/i2c.h\<close>: a struct of two methods and a context, behind which stand
      \<open>i2c_sim.c\<close> (a simulated chip) or \<open>i2c_stellaris.c\<close> (the hardware master).
    \<^item> \<open>firmware/adxl345.c\<close>: the driver, which reaches the chip through that struct only.
    \<^item> \<open>firmware/uart.c\<close>, \<open>firmware/startup.c\<close>, \<open>firmware/main.c\<close>: the serial line, the C
      runtime, and the loop that ties the parts together.
    \<^item> \<open>sim/fleet_node.c\<close>, \<open>sim/fleet_main.c\<close>: synthetic nodes that stream frames over TCP, one
      client at a time.
    \<^item> \<open>gateway/\<close>: the types of the C++ stage that will turn payloads into readings, and a stub.

  \<^bold>\<open>How C is modelled\<close> (theory \<open>Sharak_Prelude\<close>). Machine integers are words of their width;
  signed arithmetic is checked, conversions keep the bit pattern. A buffer is a list of
  cells, a cell that was never written is \<open>None\<close>; a pointer is an option, \<open>None\<close> for a null
  pointer. A routine that touches memory returns an option: \<open>None\<close> is undefined behaviour
  (an access outside a buffer, a read of an unwritten cell, an overflow) or, for the busy
  waits, a call that never returns; \<open>Some r\<close> is a normal return, \<open>r\<close> holding the C result
  and the objects it changed. A theorem that concludes with \<open>Some\<close> therefore states
  termination and memory safety too. Error codes are values, so every early return is a
  branch of the model.

  \<^bold>\<open>The theories.\<close>
    \<^item> \<open>Crc16\<close>: \<open>crc16_ccitt_false\<close>, loop by loop. A shift register with a linear step is an
      interface (\<open>linear_register\<close>, extended by \<open>distance_four\<close>), interpreted on the code's
      step; from it follow the residue law, the textbook polynomial remainder, and what the
      checksum detects (distance four up to 18 bytes, bursts of 16 bits, odd errors).
    \<^item> \<open>Payload\<close>: the packers and unpackers of the three messages; layouts and round trips.
    \<^item> \<open>Frame_Encode\<close>: \<open>sk_frame_encode\<close> with its capacity checks, against the reference
      framing of the tests (\<open>stuff_frame\<close>): right frame when it fits, no overrun otherwise.
    \<^item> \<open>Frame_Overlap\<close>: the encoder over one array that holds both its payload and its output;
      overlap does no harm.
    \<^item> \<open>Frame_Decode\<close>: the decoder's state machine, an abstract decoder that collects without
      bound, the simulation between them (\<open>dec_rel\<close>), the invariant \<open>dec_ok\<close>, and the
      meaning of a whole stream (\<open>stream_verdicts\<close>).
    \<^item> \<open>Codec\<close>: both ends together. The interface \<open>framed_link\<close> is interpreted on the encoder's
      frames and the decoder; order, resynchronisation, cut-off streams and the rejection of
      damage follow.
    \<^item> \<open>Noisy_Line\<close>: a line that loses, inserts and flips between a sender, or the node, and the
      decoder: whole frames always get through (\<open>carried\<close>), nothing is invented, and bit errors
      inside frames show as checksum errors in their place (\<open>fate\<close>).
    \<^item> \<open>Node_Restart\<close>: a node that loses power anywhere in its stream and boots again, any number
      of times, before a receiver that is not told.
    \<^item> \<open>Frame_Deliver\<close>: the decoder whose output pointer lies inside its own buffer.
    \<^item> \<open>Gateway_Decode\<close>: the gateway's types and stub, and every message type followed from its
      packer over the link to the values that \<open>protocol.c\<close>'s unpackers read (\<open>unpacks_to\<close>).
    \<^item> \<open>I2c_Bus\<close>: the seam; the contract of a register chip behind it is the interface
      \<open>register_chip\<close>.
    \<^item> \<open>I2c_Sim\<close>: the simulated chip, its interpretation as a register chip, and over any
      sequence of calls whatever (\<open>sim_reach\<close>) exactly which transfers return.
    \<^item> \<open>Adxl345\<close>: the driver; its lemmas are proved once in \<open>register_chip\<close> and used on the
      simulator, and its order of transfers on a bus that answers arbitrarily.
    \<^item> \<open>Mmio\<close>: memory-mapped devices as parameters, busy waits, recorded register accesses.
    \<^item> \<open>Uart\<close>: the serial driver; on every device with the documented behaviour
      (\<open>uart_device\<close>) it is a sink of bytes in order (interface \<open>byte_sink\<close>).
    \<^item> \<open>Uart_Receive\<close>: its receiving half; on every documented receiver (\<open>uart_receiver\<close>) it is a
      source that never blocks and loses nothing (interface \<open>byte_source\<close>).
    \<^item> \<open>I2c_Stellaris\<close>: the hardware master; the exact register scripts of its transfers, which
      go on and end as the status says that was polled last (\<open>tx_run\<close>, \<open>rx_run\<close>).
    \<^item> \<open>Stellaris_Chip\<close>: the hardware master with an accelerometer on its bus, as the data sheets
      have them: clock gates, pins, enabling, the table of commands with their start, stop and
      acknowledge bits (\<open>hw_command\<close>, \<open>hw_device\<close>). The initialisation sets it up, and then it
      is a register chip too, so the driver's lemmas hold on the hardware as well.
    \<^item> \<open>Startup\<close>: vector table, \<open>.data\<close> and \<open>.bss\<close>, the trap loop.
    \<^item> \<open>Link_Script\<close>: the linker script followed for arbitrary input sections; every layout it
      accepts has what the reset handler needs, and the objects apart in \<open>.bss\<close>.
    \<^item> \<open>Node_Main\<close>: boot and super-loop, run for a number of turns and as a step relation
      (\<open>node_reach\<close>), with the end-to-end theorems and the fail-stop branch.
    \<^item> \<open>Power_On\<close>: the vector table, the reset handler and \<open>main\<close> composed; \<open>main\<close>'s static objects
      are read from the memory the reset handler leaves, where the linker script has put them.
    \<^item> \<open>Fleet_Node\<close>: synthetic samples and frames, and what a receiver makes of a cut-off stream.
    \<^item> \<open>Libc_Numbers\<close>, \<open>Posix_Host\<close>: what the fleet server uses of the C library (numbers in text)
      and of the system (calls of an arbitrary host, each recorded with its result in a
      trace; from the trace follow the open descriptors, what every client was sent, and the
      pieces that pauses separate).
    \<^item> \<open>Fleet_Server\<close>: command line, listening socket, accept and streaming loops. The command
      line is compared with a grammar (\<open>command_line\<close>), the server with an abstract one
      (\<open>served\<close>, \<open>session\<close>) that only knows sessions and phases.
    \<^item> \<open>Host_Tests\<close>: the repository's tests, evaluated on the model; those of the gateway fail on
      its stub.

  \<^bold>\<open>Requirements.\<close> Where the requirements of \<open>docs/01_requirements_SWE1/node.md\<close> are proved:
  REQ-FW-001 and 002 in \<open>Link_Script\<close>, \<open>Startup\<close> and \<open>Power_On\<close>; 004 in \<open>Uart\<close> and
  \<open>Uart_Receive\<close>; 005 in \<open>I2c_Bus\<close> and its two interpretations; 006 in \<open>I2c_Sim\<close>; 007 in
  \<open>I2c_Stellaris\<close> and \<open>Stellaris_Chip\<close>; 008 to 011 in \<open>Adxl345\<close> (011 but for the endless wait
  on the hardware, see \<open>I2c_Stellaris\<close>); 012 in \<open>Node_Main\<close>, which also says what the cadence
  is made of; REQ-PR-002 in \<open>Crc16\<close>; 003 in \<open>Payload\<close>; 004, 005 and 007 in \<open>Frame_Encode\<close>; 006
  in \<open>Frame_Decode\<close>, \<open>Codec\<close>, \<open>Noisy_Line\<close> and \<open>Node_Restart\<close> (but for the bad escape, which is accepted);
  REQ-TS-001 and 003 in \<open>Host_Tests\<close>. The others are about tools, style and the build.

  \<^bold>\<open>Bounds and fuel.\<close> Counted loops are functions with a decreasing measure. The busy waits
  (\<open>spin\<close>) have no bound in the code and are partial functions; that they return is proved
  from a measure on the device that every poll decreases, and that a stuck device keeps
  them for ever is proved as well. The loops that never end, the super-loop and the
  fleet server's accept loop with the streaming loop in it, are run for a number of turns,
  and the theorems hold for every number.

  \<^bold>\<open>Parameters.\<close> What is not part of the repository is an argument of the model: UART0 and
  the I2C master (a state with a function for loads and one for stores), the system calls,
  and the sections that the compiler hands to the linker. The hypotheses \<open>uart_device\<close>,
  \<open>uart_receiver\<close>, \<open>i2c_responsive\<close>, \<open>hw_device\<close> and \<open>write_ok\<close> state their documented behaviour; each is shown
  to hold of a concrete device (\<open>fifo_dev\<close>, \<open>rx_dev\<close>, \<open>busy_dev\<close>, \<open>chip_dev\<close>, \<open>script_host\<close>). What the
  fleet server does with its descriptors is proved for every host without any hypothesis.

  \<^bold>\<open>Not modelled.\<close> The kernel driver, of which there is only a plan; build files, scripts
  and documents. The values of \<open>errno\<close> other than after \<open>accept\<close>, the text that \<open>perror\<close> adds
  and the time that \<open>usleep\<close> takes are the system's. The constants of \<open>adxl345.h\<close> and
  \<open>protocol.h\<close> that no code uses are left out.
\<close>

end
